theory Spec2Isabelle
  imports Complex_Main "HOL-Library.Monad_Syntax"
begin

unbundle bit_operations_syntax

section \<open>Data model\<close>

text \<open>
  A cell is a Python integer used as a bit field (bit 0: top wall, bit 1: right wall,
  bits 2 and 3: entry, exit or pattern marker, bit 4: the carver's visited flag, bits 8
  and above: the depth stamp of \<open>find_path_DFS\<close>).  The grid is a list of rows.
  Python integers are unbounded, so cells and coordinates are \<open>int\<close>.
\<close>

type_synonym maze = "int list list"
type_synonym coord = "int \<times> int"

text \<open>
  \<open>xs[i]\<close> of Python: an index from \<open>-len(xs)\<close> to \<open>-1\<close> counts from the end, an
  index outside \<open>-len(xs) .. len(xs) - 1\<close> raises \<open>IndexError\<close>, which is \<open>None\<close> here.
\<close>

definition py_index :: "'a list \<Rightarrow> int \<Rightarrow> nat option" where
  "py_index xs i =
     (let n = int (length xs) in
      if 0 \<le> i \<and> i < n then Some (nat i)
      else if - n \<le> i \<and> i < 0 then Some (nat (n + i))
      else None)"

definition py_get :: "'a list \<Rightarrow> int \<Rightarrow> 'a option" where
  "py_get xs i = map_option (\<lambda>k. xs ! k) (py_index xs i)"

definition py_set :: "'a list \<Rightarrow> int \<Rightarrow> 'a \<Rightarrow> 'a list option" where
  "py_set xs i v = map_option (\<lambda>k. xs[k := v]) (py_index xs i)"

text \<open>\<open>range(a, b)\<close>, as the list it runs through.\<close>

definition py_range :: "int \<Rightarrow> int \<Rightarrow> int list" where
  "py_range a b = [a .. b - 1]"

text \<open>\<open>maze[y][x]\<close> and \<open>maze[y][x] = v\<close>.  The rows are distinct list objects.\<close>

definition mget :: "maze \<Rightarrow> int \<Rightarrow> int \<Rightarrow> int option" where
  "mget maze x y = Option.bind (py_get maze y) (\<lambda>row. py_get row x)"

definition mset :: "maze \<Rightarrow> int \<Rightarrow> int \<Rightarrow> int \<Rightarrow> maze option" where
  "mset maze x y v =
     Option.bind (py_get maze y) (\<lambda>row.
     Option.bind (py_set row x v) (\<lambda>row'. py_set maze y row'))"

text \<open>
  \<open>CMazeParams\<close>, without the \<open>colors\<close> dictionary, which only the renderer reads.
  \<open>probability_to_del_dead_end\<close> is \<open>int | float\<close> in the source and a real number here.
\<close>

record CMazeParams =
  width :: int
  height :: int
  entry :: coord
  exit :: coord
  output_file :: string
  perfect :: bool
  seed :: "int option"
  insert_42 :: bool
  w_cell_size :: int
  w_wall_thickness :: int
  probability_to_del_dead_end :: real

datatype validation_error =
  FieldConstraint
  | EntryEqualsExit
  | EntryOutside
  | ExitOutside

text \<open>The \<open>Field(...)\<close> constraints of the class, checked by pydantic before the model validator.\<close>

definition field_constraints :: "CMazeParams \<Rightarrow> bool" where
  "field_constraints p \<longleftrightarrow>
     1 \<le> width p \<and> 1 \<le> height p \<and> 2 \<le> w_cell_size p \<and> 1 \<le> w_wall_thickness p
     \<and> 0 \<le> probability_to_del_dead_end p \<and> probability_to_del_dead_end p \<le> 100"

definition params_validator :: "CMazeParams \<Rightarrow> validation_error + CMazeParams" where
  "params_validator p =
     (if entry p = exit p then Inl EntryEqualsExit
      else if fst (entry p) \<ge> width p \<or> snd (entry p) \<ge> height p then Inl EntryOutside
      else if fst (exit p) \<ge> width p \<or> snd (exit p) \<ge> height p then Inl ExitOutside
      else Inr p)"

text \<open>Construction of a \<open>CMazeParams\<close> from field values that already have their types.\<close>

definition CMazeParams_init :: "CMazeParams \<Rightarrow> validation_error + CMazeParams" where
  "CMazeParams_init p =
     (if \<not> field_constraints p then Inl FieldConstraint else params_validator p)"

text \<open>The defaults of the class for the fields a caller does not give.\<close>

definition mk_params :: "int \<Rightarrow> int \<Rightarrow> coord \<Rightarrow> coord \<Rightarrow> CMazeParams" where
  "mk_params w h en ex =
     \<lparr> width = w, height = h, entry = en, exit = ex, output_file = [],
       perfect = True, seed = None, insert_42 = True, w_cell_size = 25,
       w_wall_thickness = 4, probability_to_del_dead_end = 99 \<rparr>"

section \<open>Pattern placement\<close>

definition p_42 :: "int list list" where
  "p_42 = [[15, 0, 0, 0, 15, 15, 15],
           [15, 0, 0, 0, 0, 0, 15],
           [15, 15, 15, 0, 15, 15, 15],
           [0, 0, 15, 0, 15, 0, 0],
           [0, 0, 15, 0, 15, 15, 15]]"

text \<open>
  The nested function \<open>check_palace\<close> of \<open>place_42\<close>; \<open>s_42_h\<close>, \<open>s_42_w\<close> and the
  number of rows of the maze are its free variables in the source.
\<close>

definition check_palace :: "int \<Rightarrow> int \<Rightarrow> int \<Rightarrow> coord \<Rightarrow> coord \<Rightarrow> int \<Rightarrow> int \<Rightarrow> bool" where
  "check_palace s_42_h s_42_w len_maze in' out' x y =
     (if (y > snd in' \<and> y > snd out')
         \<or> (x > fst in' \<and> x > fst out')
         \<or> (snd in' \<ge> y + s_42_h \<and> snd out' \<ge> y + s_42_h)
         \<or> (fst in' \<ge> x + s_42_w \<and> snd out' \<ge> x + s_42_w)
      then True
      else if (y > snd in' \<or> snd in' \<ge> y + s_42_h \<or> x > fst in' \<or> fst in' \<ge> x + s_42_w)
            \<and> (y > snd out' \<or> snd out' \<ge> y + s_42_h \<or> x > fst out' \<or> fst out' \<ge> x + s_42_w)
      then (s_42_h < len_maze
            \<or> (x > fst in' \<and> x > fst out')
            \<or> (x < fst in' \<and> x < fst out'))
      else False)"

text \<open>
  The two stamping loops: \<open>for y in range(0, s_42_h): for x in range(0, s_42_w)\<close>,
  as recursion over the lists of indices.
\<close>

fun stamp_row :: "int \<Rightarrow> int \<Rightarrow> int \<Rightarrow> int list \<Rightarrow> maze \<Rightarrow> maze option" where
  "stamp_row p_42_x p_42_y y [] maze = Some maze"
| "stamp_row p_42_x p_42_y y (x # xs) maze =
     (case Option.bind (py_get p_42 y) (\<lambda>row. py_get row x) of
        None \<Rightarrow> None
      | Some v \<Rightarrow>
          if v = 15 then
            (case mset maze (x + p_42_x) (y + p_42_y) 15 of
               None \<Rightarrow> None
             | Some maze' \<Rightarrow> stamp_row p_42_x p_42_y y xs maze')
          else stamp_row p_42_x p_42_y y xs maze)"

fun stamp_rows :: "int \<Rightarrow> int \<Rightarrow> int list \<Rightarrow> int list \<Rightarrow> maze \<Rightarrow> maze option" where
  "stamp_rows p_42_x p_42_y [] xs maze = Some maze"
| "stamp_rows p_42_x p_42_y (y # ys) xs maze =
     (case stamp_row p_42_x p_42_y y xs maze of
        None \<Rightarrow> None
      | Some maze' \<Rightarrow> stamp_rows p_42_x p_42_y ys xs maze')"

text \<open>
  \<open>place_42\<close> returns its boolean and the grid as the call leaves it.  \<open>int(n / 2)\<close> of a
  non-negative \<open>n\<close> is \<open>n div 2\<close> (both differences are non-negative where they are
  computed).  \<open>maze[0]\<close> raises on an empty grid, but an empty grid has already returned.
\<close>

definition place_42 :: "maze \<Rightarrow> coord \<Rightarrow> coord \<Rightarrow> (bool \<times> maze) option" where
  "place_42 maze in' out' =
     (let s_42_h = int (length p_42) in
      if s_42_h > int (length maze) then Some (False, maze)
      else if \<not> s_42_h > 0 then Some (False, maze)
      else
        (case py_get p_42 0 of None \<Rightarrow> None | Some prow \<Rightarrow>
        (case py_get maze 0 of None \<Rightarrow> None | Some row0 \<Rightarrow>
          let s_42_w = int (length prow) in
          if s_42_w > int (length row0) then Some (False, maze)
          else
            let p_42_x = (int (length row0) - s_42_w) div 2;
                p_42_y = (int (length maze) - s_42_h) div 2
            in if \<not> check_palace s_42_h s_42_w (int (length maze)) in' out' p_42_x p_42_y
               then Some (False, maze)
               else map_option (Pair True)
                      (stamp_rows p_42_x p_42_y (py_range 0 s_42_h) (py_range 0 s_42_w) maze))))"

section \<open>The random source\<close>

text \<open>
  The module \<open>random\<close> of Python is not part of the repository.  Its generator is a
  stream of raw draws; each call of \<open>random.choice\<close> or \<open>random.random\<close> consumes one
  draw.  \<open>random.choice(seq)\<close> returns \<open>seq[d mod len(seq)]\<close> and raises \<open>IndexError\<close> on
  an empty sequence; \<open>random.random()\<close> returns a multiple of \<open>2^-53\<close> in \<open>[0, 1)\<close>.
\<close>

type_synonym rng = "nat \<Rightarrow> nat"

definition rng_tail :: "rng \<Rightarrow> rng" where
  "rng_tail g = (\<lambda>n. g (Suc n))"

definition random_choice :: "'a list \<Rightarrow> rng \<Rightarrow> ('a \<times> rng) option" where
  "random_choice xs g =
     (if xs = [] then None else Some (xs ! (g 0 mod length xs), rng_tail g))"

definition random_random :: "rng \<Rightarrow> real \<times> rng" where
  "random_random g = (real (g 0 mod 2 ^ 53) / 2 ^ 53, rng_tail g)"

text \<open>\<open>[(1 << i) for i in range(4) if (v >> i) & 1]\<close>\<close>

definition wall_list :: "int \<Rightarrow> int list" where
  "wall_list v = map (\<lambda>i. push_bit i 1) (filter (\<lambda>i. drop_bit i v AND 1 \<noteq> 0) [0 ..< 4])"

section \<open>The carver\<close>

text \<open>
  A frame \<open>[x, y, q]\<close> of \<open>m_path\<close>.  The stack \<open>m_path\<close> is kept with its last element
  (the frame \<open>m_path[len(m_path) - 1]\<close> the loop works on) at the head of the list.
\<close>

type_synonym frame = "int \<times> int \<times> int"

text \<open>The four checks of the loop body, from the \<open>q\<close> of the frame to the \<open>q\<close> after them.\<close>

definition gen_DFS_walls :: "maze \<Rightarrow> CMazeParams \<Rightarrow> int \<Rightarrow> int \<Rightarrow> int \<Rightarrow> int option" where
  "gen_DFS_walls maze p x y q0 = do {
     q1 \<leftarrow> (if q0 AND 1 \<noteq> 0 then
              (if y = 0 then Some (q0 AND 14)
               else do { c \<leftarrow> mget maze x (y - 1);
                         Some (if c AND 0x1c \<ge> 0xc then q0 AND 14 else q0) })
            else Some q0);
     q2 \<leftarrow> (if q1 AND 2 \<noteq> 0 then
              (if x = width p - 1 then Some (q1 AND 13)
               else do { c \<leftarrow> mget maze (x + 1) y;
                         Some (if c AND 0x1c \<ge> 0xc then q1 AND 13 else q1) })
            else Some q1);
     q3 \<leftarrow> (if q2 AND 4 \<noteq> 0 then
              (if y = height p - 1 then Some (q2 AND 11)
               else do { c \<leftarrow> mget maze x (y + 1);
                         Some (if c AND 0x1c \<ge> 0xc then q2 AND 11 else q2) })
            else Some q2);
     (if q3 AND 8 \<noteq> 0 then
        (if x = 0 then Some (q3 AND 7)
         else do { c \<leftarrow> mget maze (x - 1) y;
                   Some (if c AND 0x1c \<ge> 0xc then q3 AND 7 else q3) })
      else Some q3)
   }"

text \<open>
  The \<open>match chosen_wall\<close> statement: \<open>rest\<close> is \<open>m_path\<close> below the frame \<open>[x, y, q]\<close>.
\<close>

definition gen_DFS_carve ::
  "maze \<Rightarrow> int \<Rightarrow> int \<Rightarrow> int \<Rightarrow> frame list \<Rightarrow> int \<Rightarrow> (maze \<times> frame list) option" where
  "gen_DFS_carve maze x y q rest chosen_wall =
     (if chosen_wall = 1 then do {
        c \<leftarrow> mget maze x y;
        m1 \<leftarrow> mset maze x y (c AND 0xfffe);
        d \<leftarrow> mget m1 x (y - 1);
        m2 \<leftarrow> mset m1 x (y - 1) (d OR 0x10);
        Some (m2, (x, y - 1, 0xf) # (x, y, q AND 0xe) # rest) }
      else if chosen_wall = 2 then do {
        c \<leftarrow> mget maze x y;
        m1 \<leftarrow> mset maze x y (c AND 0xfffd);
        d \<leftarrow> mget m1 (x + 1) y;
        m2 \<leftarrow> mset m1 (x + 1) y (d OR 0x10);
        Some (m2, (x + 1, y, 0xf) # (x, y, q AND 0xd) # rest) }
      else if chosen_wall = 4 then do {
        c \<leftarrow> mget maze x (y + 1);
        m1 \<leftarrow> mset maze x (y + 1) (c AND 0xfffe);
        d \<leftarrow> mget m1 x (y + 1);
        m2 \<leftarrow> mset m1 x (y + 1) (d OR 0x10);
        Some (m2, (x, y + 1, 0xf) # (x, y, q AND 0xb) # rest) }
      else if chosen_wall = 8 then do {
        c \<leftarrow> mget maze (x - 1) y;
        m1 \<leftarrow> mset maze (x - 1) y (c AND 0xfffd);
        d \<leftarrow> mget m1 (x - 1) y;
        m2 \<leftarrow> mset m1 (x - 1) y (d OR 0x10);
        Some (m2, (x - 1, y, 0xf) # (x, y, q AND 0x7) # rest) }
      else Some (maze, rest))"

text \<open>One run of the body of \<open>while (len(m_path) > 0)\<close>.\<close>

definition gen_DFS_body ::
  "CMazeParams \<Rightarrow> maze \<times> frame list \<times> rng \<Rightarrow> (maze \<times> frame list \<times> rng) option" where
  "gen_DFS_body p s =
     (case s of
        (maze, [], g) \<Rightarrow> None
      | (maze, (x, y, q0) # rest, g) \<Rightarrow> do {
          q \<leftarrow> gen_DFS_walls maze p x y q0;
          if q = 0 then Some (maze, rest, g)
          else do {
            (chosen_wall, g') \<leftarrow> random_choice (wall_list q) g;
            (maze', m_path') \<leftarrow> gen_DFS_carve maze x y q rest chosen_wall;
            Some (maze', m_path', g') } })"

text \<open>
  The loop ends: each run of the body pops a frame or sets the visited flag of a cell
  that passed the test \<open>(c & 0x1c) < 0xc\<close>, after which the cell fails it.
\<close>

definition carvable :: "int \<Rightarrow> bool" where
  "carvable c \<longleftrightarrow> \<not> c AND 0x1c \<ge> 0xc"

definition num_carvable :: "maze \<Rightarrow> nat" where
  "num_carvable maze = sum_list (map (\<lambda>row. length (filter carvable row)) maze)"

definition gen_DFS_measure :: "maze \<times> frame list \<times> rng \<Rightarrow> nat" where
  "gen_DFS_measure s = (case s of (maze, m_path, g) \<Rightarrow> 2 * num_carvable maze + length m_path)"

subsection \<open>Termination of the carving loop\<close>

lemma drop_bit_and_1: "(drop_bit i (v::int) AND 1 \<noteq> 0) \<longleftrightarrow> bit v i"
proof -
  have "drop_bit i v AND 1 = drop_bit i v mod 2" by (simp add: and_one_eq)
  moreover have "drop_bit i v mod 2 = 0 \<or> drop_bit i v mod 2 = 1" by presburger
  ultimately show ?thesis by (auto simp add: bit_iff_and_drop_bit_eq_1)
qed

lemma upt4: "[0 ..< 4] = [0, 1, 2, 3::nat]"
  by code_simp

lemma wall_list_eq:
  "wall_list q = (if bit q 0 then [1] else []) @ (if bit q 1 then [2] else [])
     @ (if bit q 2 then [4] else []) @ (if bit q 3 then [8] else [])"
  unfolding wall_list_def drop_bit_and_1 upt4 by simp

lemma wall_list_set: "w \<in> set (wall_list q) \<longleftrightarrow> (w = 1 \<and> bit q 0) \<or> (w = 2 \<and> bit q 1) \<or> (w = 4 \<and> bit q 2) \<or> (w = 8 \<and> bit q 3)"
  unfolding wall_list_eq by auto

lemma and_1_bit: "(q::int) AND 1 \<noteq> 0 \<longleftrightarrow> bit q 0"
  using and_exp_eq_0_iff_not_bit[of q 0] by simp
lemma and_2_bit: "(q::int) AND 2 \<noteq> 0 \<longleftrightarrow> bit q 1"
  using and_exp_eq_0_iff_not_bit[of q 1] by simp
lemma and_4_bit: "(q::int) AND 4 \<noteq> 0 \<longleftrightarrow> bit q 2"
  using and_exp_eq_0_iff_not_bit[of q 2] by simp
lemma and_8_bit: "(q::int) AND 8 \<noteq> 0 \<longleftrightarrow> bit q 3"
  using and_exp_eq_0_iff_not_bit[of q 3] by simp
lemma and_16_bit: "(q::int) AND 16 \<noteq> 0 \<longleftrightarrow> bit q 4"
  using and_exp_eq_0_iff_not_bit[of q 4] by simp

lemmas and_bit = and_1_bit and_2_bit and_4_bit and_8_bit and_16_bit

lemma carvable_and_fffe: "carvable (c AND 0xfffe) = carvable c"
  by (simp add: carvable_def and.assoc)
lemma carvable_and_fffd: "carvable (c AND 0xfffd) = carvable c"
  by (simp add: carvable_def and.assoc)
lemma not_carvable_or_10: "\<not> carvable (d OR 0x10)"
proof -
  have "(d OR 0x10) AND 0x1c = (d AND 0x1c) OR 0x10"
    by (simp add: bit.conj_disj_distrib2)
  moreover have "(d AND 0x1c) OR 0x10 \<ge> 0x10"
    by (metis or.commute or_greater_eq and_nonnegative_int_iff zero_le_numeral)
  ultimately show ?thesis by (simp add: carvable_def)
qed

lemma py_index_less: "py_index xs i = Some k \<Longrightarrow> k < length xs"
  by (auto simp add: py_index_def Let_def split: if_splits)

lemma py_index_cong: "length xs = length ys \<Longrightarrow> py_index xs i = py_index ys i"
  by (simp add: py_index_def)

definition midx :: "maze \<Rightarrow> int \<Rightarrow> int \<Rightarrow> (nat \<times> nat) option" where
  "midx m x y = (case py_index m y of None \<Rightarrow> None
     | Some ky \<Rightarrow> (case py_index (m ! ky) x of None \<Rightarrow> None | Some kx \<Rightarrow> Some (ky, kx)))"

definition mupd :: "maze \<Rightarrow> nat \<times> nat \<Rightarrow> int \<Rightarrow> maze" where
  "mupd m k v = (case k of (ky, kx) \<Rightarrow> m[ky := (m ! ky)[kx := v]])"

definition mnth :: "maze \<Rightarrow> nat \<times> nat \<Rightarrow> int" where
  "mnth m k = (case k of (ky, kx) \<Rightarrow> m ! ky ! kx)"

definition mvalid :: "maze \<Rightarrow> nat \<times> nat \<Rightarrow> bool" where
  "mvalid m k = (case k of (ky, kx) \<Rightarrow> ky < length m \<and> kx < length (m ! ky))"

lemma mget_midx: "mget m x y = map_option (mnth m) (midx m x y)"
  by (auto simp add: mget_def midx_def py_get_def mnth_def split: option.splits)

lemma mset_midx: "mset m x y v = map_option (\<lambda>k. mupd m k v) (midx m x y)"
  by (auto simp add: mset_def midx_def py_get_def py_set_def mupd_def split: option.splits)

lemma midx_valid: "midx m x y = Some k \<Longrightarrow> mvalid m k"
  by (auto simp add: midx_def mvalid_def dest: py_index_less split: option.splits)

lemma midx_mupd: "mvalid m k \<Longrightarrow> midx (mupd m k v) x y = midx m x y"
  by (cases k) (auto simp add: midx_def mupd_def mvalid_def py_index_cong[of "m[a := b]" m for a b] nth_list_update
       py_index_cong[of "xs[a := b]" xs for xs a b] 
       split: option.splits dest: py_index_less)

lemma nth_list_update_gen: "xs[i := r] ! j = (if i = j \<and> i < length xs then r else xs ! j)"
  by (cases "i < length xs") (auto simp add: nth_list_update list_update_beyond)

lemma mvalid_mupd: "mvalid (mupd m k v) k' = mvalid m k'"
  by (cases k; cases k') (auto simp add: mupd_def mvalid_def nth_list_update_gen)

lemma mnth_mupd: "mvalid m k \<Longrightarrow> mnth (mupd m k v) k' = (if k' = k then v else mnth m k')"
  by (cases k; cases k') (auto simp add: mupd_def mvalid_def mnth_def nth_list_update)

lemma filter_length_upd:
  "kx < length r \<Longrightarrow>
   length (filter P (r[kx := v])) + (if P (r ! kx) then 1 else 0) = length (filter P r) + (if P v then 1 else 0)"
proof (induction r arbitrary: kx)
  case Nil
  then show ?case by simp
next
  case (Cons a r)
  show ?case
  proof (cases kx)
    case 0
    then show ?thesis by simp
  next
    case (Suc n)
    with Cons.prems have "n < length r" by simp
    from Cons.IH[OF this] show ?thesis using Suc by simp
  qed
qed

lemma sum_list_map_upd:
  "ky < length m \<Longrightarrow> sum_list (map f (m[ky := r])) + f (m ! ky) = sum_list (map f m) + (f r :: nat)"
  by (induction m arbitrary: ky) (auto split: nat.splits)

lemma num_carvable_mupd:
  assumes "mvalid m k"
  shows "num_carvable (mupd m k v) + (if carvable (mnth m k) then 1 else 0)
         = num_carvable m + (if carvable v then 1 else 0)"
proof -
  obtain ky kx where k: "k = (ky, kx)" by (cases k)
  from assms k have ky: "ky < length m" and kx: "kx < length (m ! ky)" by (auto simp: mvalid_def)
  let ?f = "\<lambda>row. length (filter carvable row)"
  have a: "sum_list (map ?f (m[ky := (m ! ky)[kx := v]])) + ?f (m ! ky) = sum_list (map ?f m) + ?f ((m ! ky)[kx := v])"
    using sum_list_map_upd[OF ky, of ?f] by simp
  have b: "?f ((m ! ky)[kx := v]) + (if carvable (m ! ky ! kx) then 1 else 0) = ?f (m ! ky) + (if carvable v then 1 else 0)"
    using filter_length_upd[OF kx] by simp
  from a b show ?thesis unfolding num_carvable_def k mupd_def mnth_def by simp
qed


definition blocked :: "maze \<Rightarrow> CMazeParams \<Rightarrow> int \<Rightarrow> int \<Rightarrow> nat \<Rightarrow> bool" where
  "blocked maze p x y n \<longleftrightarrow>
     (if n = 0 then y = 0 \<or> (\<exists>c. mget maze x (y - 1) = Some c \<and> \<not> carvable c)
      else if n = 1 then x = width p - 1 \<or> (\<exists>c. mget maze (x + 1) y = Some c \<and> \<not> carvable c)
      else if n = 2 then y = height p - 1 \<or> (\<exists>c. mget maze x (y + 1) = Some c \<and> \<not> carvable c)
      else x = 0 \<or> (\<exists>c. mget maze (x - 1) y = Some c \<and> \<not> carvable c))"

definition passable :: "maze \<Rightarrow> CMazeParams \<Rightarrow> int \<Rightarrow> int \<Rightarrow> nat \<Rightarrow> bool" where
  "passable maze p x y n \<longleftrightarrow>
     (if n = 0 then y \<noteq> 0 \<and> (\<exists>c. mget maze x (y - 1) = Some c \<and> carvable c)
      else if n = 1 then x \<noteq> width p - 1 \<and> (\<exists>c. mget maze (x + 1) y = Some c \<and> carvable c)
      else if n = 2 then y \<noteq> height p - 1 \<and> (\<exists>c. mget maze x (y + 1) = Some c \<and> carvable c)
      else x \<noteq> 0 \<and> (\<exists>c. mget maze (x - 1) y = Some c \<and> carvable c))"

lemma walls_stage:
  assumes "(if cond then
              (if edge then Some (q AND m)
               else do { c \<leftarrow> cell; Some (if c AND 0x1c \<ge> 0xc then q AND m else q) })
            else Some (q::int)) = Some q'"
  shows "(q' = q \<and> (\<not> cond \<or> \<not> edge \<and> (\<exists>c. cell = Some c \<and> carvable c)))
       \<or> (q' = q AND m \<and> cond \<and> (edge \<or> (\<exists>c. cell = Some c \<and> \<not> carvable c)))"
proof (cases cond)
  case False
  with assms show ?thesis by simp
next
  case True
  note c = this
  show ?thesis
  proof (cases edge)
    case True
    with c assms show ?thesis by auto
  next
    case False
    with c assms obtain c where "cell = Some c" "q' = (if c AND 0x1c \<ge> 0xc then q AND m else q)"
      by (auto simp add: bind_eq_Some_conv)
    with c False show ?thesis by (cases "c AND 0x1c \<ge> 0xc") (simp_all add: carvable_def)
  qed
qed

lemma gen_DFS_walls_sound:
  assumes "gen_DFS_walls maze p x y q0 = Some q"
  shows "\<And>n. bit q n \<Longrightarrow> bit q0 n"
    and "\<And>n. n < 4 \<Longrightarrow> bit q n \<Longrightarrow> passable maze p x y n"
    and "\<And>n. n < 4 \<Longrightarrow> bit q0 n \<Longrightarrow> \<not> bit q n \<Longrightarrow> blocked maze p x y n"
proof -
  from assms obtain q1 q2 q3 where
    s1: "(if q0 AND 1 \<noteq> 0 then
              (if y = 0 then Some (q0 AND 14)
               else do { c \<leftarrow> mget maze x (y - 1);
                         Some (if c AND 0x1c \<ge> 0xc then q0 AND 14 else q0) })
            else Some q0) = Some q1" and
    s2: "(if q1 AND 2 \<noteq> 0 then
              (if x = width p - 1 then Some (q1 AND 13)
               else do { c \<leftarrow> mget maze (x + 1) y;
                         Some (if c AND 0x1c \<ge> 0xc then q1 AND 13 else q1) })
            else Some q1) = Some q2" and
    s3: "(if q2 AND 4 \<noteq> 0 then
              (if y = height p - 1 then Some (q2 AND 11)
               else do { c \<leftarrow> mget maze x (y + 1);
                         Some (if c AND 0x1c \<ge> 0xc then q2 AND 11 else q2) })
            else Some q2) = Some q3" and
    s4: "(if q3 AND 8 \<noteq> 0 then
        (if x = 0 then Some (q3 AND 7)
         else do { c \<leftarrow> mget maze (x - 1) y;
                   Some (if c AND 0x1c \<ge> 0xc then q3 AND 7 else q3) })
      else Some q3) = Some q"
    unfolding gen_DFS_walls_def by (auto simp add: bind_eq_Some_conv)
  note t1 = walls_stage[OF s1] and t2 = walls_stage[OF s2] and t3 = walls_stage[OF s3]
    and t4 = walls_stage[OF s4]
  have a1: "bit q1 n \<Longrightarrow> bit q0 n" for n
    using t1 by (auto simp add: bit_and_iff)
  have a2: "bit q2 n \<Longrightarrow> bit q1 n" for n
    using t2 by (auto simp add: bit_and_iff)
  have a3: "bit q3 n \<Longrightarrow> bit q2 n" for n
    using t3 by (auto simp add: bit_and_iff)
  have a4: "bit q n \<Longrightarrow> bit q3 n" for n
    using t4 by (auto simp add: bit_and_iff)
  show "bit q n \<Longrightarrow> bit q0 n" for n using a1 a2 a3 a4 by blast
  have b1: "bit q1 0 \<Longrightarrow> passable maze p x y 0" "bit q0 0 \<Longrightarrow> \<not> bit q1 0 \<Longrightarrow> blocked maze p x y 0"
    "bit q1 1 = bit q0 1" "bit q1 2 = bit q0 2" "bit q1 3 = bit q0 3"
    using t1 by (auto simp add: bit_and_iff and_bit passable_def blocked_def)
  have b2: "bit q2 1 \<Longrightarrow> passable maze p x y 1" "bit q1 1 \<Longrightarrow> \<not> bit q2 1 \<Longrightarrow> blocked maze p x y 1"
    "bit q2 0 = bit q1 0" "bit q2 2 = bit q1 2" "bit q2 3 = bit q1 3"
    using t2 by (auto simp add: bit_and_iff and_bit passable_def blocked_def)
  have b3: "bit q3 2 \<Longrightarrow> passable maze p x y 2" "bit q2 2 \<Longrightarrow> \<not> bit q3 2 \<Longrightarrow> blocked maze p x y 2"
    "bit q3 0 = bit q2 0" "bit q3 1 = bit q2 1" "bit q3 3 = bit q2 3"
    using t3 by (auto simp add: bit_and_iff and_bit passable_def blocked_def)
  have b4: "bit q 3 \<Longrightarrow> passable maze p x y 3" "bit q3 3 \<Longrightarrow> \<not> bit q 3 \<Longrightarrow> blocked maze p x y 3"
    "bit q 0 = bit q3 0" "bit q 1 = bit q3 1" "bit q 2 = bit q3 2"
    using t4 by (auto simp add: bit_and_iff and_bit passable_def blocked_def)
  have n4: "n < 4 \<Longrightarrow> n = 0 \<or> n = 1 \<or> n = 2 \<or> n = 3" for n :: nat by arith
  show "n < 4 \<Longrightarrow> bit q n \<Longrightarrow> passable maze p x y n" for n
    using n4[of n] b1 b2 b3 b4 by auto
  show "n < 4 \<Longrightarrow> bit q0 n \<Longrightarrow> \<not> bit q n \<Longrightarrow> blocked maze p x y n" for n
    using n4[of n] b1 b2 b3 b4 by auto
qed


lemma carve_two:
  assumes "mget maze a b = Some c" "mset maze a b v = Some m1" "carvable v = carvable c"
    and "mget m1 a' b' = Some d" "mset m1 a' b' (d OR 0x10) = Some m2"
    and "mget maze a' b' = Some c0" "carvable c0"
  shows "num_carvable m2 + 1 = num_carvable maze"
proof -
  from assms(1) obtain k where k: "midx maze a b = Some k" "c = mnth maze k"
    by (auto simp add: mget_midx)
  from assms(2) k have m1: "m1 = mupd maze k v" by (simp add: mset_midx)
  have vk: "mvalid maze k" using k(1) by (rule midx_valid)
  have n1: "num_carvable m1 = num_carvable maze"
    using num_carvable_mupd[OF vk, of v] assms(3) k(2) m1 by simp
  from assms(6) obtain k' where k': "midx maze a' b' = Some k'" "c0 = mnth maze k'"
    by (auto simp add: mget_midx)
  have k1: "midx m1 a' b' = Some k'" using k'(1) vk by (simp add: m1 midx_mupd)
  with assms(4) have d: "d = mnth m1 k'" by (simp add: mget_midx)
  have "carvable d" using d assms(3,7) k(2) k'(2) vk by (auto simp add: m1 mnth_mupd)
  moreover have "m2 = mupd m1 k' (d OR 0x10)" using assms(5) k1 by (simp add: mset_midx)
  moreover have "mvalid m1 k'" using k1 by (rule midx_valid)
  ultimately show ?thesis
    using num_carvable_mupd[of m1 k' "d OR 0x10"] n1 d by (simp add: not_carvable_or_10)
qed

lemma gen_DFS_carve_measure:
  assumes "gen_DFS_carve maze x y q rest w = Some (maze', path')"
    and "w = 1 \<Longrightarrow> passable maze p x y 0"
    and "w = 2 \<Longrightarrow> passable maze p x y 1"
    and "w = 4 \<Longrightarrow> passable maze p x y 2"
    and "w = 8 \<Longrightarrow> passable maze p x y 3"
    and "w \<in> {1, 2, 4, 8}"
  shows "2 * num_carvable maze' + length path' < 2 * num_carvable maze + Suc (length rest)"
proof -
  consider "w = 1" | "w = 2" | "w = 4" | "w = 8" using assms(6) by auto
  then show ?thesis
  proof cases
    case 1
    with assms(1) obtain c m1 d where
      "mget maze x y = Some c" "mset maze x y (c AND 0xfffe) = Some m1"
      "mget m1 x (y - 1) = Some d" "mset m1 x (y - 1) (d OR 0x10) = Some maze'"
      and pa: "path' = (x, y - 1, 0xf) # (x, y, q AND 0xe) # rest"
      by (auto simp add: gen_DFS_carve_def bind_eq_Some_conv)
    moreover from assms(2) 1 obtain c0 where "mget maze x (y - 1) = Some c0" "carvable c0"
      by (auto simp add: passable_def)
    ultimately have "num_carvable maze' + 1 = num_carvable maze"
      using carve_two[of maze x y c "c AND 0xfffe" m1 x "y - 1" d maze' c0]
      by (simp add: carvable_and_fffe)
    then show ?thesis using pa by simp
  next
    case 2
    with assms(1) obtain c m1 d where
      "mget maze x y = Some c" "mset maze x y (c AND 0xfffd) = Some m1"
      "mget m1 (x + 1) y = Some d" "mset m1 (x + 1) y (d OR 0x10) = Some maze'"
      and pa: "path' = (x + 1, y, 0xf) # (x, y, q AND 0xd) # rest"
      by (auto simp add: gen_DFS_carve_def bind_eq_Some_conv)
    moreover from assms(3) 2 obtain c0 where "mget maze (x + 1) y = Some c0" "carvable c0"
      by (auto simp add: passable_def)
    ultimately have "num_carvable maze' + 1 = num_carvable maze"
      using carve_two[of maze x y c "c AND 0xfffd" m1 "x + 1" y d maze' c0]
      by (simp add: carvable_and_fffd)
    then show ?thesis using pa by simp
  next
    case 3
    with assms(1) obtain c m1 d where
      "mget maze x (y + 1) = Some c" "mset maze x (y + 1) (c AND 0xfffe) = Some m1"
      "mget m1 x (y + 1) = Some d" "mset m1 x (y + 1) (d OR 0x10) = Some maze'"
      and pa: "path' = (x, y + 1, 0xf) # (x, y, q AND 0xb) # rest"
      by (auto simp add: gen_DFS_carve_def bind_eq_Some_conv)
    moreover from assms(4) 3 obtain c0 where "mget maze x (y + 1) = Some c0" "carvable c0"
      by (auto simp add: passable_def)
    ultimately have "num_carvable maze' + 1 = num_carvable maze"
      using carve_two[of maze x "y + 1" c "c AND 0xfffe" m1 x "y + 1" d maze' c0]
      by (simp add: carvable_and_fffe)
    then show ?thesis using pa by simp
  next
    case 4
    with assms(1) obtain c m1 d where
      "mget maze (x - 1) y = Some c" "mset maze (x - 1) y (c AND 0xfffd) = Some m1"
      "mget m1 (x - 1) y = Some d" "mset m1 (x - 1) y (d OR 0x10) = Some maze'"
      and pa: "path' = (x - 1, y, 0xf) # (x, y, q AND 0x7) # rest"
      by (auto simp add: gen_DFS_carve_def bind_eq_Some_conv)
    moreover from assms(5) 4 obtain c0 where "mget maze (x - 1) y = Some c0" "carvable c0"
      by (auto simp add: passable_def)
    ultimately have "num_carvable maze' + 1 = num_carvable maze"
      using carve_two[of maze "x - 1" y c "c AND 0xfffd" m1 "x - 1" y d maze' c0]
      by (simp add: carvable_and_fffd)
    then show ?thesis using pa by simp
  qed
qed

lemma random_choice_mem: "random_choice xs g = Some (w, g') \<Longrightarrow> w \<in> set xs \<and> g' = rng_tail g"
  by (auto simp add: random_choice_def split: if_splits)

lemma gen_DFS_body_measure:
  assumes "gen_DFS_body p s = Some s'"
  shows "gen_DFS_measure s' < gen_DFS_measure s"
proof -
  obtain maze m_path g where s: "s = (maze, m_path, g)" by (cases s)
  from assms s obtain x y q0 rest where mp: "m_path = (x, y, q0) # rest"
    by (cases m_path) (auto simp add: gen_DFS_body_def)
  from assms s mp obtain q where q: "gen_DFS_walls maze p x y q0 = Some q"
    and r: "(if q = 0 then Some (maze, rest, g)
          else do {
            (chosen_wall, g') \<leftarrow> random_choice (wall_list q) g;
            (maze', m_path') \<leftarrow> gen_DFS_carve maze x y q rest chosen_wall;
            Some (maze', m_path', g') }) = Some s'"
    by (auto simp add: gen_DFS_body_def bind_eq_Some_conv)
  show ?thesis
  proof (cases "q = 0")
    case True
    with r s mp show ?thesis by (auto simp add: gen_DFS_measure_def)
  next
    case False
    with r obtain w g' maze' path' where
      w: "random_choice (wall_list q) g = Some (w, g')"
      and c: "gen_DFS_carve maze x y q rest w = Some (maze', path')"
      and s': "s' = (maze', path', g')"
      by (auto simp add: bind_eq_Some_conv)
    from random_choice_mem[OF w] have ws: "w \<in> set (wall_list q)" by simp
    then have w4: "w \<in> {1, 2, 4, 8}" by (auto simp add: wall_list_set)
    from ws have "w = 1 \<Longrightarrow> bit q 0" "w = 2 \<Longrightarrow> bit q 1" "w = 4 \<Longrightarrow> bit q 2" "w = 8 \<Longrightarrow> bit q 3"
      by (auto simp add: wall_list_set)
    with gen_DFS_walls_sound(2)[OF q] have
      "w = 1 \<Longrightarrow> passable maze p x y 0" "w = 2 \<Longrightarrow> passable maze p x y 1"
      "w = 4 \<Longrightarrow> passable maze p x y 2" "w = 8 \<Longrightarrow> passable maze p x y 3"
      by simp_all
    from gen_DFS_carve_measure[OF c this w4] show ?thesis
      by (simp add: s s' mp gen_DFS_measure_def)
  qed
qed

function gen_DFS_loop :: "CMazeParams \<Rightarrow> maze \<times> frame list \<times> rng \<Rightarrow> (maze \<times> rng) option" where
  "gen_DFS_loop p s =
     (case s of (maze, m_path, g) \<Rightarrow>
        if m_path = [] then Some (maze, g)
        else (case gen_DFS_body p s of None \<Rightarrow> None | Some s' \<Rightarrow> gen_DFS_loop p s'))"
  by pat_completeness auto
termination
  by (relation "measure (\<lambda>(p, s). gen_DFS_measure s)") (auto simp add: gen_DFS_body_measure)

definition gen_DFS :: "maze \<Rightarrow> CMazeParams \<Rightarrow> rng \<Rightarrow> (maze \<times> rng) option" where
  "gen_DFS maze p g =
     (case exit p of (x, y) \<Rightarrow> do {
        c \<leftarrow> mget maze x y;
        m \<leftarrow> mset maze x y (c OR 0x10);
        gen_DFS_loop p (m, [(x, y, 0xf)], g) })"


declare gen_DFS_loop.simps [simp del]

section \<open>The imperfection injector\<close>

text \<open>
  The effective wall mask of the cell \<open>(x, y)\<close> from \<open>v = maze[y][x] & 3\<close> on, as
  \<open>do_not_prefect\<close>, \<open>do_not_prefect_animated\<close> and \<open>write_to_file\<close> compute it.
\<close>

definition effective_walls :: "maze \<Rightarrow> int \<Rightarrow> int \<Rightarrow> int \<Rightarrow> int option" where
  "effective_walls maze x y v0 = do {
     let v1 = v0 AND 3;
     let v2 = (if y = 0 then v1 OR 1 else v1);
     v3 \<leftarrow> (if x = 0 then Some (v2 OR 8)
            else do { c \<leftarrow> mget maze (x - 1) y; Some (if c AND 2 \<noteq> 0 then v2 OR 8 else v2) });
     v4 \<leftarrow> (if y = int (length maze) - 1 then Some (v3 OR 4)
            else do { c \<leftarrow> mget maze x (y + 1); Some (if c AND 1 \<noteq> 0 then v3 OR 4 else v3) });
     row0 \<leftarrow> py_get maze 0;
     Some (if x = int (length row0) - 1 then v4 OR 2 else v4)
   }"

text \<open>The walls of a dead end that may be removed: not on the boundary, not towards a pattern cell.\<close>

definition removable_walls :: "maze \<Rightarrow> int \<Rightarrow> int \<Rightarrow> int \<Rightarrow> int option" where
  "removable_walls maze x y w0 = do {
     w1 \<leftarrow> (if w0 AND 1 \<noteq> 0 then
              (if y = 0 then Some (w0 AND 0xe)
               else do { c \<leftarrow> mget maze x (y - 1);
                         Some (if c AND 0xc = 0xc then w0 AND 0xe else w0) })
            else Some w0);
     w2 \<leftarrow> (if w1 AND 2 \<noteq> 0 then
              do { row0 \<leftarrow> py_get maze 0;
                   if x = int (length row0) - 1 then Some (w1 AND 13)
                   else do { c \<leftarrow> mget maze (x + 1) y;
                             Some (if c AND 0xc = 0xc then w1 AND 13 else w1) } }
            else Some w1);
     w3 \<leftarrow> (if w2 AND 4 \<noteq> 0 then
              (if y = int (length maze) - 1 then Some (w2 AND 11)
               else do { c \<leftarrow> mget maze x (y + 1);
                         Some (if c AND 0xc = 0xc then w2 AND 11 else w2) })
            else Some w2);
     (if w3 AND 8 \<noteq> 0 then
        (if x = 0 then Some (w3 AND 7)
         else do { c \<leftarrow> mget maze (x - 1) y;
                   Some (if c AND 0xc = 0xc then w3 AND 7 else w3) })
      else Some w3)
   }"

text \<open>The \<open>match chosen_wall\<close> statement of the injector.\<close>

definition remove_wall :: "maze \<Rightarrow> int \<Rightarrow> int \<Rightarrow> int \<Rightarrow> maze option" where
  "remove_wall maze x y chosen_wall =
     (if chosen_wall = 1 then do { c \<leftarrow> mget maze x y; mset maze x y (c AND 0xfffe) }
      else if chosen_wall = 2 then do { c \<leftarrow> mget maze x y; mset maze x y (c AND 0xfffd) }
      else if chosen_wall = 4 then
        do { c \<leftarrow> mget maze x (y + 1); mset maze x (y + 1) (c AND 0xfffe) }
      else if chosen_wall = 8 then
        do { c \<leftarrow> mget maze (x - 1) y; mset maze (x - 1) y (c AND 0xfffd) }
      else Some maze)"

text \<open>
  The test \<open>(pr >= 100) or (random.random() < (0.01 * pr))\<close>; a draw is consumed only
  when \<open>pr < 100\<close>.  The product is taken over the reals (the rounding of the float
  product is not modelled).
\<close>

definition dead_end_draw :: "real \<Rightarrow> rng \<Rightarrow> bool \<times> rng" where
  "dead_end_draw pr g =
     (if pr \<ge> 100 then (True, g)
      else (case random_random g of (r, g') \<Rightarrow> (r < 0.01 * pr, g')))"

text \<open>
  The body of the two \<open>for\<close> loops for the cell \<open>(x, y)\<close>.  The boolean tells whether
  the \<open>match\<close> statement was reached (where the animated variant yields).
\<close>

definition do_not_prefect_cell ::
  "maze \<Rightarrow> real \<Rightarrow> int \<Rightarrow> int \<Rightarrow> rng \<Rightarrow> (maze \<times> rng \<times> bool) option" where
  "do_not_prefect_cell maze pr x y g = do {
     v0 \<leftarrow> mget maze x y;
     if v0 AND 0xc \<noteq> 0 then Some (maze, g, False)
     else do {
       v \<leftarrow> effective_walls maze x y v0;
       if length (wall_list v) = 3 then
         (case dead_end_draw pr g of (go, g1) \<Rightarrow>
            if go then do {
              w \<leftarrow> removable_walls maze x y v;
              if w = 0 then Some (maze, g1, False)
              else do {
                (chosen_wall, g2) \<leftarrow> random_choice (wall_list w) g1;
                maze' \<leftarrow> remove_wall maze x y chosen_wall;
                Some (maze', g2, True) } }
            else Some (maze, g1, False))
       else Some (maze, g, False) } }"

fun do_not_prefect_row :: "real \<Rightarrow> int \<Rightarrow> int list \<Rightarrow> maze \<Rightarrow> rng \<Rightarrow> (maze \<times> rng) option" where
  "do_not_prefect_row pr y [] maze g = Some (maze, g)"
| "do_not_prefect_row pr y (x # xs) maze g =
     (case do_not_prefect_cell maze pr x y g of
        None \<Rightarrow> None
      | Some (maze', g', _) \<Rightarrow> do_not_prefect_row pr y xs maze' g')"

fun do_not_prefect_rows :: "real \<Rightarrow> int list \<Rightarrow> maze \<Rightarrow> rng \<Rightarrow> (maze \<times> rng) option" where
  "do_not_prefect_rows pr [] maze g = Some (maze, g)"
| "do_not_prefect_rows pr (y # ys) maze g =
     (case py_get maze 0 of
        None \<Rightarrow> None
      | Some row0 \<Rightarrow>
          (case do_not_prefect_row pr y (py_range 0 (int (length row0))) maze g of
             None \<Rightarrow> None
           | Some (maze', g') \<Rightarrow> do_not_prefect_rows pr ys maze' g'))"

definition do_not_prefect :: "maze \<Rightarrow> CMazeParams \<Rightarrow> rng \<Rightarrow> (maze \<times> rng) option" where
  "do_not_prefect maze p g =
     (let pr = probability_to_del_dead_end p in
      if pr \<le> 0 then Some (maze, g)
      else do_not_prefect_rows pr (py_range 0 (int (length maze))) maze g)"

section \<open>Generation\<close>

text \<open>
  \<open>generate\<close>.  \<open>random_seed s\<close> is the generator state that \<open>random.seed(s)\<close> installs
  (the module \<open>random\<close> is not part of the repository); \<open>g\<close> is the state of the global
  generator when the call starts.  The result is the grid and the generator state the call
  leaves.  The warning printed when the pattern cannot be placed is left out.
\<close>

definition generate :: "(int \<Rightarrow> rng) \<Rightarrow> CMazeParams \<Rightarrow> rng \<Rightarrow> (maze \<times> rng) option" where
  "generate random_seed p g = do {
     let maze0 = replicate (nat (height p)) (replicate (nat (width p)) 3);
     maze1 \<leftarrow> mset maze0 (fst (entry p)) (snd (entry p)) 7;
     maze2 \<leftarrow> mset maze1 (fst (exit p)) (snd (exit p)) 11;
     maze3 \<leftarrow> (if insert_42 p then map_option snd (place_42 maze2 (entry p) (exit p))
               else Some maze2);
     let g0 = (case seed p of None \<Rightarrow> g | Some s \<Rightarrow> random_seed s);
     (maze4, g1) \<leftarrow> gen_DFS maze3 p g0;
     if \<not> perfect p then do_not_prefect maze4 p g1 else Some (maze4, g1)
   }"

text \<open>\<open>clear_tmp_data\<close>\<close>

fun clear_tmp_row :: "int \<Rightarrow> int list \<Rightarrow> maze \<Rightarrow> maze option" where
  "clear_tmp_row y [] maze = Some maze"
| "clear_tmp_row y (x # xs) maze =
     (case mget maze x y of
        None \<Rightarrow> None
      | Some c \<Rightarrow>
          if c > 0xf then
            (case mset maze x y (c AND 0xf) of
               None \<Rightarrow> None
             | Some maze' \<Rightarrow> clear_tmp_row y xs maze')
          else clear_tmp_row y xs maze)"

fun clear_tmp_rows :: "int list \<Rightarrow> maze \<Rightarrow> maze option" where
  "clear_tmp_rows [] maze = Some maze"
| "clear_tmp_rows (y # ys) maze =
     (case py_get maze 0 of
        None \<Rightarrow> None
      | Some row0 \<Rightarrow>
          (case clear_tmp_row y (py_range 0 (int (length row0))) maze of
             None \<Rightarrow> None
           | Some maze' \<Rightarrow> clear_tmp_rows ys maze'))"

definition clear_tmp_data :: "maze \<Rightarrow> maze option" where
  "clear_tmp_data maze = clear_tmp_rows (py_range 0 (int (length maze))) maze"


section \<open>Validation of the parameters\<close>

text \<open>
  Claim C3.  The claim: a \<open>CMazeParams\<close> is constructed if and only if the dimensions are
  positive, entry and exit differ and both lie in \<open>0 \<le> x < width\<close>, \<open>0 \<le> y < height\<close>.
  The validator compares the coordinates with the upper bounds only (its comment and its
  message say "inside maze"): an entry with a negative coordinate is accepted.
\<close>

theorem params_negative_entry_accepted:
  "CMazeParams_init (mk_params 3 3 (- 1, 0) (1, 1)) = Inr (mk_params 3 3 (- 1, 0) (1, 1))"
  by (simp add: CMazeParams_init_def field_constraints_def params_validator_def mk_params_def)

section \<open>The pattern and the exit\<close>

text \<open>
  Claim C4.  The claim: when \<open>place_42\<close> succeeds, neither the entry nor the exit is
  among the cells it marks.  On the grid of 8 columns and 11 rows that \<open>generate\<close>
  builds for the entry \<open>(7, 0)\<close> and the exit \<open>(2, 7)\<close>, the fourth test of
  \<open>check_palace\<close> compares the row of the exit with a column bound, the placement
  succeeds, and the exit cell, 11 before the call, is 15 after it.
\<close>

theorem place_42_overwrites_exit:
  "Option.bind (mset (replicate 11 (replicate 8 3)) 7 0 7) (\<lambda>maze1.
   Option.bind (mset maze1 2 7 11) (\<lambda>maze2.
   Option.bind (place_42 maze2 (7, 0) (2, 7)) (\<lambda>(placed, maze3).
   Option.bind (mget maze2 2 7) (\<lambda>before.
   Option.bind (mget maze3 2 7) (\<lambda>after. Some (placed, before, after))))))
   = Some (True, 11, 15)"
  by code_simp

section \<open>Determinism of the generation\<close>

text \<open>
  Without a seed the grid depends on the state of the global generator.
\<close>

lemma generate_unseeded_depends:
  "map_option fst (generate (\<lambda>s n. nat s + n)
       ((mk_params 2 2 (1, 1) (0, 0))\<lparr>insert_42 := False\<rparr>) (\<lambda>n. 0))
   \<noteq> map_option fst (generate (\<lambda>s n. nat s + n)
       ((mk_params 2 2 (1, 1) (0, 0))\<lparr>insert_42 := False\<rparr>) (\<lambda>n. 1))"
  by code_simp

text \<open>
  Claim C8.  With a seed in the parameters, two calls of \<open>generate\<close> with the same
  parameters give the same result (the same grid, bit for bit, and the same generator
  state afterwards), whatever the state of the global generator before each call: the
  carving, and the removal of dead ends when the maze is not perfect, draw from the
  generator only after \<open>random.seed\<close> has reset it.
\<close>

theorem generate_deterministic:
  assumes "seed p = Some s"
  shows "generate random_seed p g1 = generate random_seed p g2"
  using assms by (simp add: generate_def)

theorem generate_deterministic_witness:
  "generate (\<lambda>s n. nat s + n) ((mk_params 2 2 (1, 1) (0, 0))\<lparr>seed := Some 1\<rparr>) (\<lambda>n. 0)
   = generate (\<lambda>s n. nat s + n) ((mk_params 2 2 (1, 1) (0, 0))\<lparr>seed := Some 1\<rparr>) (\<lambda>n. 1)"
  using generate_deterministic[of "(mk_params 2 2 (1, 1) (0, 0))\<lparr>seed := Some 1\<rparr>" 1]
  by (simp add: mk_params_def)


section \<open>Breadth-first path search\<close>

text \<open>
  The local \<open>cell\<close> of \<open>find_path_BFS\<close>: the four effective wall bits of \<open>(x, y)\<close>;
  \<open>hgt\<close> and \<open>wid\<close> are the locals \<open>height\<close> and \<open>width\<close>.
\<close>

definition bfs_cell :: "maze \<Rightarrow> int \<Rightarrow> int \<Rightarrow> int \<Rightarrow> int \<Rightarrow> int option" where
  "bfs_cell maze hgt wid x y = do {
     c \<leftarrow> mget maze x y;
     let cell = c AND 3;
     cell \<leftarrow> (if x = 0 then Some (cell OR 8)
              else do { l \<leftarrow> mget maze (x - 1) y; Some (if l AND 2 \<noteq> 0 then cell OR 8 else cell) });
     cell \<leftarrow> (if y \<ge> hgt - 1 then Some (cell OR 4)
              else do { b \<leftarrow> mget maze x (y + 1); Some (if b AND 1 \<noteq> 0 then cell OR 4 else cell) });
     let cell = (if y = 0 then cell OR 1 else cell);
     Some (if x \<ge> wid - 1 then cell OR 2 else cell)
   }"

text \<open>The queue, the set \<open>visited\<close> and the dictionary \<open>parent\<close>.\<close>

type_synonym bfs_search = "coord list \<times> coord set \<times> (coord \<rightharpoonup> coord)"

text \<open>One of the four blocks TOP, RIGHT, BOTTOM, LEFT; \<open>ok\<close> is the wall and range test.\<close>

definition bfs_visit :: "bool \<Rightarrow> coord \<Rightarrow> coord \<Rightarrow> bfs_search \<Rightarrow> bfs_search" where
  "bfs_visit ok n cur s =
     (case s of (queue, visited, parent) \<Rightarrow>
        if ok \<and> n \<notin> visited then (queue @ [n], insert n visited, parent(n \<mapsto> cur))
        else (queue, visited, parent))"

definition bfs_expand :: "int \<Rightarrow> int \<Rightarrow> int \<Rightarrow> coord \<Rightarrow> bfs_search \<Rightarrow> bfs_search" where
  "bfs_expand hgt wid cell cur s =
     (case cur of (x, y) \<Rightarrow>
        bfs_visit (cell AND 8 = 0 \<and> 0 \<le> x - 1 \<and> x - 1 < wid) (x - 1, y) cur
       (bfs_visit (cell AND 4 = 0 \<and> 0 \<le> y + 1 \<and> y + 1 < hgt) (x, y + 1) cur
       (bfs_visit (cell AND 2 = 0 \<and> 0 \<le> x + 1 \<and> x + 1 < wid) (x + 1, y) cur
       (bfs_visit (cell AND 1 = 0 \<and> 0 \<le> y - 1 \<and> y - 1 < hgt) (x, y - 1) cur s))))"

text \<open>
  The loop \<open>while (x, y) != start\<close> that rebuilds the path.  \<open>None\<close>: the loop raises
  \<open>KeyError\<close> or does not end.
\<close>

partial_function (option) bfs_reconstruct ::
  "(coord \<rightharpoonup> coord) \<Rightarrow> coord \<Rightarrow> coord \<Rightarrow> frame list \<Rightarrow> frame list option" where
  "bfs_reconstruct parent start cur path =
     (if cur \<noteq> start then
        (case parent cur of
           None \<Rightarrow> None
         | Some pr \<Rightarrow> bfs_reconstruct parent start pr (path @ [(fst cur, snd cur, 0)]))
      else Some (rev (path @ [(fst start, snd start, 0)])))"

declare bfs_reconstruct.simps [code]

text \<open>
  The search loop ends: every run takes a cell from the queue, and a cell enters the queue
  only when it is new to \<open>visited\<close>, inside a finite region.
\<close>

definition bfs_region :: "int \<Rightarrow> int \<Rightarrow> coord list \<Rightarrow> coord set" where
  "bfs_region hgt wid queue = (fst ` set queue \<union> {0 ..< wid}) \<times> (snd ` set queue \<union> {0 ..< hgt})"

definition bfs_measure :: "int \<Rightarrow> int \<Rightarrow> bfs_search \<Rightarrow> nat" where
  "bfs_measure hgt wid s =
     (case s of (queue, visited, parent) \<Rightarrow>
        2 * card (bfs_region hgt wid queue - visited) + length queue)"

lemma finite_bfs_region: "finite (bfs_region h w q)"
  by (simp add: bfs_region_def)

lemma bfs_visit_measure:
  assumes "finite R" "ok \<Longrightarrow> n \<in> R" "bfs_visit ok n cur (queue, visited, parent) = (queue', visited', parent')"
  shows "2 * card (R - visited') + length queue' \<le> 2 * card (R - visited) + length queue"
    and "set queue \<subseteq> R \<Longrightarrow> set queue' \<subseteq> R"
proof -
  show "2 * card (R - visited') + length queue' \<le> 2 * card (R - visited) + length queue"
  proof (cases "ok \<and> n \<notin> visited")
    case True
    then have n: "n \<in> R - visited" using assms(2) by simp
    have "R - insert n visited = (R - visited) - {n}" by auto
    then have "card (R - insert n visited) = card (R - visited) - 1"
      using n assms(1) by (simp add: card_Diff_singleton)
    moreover have "card (R - visited) \<ge> 1" using n assms(1)
      by (metis One_nat_def Suc_leI card_gt_0_iff empty_iff finite_Diff)
    ultimately show ?thesis using True assms(3) by (auto simp add: bfs_visit_def)
  next
    case False
    then show ?thesis using assms(3) by (auto simp add: bfs_visit_def)
  qed
  show "set queue \<subseteq> R \<Longrightarrow> set queue' \<subseteq> R"
    using assms(2,3) by (auto simp add: bfs_visit_def split: if_splits)
qed


lemma bfs_region_mono:
  assumes "set q' \<subseteq> bfs_region h w q"
  shows "bfs_region h w q' \<subseteq> bfs_region h w q"
proof -
  have "fst ` set q' \<subseteq> fst ` set q \<union> {0 ..< w}" "snd ` set q' \<subseteq> snd ` set q \<union> {0 ..< h}"
    using assms unfolding bfs_region_def by fastforce+
  then show ?thesis unfolding bfs_region_def by blast
qed

lemma bfs_region_mem:
  "a \<in> fst ` set q \<or> 0 \<le> a \<and> a < w \<Longrightarrow> b \<in> snd ` set q \<or> 0 \<le> b \<and> b < h
   \<Longrightarrow> (a, b) \<in> bfs_region h w q"
  by (auto simp add: bfs_region_def)

lemma bfs_region_queue: "set q \<subseteq> bfs_region h w q"
  unfolding bfs_region_def by force

lemma bfs_expand_measure:
  "bfs_measure hgt wid (bfs_expand hgt wid cell (x, y) (rest, visited, parent))
   < bfs_measure hgt wid ((x, y) # rest, visited, parent)"
proof -
  let ?R = "bfs_region hgt wid ((x, y) # rest)"
  have fin: "finite ?R" by (rule finite_bfs_region)
  have r0: "set rest \<subseteq> ?R" using bfs_region_queue[of "(x, y) # rest" hgt wid] by simp
  obtain q1 v1 p1 where s1:
    "bfs_visit (cell AND 1 = 0 \<and> 0 \<le> y - 1 \<and> y - 1 < hgt) (x, y - 1) (x, y) (rest, visited, parent) = (q1, v1, p1)"
    by (metis prod_cases3)
  obtain q2 v2 p2 where s2:
    "bfs_visit (cell AND 2 = 0 \<and> 0 \<le> x + 1 \<and> x + 1 < wid) (x + 1, y) (x, y) (q1, v1, p1) = (q2, v2, p2)"
    by (metis prod_cases3)
  obtain q3 v3 p3 where s3:
    "bfs_visit (cell AND 4 = 0 \<and> 0 \<le> y + 1 \<and> y + 1 < hgt) (x, y + 1) (x, y) (q2, v2, p2) = (q3, v3, p3)"
    by (metis prod_cases3)
  obtain q4 v4 p4 where s4:
    "bfs_visit (cell AND 8 = 0 \<and> 0 \<le> x - 1 \<and> x - 1 < wid) (x - 1, y) (x, y) (q3, v3, p3) = (q4, v4, p4)"
    by (metis prod_cases3)
  have e: "bfs_expand hgt wid cell (x, y) (rest, visited, parent) = (q4, v4, p4)"
    unfolding bfs_expand_def prod.case s1 s2 s3 s4 by (rule refl)
  have n1: "cell AND 1 = 0 \<and> 0 \<le> y - 1 \<and> y - 1 < hgt \<Longrightarrow> (x, y - 1) \<in> ?R"
    by (rule bfs_region_mem) auto
  have n2: "cell AND 2 = 0 \<and> 0 \<le> x + 1 \<and> x + 1 < wid \<Longrightarrow> (x + 1, y) \<in> ?R"
    by (rule bfs_region_mem) auto
  have n3: "cell AND 4 = 0 \<and> 0 \<le> y + 1 \<and> y + 1 < hgt \<Longrightarrow> (x, y + 1) \<in> ?R"
    by (rule bfs_region_mem) auto
  have n4: "cell AND 8 = 0 \<and> 0 \<le> x - 1 \<and> x - 1 < wid \<Longrightarrow> (x - 1, y) \<in> ?R"
    by (rule bfs_region_mem) auto
  note m1 = bfs_visit_measure(1)[OF fin n1 s1]
  note r1 = bfs_visit_measure(2)[OF fin n1 s1 r0]
  note m2 = bfs_visit_measure(1)[OF fin n2 s2]
  note r2 = bfs_visit_measure(2)[OF fin n2 s2 r1]
  note m3 = bfs_visit_measure(1)[OF fin n3 s3]
  note r3 = bfs_visit_measure(2)[OF fin n3 s3 r2]
  note m4 = bfs_visit_measure(1)[OF fin n4 s4]
  note r4 = bfs_visit_measure(2)[OF fin n4 s4 r3]
  have "bfs_region hgt wid q4 - v4 \<subseteq> ?R - v4" using bfs_region_mono[OF r4] by auto
  then have "card (bfs_region hgt wid q4 - v4) \<le> card (?R - v4)"
    using fin by (simp add: card_mono)
  with m1 m2 m3 m4 show ?thesis by (simp add: e bfs_measure_def)
qed

text \<open>
  The loop \<open>while queue\<close>.  The result is the path and the grid as the call leaves it.
\<close>

function bfs_loop ::
  "maze \<Rightarrow> int \<Rightarrow> int \<Rightarrow> coord \<Rightarrow> coord \<Rightarrow> bfs_search \<Rightarrow> (frame list \<times> maze) option" where
  "bfs_loop maze hgt wid start end' s =
     (case s of
        ([], visited, parent) \<Rightarrow> Some ([], maze)
      | ((x, y) # rest, visited, parent) \<Rightarrow>
          if (x, y) = end' then map_option (\<lambda>path. (path, maze)) (bfs_reconstruct parent start (x, y) [])
          else (case bfs_cell maze hgt wid x y of
                  None \<Rightarrow> None
                | Some cell \<Rightarrow>
                    bfs_loop maze hgt wid start end' (bfs_expand hgt wid cell (x, y) (rest, visited, parent))))"
  by pat_completeness auto
termination
  by (relation "measure (\<lambda>(maze, hgt, wid, start, end', s). bfs_measure hgt wid s)")
     (auto simp add: bfs_expand_measure)

declare bfs_loop.simps [simp del]

definition find_path_BFS :: "maze \<Rightarrow> CMazeParams \<Rightarrow> (frame list \<times> maze) option" where
  "find_path_BFS maze p = do {
     row0 \<leftarrow> py_get maze 0;
     bfs_loop maze (int (length maze)) (int (length row0)) (entry p) (exit p)
       ([entry p], {entry p}, Map.empty)
   }"


section \<open>The serializer\<close>

text \<open>\<open>format(v, "X")\<close> and the decimal \<open>str\<close> of an integer.\<close>

definition hex_digits :: string where
  "hex_digits = ''0123456789ABCDEF''"

fun format_X_nat :: "nat \<Rightarrow> string" where
  "format_X_nat n =
     (if n < 16 then [hex_digits ! n] else format_X_nat (n div 16) @ [hex_digits ! (n mod 16)])"

declare format_X_nat.simps [simp del]

definition format_X :: "int \<Rightarrow> string" where
  "format_X v = (if v < 0 then CHR ''-'' # format_X_nat (nat (- v)) else format_X_nat (nat v))"

fun str_nat :: "nat \<Rightarrow> string" where
  "str_nat n =
     (if n < 10 then [hex_digits ! n] else str_nat (n div 10) @ [hex_digits ! (n mod 10)])"

declare str_nat.simps [simp del]

definition str_int :: "int \<Rightarrow> string" where
  "str_int v = (if v < 0 then CHR ''-'' # str_nat (nat (- v)) else str_nat (nat v))"

definition newline :: char where
  "newline = CHR 0x0A"

fun grid_row_text :: "maze \<Rightarrow> int \<Rightarrow> int list \<Rightarrow> string option" where
  "grid_row_text maze y [] = Some []"
| "grid_row_text maze y (x # xs) = do {
     c \<leftarrow> mget maze x y;
     v \<leftarrow> effective_walls maze x y c;
     rest \<leftarrow> grid_row_text maze y xs;
     Some (format_X v @ rest) }"

fun grid_text :: "maze \<Rightarrow> int list \<Rightarrow> string option" where
  "grid_text maze [] = Some []"
| "grid_text maze (y # ys) = do {
     row0 \<leftarrow> py_get maze 0;
     row \<leftarrow> grid_row_text maze y (py_range 0 (int (length row0)));
     rest \<leftarrow> grid_text maze ys;
     Some (row @ [newline] @ rest) }"

definition direction_char :: "frame \<Rightarrow> frame \<Rightarrow> char" where
  "direction_char prev cur =
     (if fst cur > fst prev then CHR ''E''
      else if fst cur < fst prev then CHR ''W''
      else if fst (snd cur) > fst (snd prev) then CHR ''S''
      else if fst (snd cur) < fst (snd prev) then CHR ''N''
      else CHR ''-'')"

fun direction_line :: "frame list \<Rightarrow> string" where
  "direction_line (prev # cur # rest) = direction_char prev cur # direction_line (cur # rest)"
| "direction_line [prev] = []"
| "direction_line [] = []"

text \<open>
  \<open>write_to_file\<close>: the boolean it returns and the file it writes (name and content).
  \<open>None\<close>: an exception (the file is then left partly written).
\<close>

definition write_to_file ::
  "maze \<Rightarrow> CMazeParams \<Rightarrow> frame list \<Rightarrow> string \<Rightarrow> (bool \<times> (string \<times> string) option) option" where
  "write_to_file maze p path file_name =
     (let file_name1 = (if file_name = [] then output_file p else file_name) in
      if file_name1 = [] then Some (False, None)
      else do {
        grid \<leftarrow> grid_text maze (py_range 0 (int (length maze)));
        path1 \<leftarrow> (if path = [] then map_option fst (find_path_BFS maze p) else Some path);
        Some (True, Some (file_name1,
          grid @ [newline]
          @ str_int (fst (entry p)) @ '','' @ str_int (snd (entry p)) @ [newline]
          @ str_int (fst (exit p)) @ '','' @ str_int (snd (exit p)) @ [newline]
          @ direction_line path1 @ [newline])) })"


text \<open>Reading the direction line back: the last line of the file, replayed from a cell.\<close>

definition frame_xy :: "frame \<Rightarrow> coord" where
  "frame_xy f = (fst f, fst (snd f))"

definition delta :: "char \<Rightarrow> coord" where
  "delta d = (if d = CHR ''N'' then (0, - 1) else if d = CHR ''S'' then (0, 1)
              else if d = CHR ''E'' then (1, 0) else if d = CHR ''W'' then (- 1, 0) else (0, 0))"

fun replay :: "coord \<Rightarrow> string \<Rightarrow> coord list" where
  "replay c [] = [c]"
| "replay c (d # ds) = c # replay (fst c + fst (delta d), snd c + snd (delta d)) ds"

definition adjacent :: "coord \<Rightarrow> coord \<Rightarrow> bool" where
  "adjacent a b \<longleftrightarrow>
     (\<bar>fst a - fst b\<bar> = 1 \<and> snd a = snd b) \<or> (fst a = fst b \<and> \<bar>snd a - snd b\<bar> = 1)"

fun adjacent_path :: "coord list \<Rightarrow> bool" where
  "adjacent_path (a # b # rest) \<longleftrightarrow> adjacent a b \<and> adjacent_path (b # rest)"
| "adjacent_path [a] \<longleftrightarrow> True"
| "adjacent_path [] \<longleftrightarrow> True"

fun file_lines_from :: "string \<Rightarrow> string \<Rightarrow> string list" where
  "file_lines_from cur [] = (if cur = [] then [] else [cur])"
| "file_lines_from cur (c # cs) =
     (if c = newline then cur # file_lines_from [] cs else file_lines_from (cur @ [c]) cs)"

definition direction_of :: "string \<Rightarrow> string" where
  "direction_of content = last (file_lines_from [] content)"

lemma file_lines_from_line:
  "newline \<notin> set d \<Longrightarrow> file_lines_from cur (d @ [newline]) = [cur @ d]"
  by (induction d arbitrary: cur) auto

lemma file_lines_from_last:
  "newline \<notin> set d \<Longrightarrow>
   file_lines_from cur (pre @ newline # d @ [newline]) = file_lines_from cur (pre @ [newline]) @ [d]"
  by (induction pre arbitrary: cur) (auto simp add: file_lines_from_line)

lemma direction_of_content:
  "newline \<notin> set d \<Longrightarrow> direction_of (pre @ newline # d @ [newline]) = d"
  by (simp add: direction_of_def file_lines_from_last)

lemma direction_char_adjacent:
  assumes "adjacent (frame_xy a) (frame_xy b)"
  shows "direction_char a b \<in> {CHR ''N'', CHR ''S'', CHR ''E'', CHR ''W''}"
    and "(fst (frame_xy a) + fst (delta (direction_char a b)),
          snd (frame_xy a) + snd (delta (direction_char a b))) = frame_xy b"
  using assms by (auto simp add: adjacent_def frame_xy_def direction_char_def delta_def)

lemma direction_line_props:
  assumes "adjacent_path (map frame_xy path)" "path \<noteq> []"
  shows "length (direction_line path) = length path - 1
       \<and> set (direction_line path) \<subseteq> {CHR ''N'', CHR ''S'', CHR ''E'', CHR ''W''}
       \<and> replay (frame_xy (hd path)) (direction_line path) = map frame_xy path"
  using assms
proof (induction path rule: direction_line.induct)
  case (1 prev cur rest)
  then show ?case using direction_char_adjacent[of prev cur] by auto
next
  case (2 prev)
  then show ?case by simp
next
  case 3
  then show ?case by simp
qed

text \<open>
  Claim C7 (as amended).  For every non-empty supplied path that starts at the entry and
  whose consecutive coordinates are grid-adjacent, the direction line \<open>write_to_file\<close>
  writes has \<open>len(path) - 1\<close> characters, each of N, S, E, W, and replaying their deltas
  from the entry gives back the coordinates of the path.
\<close>

theorem write_to_file_roundtrip:
  assumes "write_to_file maze p path file_name = Some (True, Some (name, content))"
    and "path \<noteq> []" and "frame_xy (hd path) = entry p"
    and "adjacent_path (map frame_xy path)"
  shows "length (direction_of content) = length path - 1
       \<and> set (direction_of content) \<subseteq> {CHR ''N'', CHR ''S'', CHR ''E'', CHR ''W''}
       \<and> replay (entry p) (direction_of content) = map frame_xy path"
proof -
  from assms(1,2) obtain pre where "content = pre @ newline # direction_line path @ [newline]"
    by (auto simp add: write_to_file_def Let_def bind_eq_Some_conv split: if_splits)
  moreover have "newline \<notin> set (direction_line path)"
    using direction_line_props[OF assms(4,2)] by (auto simp add: newline_def)
  ultimately have "direction_of content = direction_line path"
    by (simp add: direction_of_content)
  with direction_line_props[OF assms(4,2)] assms(3) show ?thesis by simp
qed


theorem write_to_file_roundtrip_witness:
  "length (direction_of (''D3'' @ [newline] @ ''D6'' @ [newline] @ [newline] @ ''1,1'' @ [newline]
                         @ ''0,0'' @ [newline] @ ''NW'' @ [newline])) = 2
   \<and> replay (1, 1) (direction_of (''D3'' @ [newline] @ ''D6'' @ [newline] @ [newline] @ ''1,1''
                         @ [newline] @ ''0,0'' @ [newline] @ ''NW'' @ [newline]))
     = [(1, 1), (1, 0), (0, 0)]"
proof -
  have w: "write_to_file [[25, 19], [17, 22]] (mk_params 2 2 (1, 1) (0, 0))
             [(1, 1, 0), (1, 0, 0), (0, 0, 0)] ''maze.txt''
           = Some (True, Some (''maze.txt'', ''D3'' @ [newline] @ ''D6'' @ [newline] @ [newline]
                 @ ''1,1'' @ [newline] @ ''0,0'' @ [newline] @ ''NW'' @ [newline]))"
    by code_simp
  have e: "frame_xy (hd [(1, 1, 0), (1, 0, 0), (0, 0, 0)]) = entry (mk_params 2 2 (1, 1) (0, 0))"
    by (simp add: frame_xy_def mk_params_def)
  have a: "adjacent_path (map frame_xy [(1, 1, 0), (1, 0, 0), (0, 0, 0)])"
    by (simp add: frame_xy_def adjacent_def)
  from write_to_file_roundtrip[OF w _ e a] show ?thesis
    by (simp add: frame_xy_def mk_params_def)
qed

text \<open>
  The claim as stated does not ask the supplied path to start at the entry: the path
  \<open>(1, 0), (0, 0)\<close> is grid-adjacent, but replaying the line \<open>W\<close> from the entry
  \<open>(1, 1)\<close> gives \<open>(1, 1), (0, 1)\<close>.
\<close>

theorem write_to_file_replay_from_entry_counterexample:
  "adjacent_path (map frame_xy [(1, 0, 0), (0, 0, 0)])
   \<and> write_to_file [[25, 19], [17, 22]] (mk_params 2 2 (1, 1) (0, 0))
        [(1, 0, 0), (0, 0, 0)] ''maze.txt''
      = Some (True, Some (''maze.txt'', ''D3'' @ [newline] @ ''D6'' @ [newline] @ [newline]
                 @ ''1,1'' @ [newline] @ ''0,0'' @ [newline] @ ''W'' @ [newline]))
   \<and> replay (entry (mk_params 2 2 (1, 1) (0, 0)))
        (direction_of (''D3'' @ [newline] @ ''D6'' @ [newline] @ [newline]
                 @ ''1,1'' @ [newline] @ ''0,0'' @ [newline] @ ''W'' @ [newline]))
      \<noteq> map frame_xy [(1, 0, 0), (0, 0, 0)]"
  by code_simp

lemma bfs_loop_frame:
  "bfs_loop maze hgt wid start end' s = Some (path, maze') \<Longrightarrow> maze' = maze"
proof (induction maze hgt wid start end' s rule: bfs_loop.induct)
  case (1 maze hgt wid start end' s)
  from "1.prems" "1.IH" show ?case
    by (subst (asm) bfs_loop.simps)
       (auto split: prod.splits list.splits if_splits option.splits)
qed

text \<open>
  Claim C10.  \<open>find_path_BFS\<close> does not change the grid: when the call returns, every
  cell has the value it had before (the search keeps its visited set and its predecessor
  map outside the grid).
\<close>

theorem find_path_BFS_leaves_grid:
  assumes "find_path_BFS maze p = Some (path, maze')"
  shows "maze' = maze"
  using assms by (auto simp add: find_path_BFS_def bind_eq_Some_conv dest: bfs_loop_frame)

theorem find_path_BFS_leaves_grid_witness:
  "find_path_BFS [[25, 19], [17, 22]] (mk_params 2 2 (1, 1) (0, 0))
   = Some ([(1, 1, 0), (1, 0, 0), (0, 0, 0)], [[25, 19], [17, 22]])"
proof -
  have "find_path_BFS [[25, 19], [17, 22]] (mk_params 2 2 (1, 1) (0, 0))
        = Some ([(1, 1, 0), (1, 0, 0), (0, 0, 0)],
                snd (the (find_path_BFS [[25, 19], [17, 22]] (mk_params 2 2 (1, 1) (0, 0)))))"
    by code_simp
  with find_path_BFS_leaves_grid show ?thesis by metis
qed


section \<open>The graph of open connections\<close>

text \<open>
  The dimensions of a grid as the code reads them (\<open>len(maze[0])\<close>, \<open>len(maze)\<close>), the
  cells inside it, and the wall between two neighbouring cells: the top and the right
  wall of a cell are its bits 0 and 1, its bottom wall is the top wall of the cell below,
  its left wall the right wall of the cell to its left.
\<close>

definition maze_width :: "maze \<Rightarrow> int" where
  "maze_width maze = (case maze of [] \<Rightarrow> 0 | row0 # _ \<Rightarrow> int (length row0))"

definition maze_height :: "maze \<Rightarrow> int" where
  "maze_height maze = int (length maze)"

definition rectangular :: "maze \<Rightarrow> bool" where
  "rectangular maze = list_all (\<lambda>row. int (length row) = maze_width maze) maze"

definition in_grid :: "maze \<Rightarrow> coord \<Rightarrow> bool" where
  "in_grid maze a \<longleftrightarrow> 0 \<le> fst a \<and> fst a < maze_width maze \<and> 0 \<le> snd a \<and> snd a < maze_height maze"

definition cell_at :: "maze \<Rightarrow> coord \<Rightarrow> int" where
  "cell_at maze a = maze ! nat (snd a) ! nat (fst a)"

text \<open>
  The cell that stores the wall between \<open>a\<close> and a neighbour \<open>b\<close>, and the bit it is stored
  in; \<open>None\<close> when the two cells are not neighbours.
\<close>

definition wall_of :: "coord \<Rightarrow> coord \<Rightarrow> (coord \<times> nat) option" where
  "wall_of a b =
     (if b = (fst a, snd a - 1) then Some (a, 0)
      else if b = (fst a + 1, snd a) then Some (a, 1)
      else if b = (fst a, snd a + 1) then Some (b, 0)
      else if b = (fst a - 1, snd a) then Some (b, 1)
      else None)"

text \<open>Two cells of the grid are neighbours and no wall separates them.\<close>

definition open_between :: "maze \<Rightarrow> coord \<Rightarrow> coord \<Rightarrow> bool" where
  "open_between maze a b \<longleftrightarrow>
     in_grid maze a \<and> in_grid maze b \<and>
     (case wall_of a b of None \<Rightarrow> False | Some (c, k) \<Rightarrow> \<not> bit (cell_at maze c) k)"

text \<open>
  The cells, the open connections (each once, from a cell to its right or lower
  neighbour), and the perfect maze: every cell is linked to every other by open
  connections, and there is one connection less than there are cells (a spanning tree).
\<close>

definition all_cells :: "maze \<Rightarrow> coord list" where
  "all_cells maze = List.product [0 .. maze_width maze - 1] [0 .. maze_height maze - 1]"

definition open_edges :: "maze \<Rightarrow> (coord \<times> coord) list" where
  "open_edges maze =
     concat (map (\<lambda>a. filter (\<lambda>e. open_between maze (fst e) (snd e))
                        [(a, (fst a + 1, snd a)), (a, (fst a, snd a + 1))]) (all_cells maze))"

definition connected_maze :: "maze \<Rightarrow> bool" where
  "connected_maze maze \<longleftrightarrow>
     (\<forall>a \<in> set (all_cells maze). \<forall>b \<in> set (all_cells maze).
        (a, b) \<in> {(a, b). open_between maze a b}\<^sup>*)"

definition perfect_maze :: "maze \<Rightarrow> bool" where
  "perfect_maze maze \<longleftrightarrow>
     connected_maze maze \<and> length (open_edges maze) + 1 = length (all_cells maze)"


subsection \<open>Cells of a rectangular grid\<close>

lemma map_length_mupd: "map length (mupd m k v) = map length m"
  by (cases k) (auto simp add: mupd_def list_eq_iff_nth_eq nth_list_update_gen)

lemma maze_width_length: "maze_width m = (case map length m of [] \<Rightarrow> 0 | n # _ \<Rightarrow> int n)"
  by (cases m) (auto simp add: maze_width_def)

lemma maze_width_mupd [simp]: "maze_width (mupd m k v) = maze_width m"
  by (simp add: maze_width_length map_length_mupd)

lemma maze_height_mupd [simp]: "maze_height (mupd m k v) = maze_height m"
  using arg_cong[OF map_length_mupd[of m k v], of length] by (simp add: maze_height_def)

lemma rectangular_length: "rectangular m \<longleftrightarrow> list_all (\<lambda>n. int n = maze_width m) (map length m)"
  by (simp add: rectangular_def list_all_iff)

lemma rectangular_mupd [simp]: "rectangular (mupd m k v) = rectangular m"
  by (simp add: rectangular_length map_length_mupd)

lemma in_grid_mupd [simp]: "in_grid (mupd m k v) a = in_grid m a"
  by (simp add: in_grid_def)

lemma midx_in_grid:
  assumes "rectangular m" "in_grid m (x, y)"
  shows "midx m x y = Some (nat y, nat x)"
proof -
  from assms(2) have y: "0 \<le> y" "y < int (length m)" and x: "0 \<le> x" "x < maze_width m"
    by (auto simp add: in_grid_def maze_height_def)
  then have "m ! nat y \<in> set m" by simp
  with assms(1) have "int (length (m ! nat y)) = maze_width m"
    by (simp add: rectangular_def list_all_iff)
  with x y show ?thesis by (simp add: midx_def py_index_def)
qed

lemma mget_in_grid: "rectangular m \<Longrightarrow> in_grid m (x, y) \<Longrightarrow> mget m x y = Some (cell_at m (x, y))"
  by (simp add: mget_midx midx_in_grid mnth_def cell_at_def)

lemma mset_in_grid:
  "rectangular m \<Longrightarrow> in_grid m (x, y) \<Longrightarrow> mset m x y v = Some (mupd m (nat y, nat x) v)"
  by (simp add: mset_midx midx_in_grid)

lemma cell_at_mupd:
  assumes "rectangular m" "in_grid m a" "in_grid m b"
  shows "cell_at (mupd m (nat (snd a), nat (fst a)) v) b = (if b = a then v else cell_at m b)"
proof -
  have "mvalid m (nat (snd a), nat (fst a))"
    using midx_valid[OF midx_in_grid[OF assms(1), of "fst a" "snd a"]] assms(2) by simp
  moreover have "(nat (snd b), nat (fst b)) = (nat (snd a), nat (fst a)) \<longleftrightarrow> b = a"
    using assms(2,3) by (auto simp add: in_grid_def prod_eq_iff)
  ultimately show ?thesis
    using mnth_mupd[of m "(nat (snd a), nat (fst a))" v "(nat (snd b), nat (fst b))"]
    by (simp add: cell_at_def mnth_def)
qed

lemma take_bit_5: "take_bit 5 (d::int) = 16 * of_bool (bit d 4) + 8 * of_bool (bit d 3) + 4 * of_bool (bit d 2) + 2 * of_bool (bit d 1) + of_bool (bit d 0)"
proof -
  have "take_bit 5 d = take_bit (Suc (Suc (Suc (Suc (Suc 0))))) d" by (simp add: eval_nat_numeral)
  also have "\<dots> = 16 * of_bool (bit d 4) + 8 * of_bool (bit d 3) + 4 * of_bool (bit d 2) + 2 * of_bool (bit d 1) + of_bool (bit d 0)"
    unfolding take_bit_Suc_from_most by (simp add: eval_nat_numeral bit_0 mod_2_eq_odd)
  finally show ?thesis .
qed

lemma and_28: "(c::int) AND 28 = 16 * of_bool (bit c 4) + 8 * of_bool (bit c 3) + 4 * of_bool (bit c 2)"
proof -
  have "take_bit 5 (c AND 28) = c AND 28"
    by (rule take_bit_int_eq_self) simp_all
  then show ?thesis using take_bit_5[of "c AND 28"] by (simp add: bit_and_iff)
qed

lemma carvable_iff: "carvable c \<longleftrightarrow> \<not> bit c 4 \<and> \<not> (bit c 2 \<and> bit c 3)"
  by (auto simp add: carvable_def and_28)

lemma and_12: "(c::int) AND 12 = 8 * of_bool (bit c 3) + 4 * of_bool (bit c 2)"
proof -
  have "take_bit 5 (c AND 12) = c AND 12"
    by (rule take_bit_int_eq_self) simp_all
  then show ?thesis using take_bit_5[of "c AND 12"] by (simp add: bit_and_iff)
qed

lemma and_3: "(c::int) AND 3 = 2 * of_bool (bit c 1) + of_bool (bit c 0)"
proof -
  have "take_bit 5 (c AND 3) = c AND 3"
    by (rule take_bit_int_eq_self) simp_all
  then show ?thesis using take_bit_5[of "c AND 3"] by (simp add: bit_and_iff)
qed

lemma pattern_iff: "c AND 0xc = 0xc \<longleftrightarrow> bit c 2 \<and> bit c 3" for c :: int
  by (auto simp add: and_12)

lemma marker_iff: "c AND 0xc \<noteq> 0 \<longleftrightarrow> bit c 2 \<or> bit c 3" for c :: int
  by (auto simp add: and_12)


subsection \<open>One carving step\<close>

text \<open>
  For a chosen wall \<open>w\<close> of 1, 2, 4, 8: the neighbour the step moves to, the cell whose wall
  bit is cleared, that bit, the mask that clears it, and the bit of \<open>q\<close> for the direction.
\<close>

definition dir_nb :: "int \<Rightarrow> coord \<Rightarrow> coord" where
  "dir_nb w a =
     (if w = 1 then (fst a, snd a - 1) else if w = 2 then (fst a + 1, snd a)
      else if w = 4 then (fst a, snd a + 1) else (fst a - 1, snd a))"

definition dir_owner :: "int \<Rightarrow> coord \<Rightarrow> coord" where
  "dir_owner w a = (if w = 1 \<or> w = 2 then a else dir_nb w a)"

definition dir_bit :: "int \<Rightarrow> nat" where
  "dir_bit w = (if w = 1 \<or> w = 4 then 0 else 1)"

definition dir_mask :: "int \<Rightarrow> int" where
  "dir_mask w = (if w = 1 \<or> w = 4 then 0xfffe else 0xfffd)"

definition dir_idx :: "int \<Rightarrow> nat" where
  "dir_idx w = (if w = 1 then 0 else if w = 2 then 1 else if w = 4 then 2 else 3)"

definition put :: "maze \<Rightarrow> coord \<Rightarrow> int \<Rightarrow> maze" where
  "put m a v = mupd m (nat (snd a), nat (fst a)) v"

definition carved :: "maze \<Rightarrow> int \<Rightarrow> coord \<Rightarrow> maze" where
  "carved m w a =
     (let m1 = put m (dir_owner w a) (cell_at m (dir_owner w a) AND dir_mask w)
      in put m1 (dir_nb w a) (cell_at m1 (dir_nb w a) OR 0x10))"

lemma put_shape [simp]:
  "rectangular (put m a v) = rectangular m" "maze_width (put m a v) = maze_width m"
  "maze_height (put m a v) = maze_height m" "in_grid (put m a v) b = in_grid m b"
  by (simp_all add: put_def)

lemma cell_at_put:
  "rectangular m \<Longrightarrow> in_grid m a \<Longrightarrow> in_grid m b \<Longrightarrow>
   cell_at (put m a v) b = (if b = a then v else cell_at m b)"
  by (simp add: put_def cell_at_mupd)

lemma mget_grid: "rectangular m \<Longrightarrow> in_grid m a \<Longrightarrow> mget m (fst a) (snd a) = Some (cell_at m a)"
  using mget_in_grid[of m "fst a" "snd a"] by simp

lemma mset_grid: "rectangular m \<Longrightarrow> in_grid m a \<Longrightarrow> mset m (fst a) (snd a) v = Some (put m a v)"
  using mset_in_grid[of m "fst a" "snd a"] by (simp add: put_def)

lemma gen_DFS_carve_dir:
  assumes "w \<in> {1, 2, 4, 8}"
  shows "gen_DFS_carve m x y q rest w = do {
     c \<leftarrow> mget m (fst (dir_owner w (x, y))) (snd (dir_owner w (x, y)));
     m1 \<leftarrow> mset m (fst (dir_owner w (x, y))) (snd (dir_owner w (x, y))) (c AND dir_mask w);
     d \<leftarrow> mget m1 (fst (dir_nb w (x, y))) (snd (dir_nb w (x, y)));
     m2 \<leftarrow> mset m1 (fst (dir_nb w (x, y))) (snd (dir_nb w (x, y))) (d OR 0x10);
     Some (m2, (fst (dir_nb w (x, y)), snd (dir_nb w (x, y)), 0xf) # (x, y, q AND (15 - w)) # rest) }"
  using assms by (auto simp add: gen_DFS_carve_def dir_owner_def dir_nb_def dir_mask_def)

lemma dir_owner_in_grid:
  "in_grid m a \<Longrightarrow> in_grid m (dir_nb w a) \<Longrightarrow> in_grid m (dir_owner w a)"
  by (simp add: dir_owner_def)

lemma gen_DFS_carve_grid:
  assumes "rectangular m" "w \<in> {1, 2, 4, 8}" "in_grid m (x, y)" "in_grid m (dir_nb w (x, y))"
  shows "gen_DFS_carve m x y q rest w =
     Some (carved m w (x, y),
           (fst (dir_nb w (x, y)), snd (dir_nb w (x, y)), 0xf) # (x, y, q AND (15 - w)) # rest)"
proof -
  have o: "in_grid m (dir_owner w (x, y))" using assms(3,4) by (rule dir_owner_in_grid)
  show ?thesis
    unfolding gen_DFS_carve_dir[OF assms(2)]
    by (simp add: mget_grid mset_grid assms o carved_def Let_def)
qed

lemma cell_at_carved:
  assumes "rectangular m" "in_grid m a" "in_grid m (dir_nb w a)" "in_grid m b"
  shows "cell_at (carved m w a) b =
     (let c = (if b = dir_owner w a then cell_at m b AND dir_mask w else cell_at m b)
      in if b = dir_nb w a then c OR 0x10 else c)"
proof -
  have o: "in_grid m (dir_owner w a)" using assms(2,3) by (rule dir_owner_in_grid)
  show ?thesis using assms o by (simp add: carved_def Let_def cell_at_put)
qed

lemma carved_shape [simp]:
  "rectangular (carved m w a) = rectangular m" "maze_width (carved m w a) = maze_width m"
  "maze_height (carved m w a) = maze_height m" "in_grid (carved m w a) b = in_grid m b"
  by (simp_all add: carved_def Let_def)

lemma bit_carved:
  assumes "rectangular m" "in_grid m a" "in_grid m (dir_nb w a)" "in_grid m b"
  shows "bit (cell_at (carved m w a) b) 4 \<longleftrightarrow> bit (cell_at m b) 4 \<or> b = dir_nb w a"
    and "bit (cell_at (carved m w a) b) 0 \<longleftrightarrow> bit (cell_at m b) 0 \<and> (b, 0) \<noteq> (dir_owner w a, dir_bit w)"
    and "bit (cell_at (carved m w a) b) 1 \<longleftrightarrow> bit (cell_at m b) 1 \<and> (b, 1) \<noteq> (dir_owner w a, dir_bit w)"
    and "bit (cell_at (carved m w a) b) 2 \<longleftrightarrow> bit (cell_at m b) 2"
    and "bit (cell_at (carved m w a) b) 3 \<longleftrightarrow> bit (cell_at m b) 3"
  unfolding cell_at_carved[OF assms]
  by (auto simp add: Let_def bit_or_iff bit_and_iff dir_mask_def dir_bit_def)


lemma wall_of_dir:
  "w \<in> {1, 2, 4, 8} \<Longrightarrow> wall_of a (dir_nb w a) = Some (dir_owner w a, dir_bit w)"
  by (auto simp add: wall_of_def dir_nb_def dir_owner_def dir_bit_def prod_eq_iff)

lemma wall_of_sym: "wall_of a b = wall_of b a"
  by (auto simp add: wall_of_def prod_eq_iff)

lemma wall_of_bit: "wall_of a b = Some (c, k) \<Longrightarrow> (k = 0 \<or> k = 1) \<and> (c = a \<or> c = b)"
  by (auto simp add: wall_of_def split: if_splits)

lemma wall_of_inj:
  "wall_of a b = Some ck \<Longrightarrow> wall_of c d = Some ck \<Longrightarrow> (c, d) = (a, b) \<or> (c, d) = (b, a)"
  by (auto simp add: wall_of_def prod_eq_iff split: if_splits)

lemma wall_of_nb: "wall_of a b = Some ck \<Longrightarrow> \<exists>w \<in> {1, 2, 4, 8}. b = dir_nb w a"
  by (auto simp add: wall_of_def dir_nb_def split: if_splits)

lemma open_between_sym: "open_between m a b = open_between m b a"
  by (auto simp add: open_between_def wall_of_sym[of a b])

lemma open_between_carved:
  assumes "rectangular m" "in_grid m a" "in_grid m (dir_nb w a)" "w \<in> {1, 2, 4, 8}"
  shows "open_between (carved m w a) c d \<longleftrightarrow>
     open_between m c d \<or> (c, d) = (a, dir_nb w a) \<or> (c, d) = (dir_nb w a, a)"
proof (cases "in_grid m c \<and> in_grid m d")
  case False
  then show ?thesis using assms(2,3) by (auto simp add: open_between_def)
next
  case True
  show ?thesis
  proof (cases "wall_of c d")
    case None
    moreover have "wall_of a (dir_nb w a) \<noteq> None" "wall_of (dir_nb w a) a \<noteq> None"
      using wall_of_dir[OF assms(4), of a] wall_of_sym[of a "dir_nb w a"] by simp_all
    ultimately show ?thesis by (auto simp add: open_between_def)
  next
    case (Some ck)
    obtain o' k where ck: "ck = (o', k)" by (cases ck)
    from wall_of_bit[OF Some[unfolded ck]] have k: "k = 0 \<or> k = 1" and o': "o' = c \<or> o' = d"
      by simp_all
    from o' True have g: "in_grid m o'" by auto
    have eq: "(o', k) = (dir_owner w a, dir_bit w) \<longleftrightarrow> (c, d) = (a, dir_nb w a) \<or> (c, d) = (dir_nb w a, a)"
      using wall_of_inj[OF wall_of_dir[OF assms(4), of a], of c d] Some ck
        wall_of_dir[OF assms(4), of a] wall_of_sym[of a "dir_nb w a"]
      by auto
    from k show ?thesis
      using True Some ck eq bit_carved(2,3)[OF assms(1,2,3) g]
      by (auto simp add: open_between_def)
  qed
qed

definition vis :: "maze \<Rightarrow> coord set" where
  "vis m = {a. in_grid m a \<and> bit (cell_at m a) 4}"

definition adj :: "maze \<Rightarrow> (coord \<times> coord) set" where
  "adj m = {(a, b). open_between m a b}"

definition edge_set :: "maze \<Rightarrow> (coord \<times> coord) set" where
  "edge_set m = {(a, b). (b = (fst a + 1, snd a) \<or> b = (fst a, snd a + 1)) \<and> open_between m a b}"

lemma vis_carved:
  assumes "rectangular m" "in_grid m a" "in_grid m (dir_nb w a)"
  shows "vis (carved m w a) = insert (dir_nb w a) (vis m)"
proof -
  have "b \<in> vis (carved m w a) \<longleftrightarrow> b \<in> insert (dir_nb w a) (vis m)" for b
  proof (cases "in_grid m b")
    case True
    from bit_carved(1)[OF assms True] True show ?thesis by (auto simp add: vis_def)
  next
    case False
    then show ?thesis using assms(3) by (auto simp add: vis_def)
  qed
  then show ?thesis by blast
qed

lemma adj_carved:
  assumes "rectangular m" "in_grid m a" "in_grid m (dir_nb w a)" "w \<in> {1, 2, 4, 8}"
  shows "adj (carved m w a) = adj m \<union> {(a, dir_nb w a), (dir_nb w a, a)}"
  using open_between_carved[OF assms] by (auto simp add: adj_def)

definition dir_edge :: "int \<Rightarrow> coord \<Rightarrow> coord \<times> coord" where
  "dir_edge w a = (if w = 2 \<or> w = 4 then (a, dir_nb w a) else (dir_nb w a, a))"

lemma edge_set_carved:
  assumes "rectangular m" "in_grid m a" "in_grid m (dir_nb w a)" "w \<in> {1, 2, 4, 8}"
  shows "edge_set (carved m w a) = insert (dir_edge w a) (edge_set m)"
  using assms(4) unfolding edge_set_def open_between_carved[OF assms]
  by (auto simp add: dir_edge_def dir_nb_def prod_eq_iff)

lemma finite_grid: "finite {a. in_grid m a}"
proof -
  have "{a. in_grid m a} \<subseteq> {0 ..< maze_width m} \<times> {0 ..< maze_height m}"
    by (auto simp add: in_grid_def)
  then show ?thesis by (rule finite_subset) simp
qed

lemma finite_vis: "finite (vis m)"
  by (rule finite_subset[OF _ finite_grid[of m]]) (auto simp add: vis_def)

lemma finite_edge_set: "finite (edge_set m)"
proof -
  have "edge_set m \<subseteq> {a. in_grid m a} \<times> {a. in_grid m a}"
    by (auto simp add: edge_set_def open_between_def)
  then show ?thesis by (rule finite_subset) (simp add: finite_grid)
qed


subsection \<open>The invariant of the carving loop\<close>

text \<open>
  The visited cells are linked to the start by open connections, there is one connection
  less than there are visited cells, every connection joins visited cells, a direction
  cleared in a frame leads to a visited cell or out of the grid, and a visited cell that
  has left the stack has only visited neighbours.
\<close>

definition closed_at :: "maze \<Rightarrow> coord \<Rightarrow> bool" where
  "closed_at m a \<longleftrightarrow> (\<forall>w \<in> {1, 2, 4, 8}. in_grid m (dir_nb w a) \<longrightarrow> dir_nb w a \<in> vis m)"

definition frame_ok :: "maze \<Rightarrow> frame \<Rightarrow> bool" where
  "frame_ok m f \<longleftrightarrow>
     (case f of (x, y, q) \<Rightarrow>
        (x, y) \<in> vis m \<and> (\<forall>n. bit q n \<longrightarrow> n < 4) \<and>
        (\<forall>w \<in> {1, 2, 4, 8}. \<not> bit q (dir_idx w) \<longrightarrow> in_grid m (dir_nb w (x, y))
           \<longrightarrow> dir_nb w (x, y) \<in> vis m))"

definition carve_inv :: "CMazeParams \<Rightarrow> coord \<Rightarrow> maze \<Rightarrow> frame list \<Rightarrow> bool" where
  "carve_inv p s m st \<longleftrightarrow>
     rectangular m \<and> maze_width m = width p \<and> maze_height m = height p \<and> s \<in> vis m
     \<and> (\<forall>a. in_grid m a \<longrightarrow> \<not> (bit (cell_at m a) 2 \<and> bit (cell_at m a) 3))
     \<and> adj m \<subseteq> vis m \<times> vis m
     \<and> (\<forall>a \<in> vis m. (s, a) \<in> (adj m)\<^sup>*)
     \<and> card (edge_set m) + 1 = card (vis m)
     \<and> (\<forall>f \<in> set st. frame_ok m f)
     \<and> (\<forall>a \<in> vis m. a \<notin> frame_xy ` set st \<longrightarrow> closed_at m a)"

lemma in_grid_dir:
  assumes "in_grid m (x, y)" "maze_width m = width p" "maze_height m = height p"
  shows "in_grid m (dir_nb 1 (x, y)) \<longleftrightarrow> y \<noteq> 0"
    and "in_grid m (dir_nb 2 (x, y)) \<longleftrightarrow> x \<noteq> width p - 1"
    and "in_grid m (dir_nb 4 (x, y)) \<longleftrightarrow> y \<noteq> height p - 1"
    and "in_grid m (dir_nb 8 (x, y)) \<longleftrightarrow> x \<noteq> 0"
  using assms by (auto simp add: in_grid_def dir_nb_def)

lemma dir_nb_simps:
  "dir_nb 1 (x, y) = (x, y - 1)" "dir_nb 2 (x, y) = (x + 1, y)"
  "dir_nb 4 (x, y) = (x, y + 1)" "dir_nb 8 (x, y) = (x - 1, y)"
  by (simp_all add: dir_nb_def)

lemma passable_grid:
  assumes "rectangular m" "in_grid m (x, y)" "maze_width m = width p" "maze_height m = height p"
    and "w \<in> {1, 2, 4, 8}"
  shows "passable m p x y (dir_idx w) \<longleftrightarrow>
     in_grid m (dir_nb w (x, y)) \<and> carvable (cell_at m (dir_nb w (x, y)))"
proof -
  note g = in_grid_dir[OF assms(2,3,4)]
  have c: "in_grid m (a, b) \<Longrightarrow> mget m a b = Some (cell_at m (a, b))" for a b
    using mget_in_grid[OF assms(1)] by simp
  from assms(5) consider "w = 1" | "w = 2" | "w = 4" | "w = 8" by auto
  then show ?thesis
  proof cases
    case 1 then show ?thesis using g(1) c[of x "y - 1"] by (auto simp add: passable_def dir_idx_def dir_nb_simps)
  next
    case 2 then show ?thesis using g(2) c[of "x + 1" y] by (auto simp add: passable_def dir_idx_def dir_nb_simps)
  next
    case 3 then show ?thesis using g(3) c[of x "y + 1"] by (auto simp add: passable_def dir_idx_def dir_nb_simps)
  next
    case 4 then show ?thesis using g(4) c[of "x - 1" y] by (auto simp add: passable_def dir_idx_def dir_nb_simps)
  qed
qed

lemma blocked_grid:
  assumes "rectangular m" "in_grid m (x, y)" "maze_width m = width p" "maze_height m = height p"
    and "w \<in> {1, 2, 4, 8}"
  shows "blocked m p x y (dir_idx w) \<longleftrightarrow>
     \<not> in_grid m (dir_nb w (x, y)) \<or> \<not> carvable (cell_at m (dir_nb w (x, y)))"
proof -
  note g = in_grid_dir[OF assms(2,3,4)]
  have c: "in_grid m (a, b) \<Longrightarrow> mget m a b = Some (cell_at m (a, b))" for a b
    using mget_in_grid[OF assms(1)] by simp
  from assms(5) consider "w = 1" | "w = 2" | "w = 4" | "w = 8" by auto
  then show ?thesis
  proof cases
    case 1 then show ?thesis using g(1) c[of x "y - 1"] by (auto simp add: blocked_def dir_idx_def dir_nb_simps)
  next
    case 2 then show ?thesis using g(2) c[of "x + 1" y] by (auto simp add: blocked_def dir_idx_def dir_nb_simps)
  next
    case 3 then show ?thesis using g(3) c[of x "y + 1"] by (auto simp add: blocked_def dir_idx_def dir_nb_simps)
  next
    case 4 then show ?thesis using g(4) c[of "x - 1" y] by (auto simp add: blocked_def dir_idx_def dir_nb_simps)
  qed
qed

lemma walls_stage_some:
  assumes "\<not> edge \<Longrightarrow> \<exists>c. cell = Some c"
  shows "\<exists>q'. (if cond then
              (if edge then Some (q AND m)
               else do { c \<leftarrow> cell; Some (if c AND 0x1c \<ge> 0xc then q AND m else q) })
            else Some (q::int)) = Some q'"
  using assms by auto

lemma gen_DFS_walls_grid:
  assumes "rectangular m" "in_grid m (x, y)" "maze_width m = width p" "maze_height m = height p"
  shows "\<exists>q. gen_DFS_walls m p x y q0 = Some q"
proof -
  note g = in_grid_dir[OF assms(2,3,4), unfolded dir_nb_simps]
  have c: "in_grid m (a, b) \<Longrightarrow> \<exists>c. mget m a b = Some c" for a b
    using mget_in_grid[OF assms(1)] by simp
  from walls_stage_some[of "y = 0" "mget m x (y - 1)"] g(1) c obtain q1 where
    s1: "(if q0 AND 1 \<noteq> 0 then
              (if y = 0 then Some (q0 AND 14)
               else do { c \<leftarrow> mget m x (y - 1);
                         Some (if c AND 0x1c \<ge> 0xc then q0 AND 14 else q0) })
            else Some q0) = Some q1" by blast
  from walls_stage_some[of "x = width p - 1" "mget m (x + 1) y"] g(2) c obtain q2 where
    s2: "(if q1 AND 2 \<noteq> 0 then
              (if x = width p - 1 then Some (q1 AND 13)
               else do { c \<leftarrow> mget m (x + 1) y;
                         Some (if c AND 0x1c \<ge> 0xc then q1 AND 13 else q1) })
            else Some q1) = Some q2" by blast
  from walls_stage_some[of "y = height p - 1" "mget m x (y + 1)"] g(3) c obtain q3 where
    s3: "(if q2 AND 4 \<noteq> 0 then
              (if y = height p - 1 then Some (q2 AND 11)
               else do { c \<leftarrow> mget m x (y + 1);
                         Some (if c AND 0x1c \<ge> 0xc then q2 AND 11 else q2) })
            else Some q2) = Some q3" by blast
  from walls_stage_some[of "x = 0" "mget m (x - 1) y"] g(4) c obtain q4 where
    s4: "(if q3 AND 8 \<noteq> 0 then
        (if x = 0 then Some (q3 AND 7)
         else do { c \<leftarrow> mget m (x - 1) y;
                   Some (if c AND 0x1c \<ge> 0xc then q3 AND 7 else q3) })
      else Some q3) = Some q4" by blast
  show ?thesis unfolding gen_DFS_walls_def s1 bind.bind_lunit s2 s3 s4 by blast
qed


lemma wall_list_dir: "w \<in> set (wall_list q) \<longleftrightarrow> w \<in> {1, 2, 4, 8} \<and> bit q (dir_idx w)"
  by (auto simp add: wall_list_set dir_idx_def)

lemma bit_15: "bit (15::int) n \<longleftrightarrow> n < 4"
proof -
  have e: "(15::int) = mask 4" by (simp add: mask_eq_exp_minus_1)
  show ?thesis unfolding e by (simp only: bit_mask_iff possible_bit_int simp_thms)
qed

lemma bit_clear_dir:
  assumes "w \<in> {1, 2, 4, 8}" "w' \<in> {1, 2, 4, 8}"
  shows "bit (q AND (15 - w)) (dir_idx w') \<longleftrightarrow> bit q (dir_idx w') \<and> w' \<noteq> w"
  using assms by (auto simp add: bit_and_iff dir_idx_def)

lemma nonzero_dir:
  assumes "q \<noteq> (0::int)" "\<forall>n. bit q n \<longrightarrow> n < 4"
  shows "\<exists>w \<in> {1, 2, 4, 8}. bit q (dir_idx w)"
proof -
  from assms(1) obtain n where n: "bit q n" by (auto simp add: bit_eq_iff)
  with assms(2) have "n < 4" by simp
  then have "n = 0 \<or> n = 1 \<or> n = 2 \<or> n = 3" by arith
  with n show ?thesis by (auto simp add: dir_idx_def)
qed

lemma dir_idx_less: "dir_idx w < 4"
  by (simp add: dir_idx_def)

lemma carve_inv_pop:
  assumes inv: "carve_inv p s m ((x, y, q0) # rest)"
    and q: "gen_DFS_walls m p x y q0 = Some 0"
  shows "carve_inv p s m rest"
proof -
  from inv have r: "rectangular m" and wd: "maze_width m = width p" and ht: "maze_height m = height p"
    and np: "\<And>a. in_grid m a \<Longrightarrow> \<not> (bit (cell_at m a) 2 \<and> bit (cell_at m a) 3)"
    and f: "frame_ok m (x, y, q0)"
    and cl: "\<And>a. a \<in> vis m \<Longrightarrow> a \<notin> frame_xy ` set ((x, y, q0) # rest) \<Longrightarrow> closed_at m a"
    by (auto simp add: carve_inv_def)
  from f have g: "in_grid m (x, y)" by (simp add: frame_ok_def vis_def)
  have "closed_at m (x, y)"
    unfolding closed_at_def
  proof (intro ballI impI)
    fix w :: int assume w: "w \<in> {1, 2, 4, 8}" and n: "in_grid m (dir_nb w (x, y))"
    show "dir_nb w (x, y) \<in> vis m"
    proof (cases "bit q0 (dir_idx w)")
      case False
      with f w n show ?thesis by (auto simp add: frame_ok_def)
    next
      case True
      from gen_DFS_walls_sound(3)[OF q dir_idx_less True] have "blocked m p x y (dir_idx w)" by simp
      with blocked_grid[OF r g wd ht w] n have "\<not> carvable (cell_at m (dir_nb w (x, y)))" by simp
      with np[OF n] have "bit (cell_at m (dir_nb w (x, y))) 4" by (auto simp add: carvable_iff)
      with n show ?thesis by (simp add: vis_def)
    qed
  qed
  with cl have "\<And>a. a \<in> vis m \<Longrightarrow> a \<notin> frame_xy ` set rest \<Longrightarrow> closed_at m a"
    by (auto simp add: frame_xy_def)
  with inv show ?thesis by (auto simp add: carve_inv_def)
qed

lemma frame_ok_carved:
  assumes "rectangular m" "in_grid m a" "in_grid m (dir_nb w a)" "frame_ok m f"
  shows "frame_ok (carved m w a) f"
  using assms(4) unfolding frame_ok_def vis_carved[OF assms(1,2,3)] by (auto split: prod.splits)

lemma closed_at_carved:
  assumes "rectangular m" "in_grid m a" "in_grid m (dir_nb w a)" "closed_at m b"
  shows "closed_at (carved m w a) b"
  using assms(4) unfolding closed_at_def vis_carved[OF assms(1,2,3)] by auto

lemma carve_inv_push:
  assumes inv: "carve_inv p s m ((x, y, q0) # rest)"
    and q: "gen_DFS_walls m p x y q0 = Some q"
    and w: "w \<in> {1, 2, 4, 8}" "bit q (dir_idx w)"
  shows "in_grid m (dir_nb w (x, y))"
    and "carve_inv p s (carved m w (x, y))
          ((fst (dir_nb w (x, y)), snd (dir_nb w (x, y)), 0xf) # (x, y, q AND (15 - w)) # rest)"
proof -
  let ?a = "(x, y)" and ?nb = "dir_nb w (x, y)" and ?m' = "carved m w (x, y)"
  from inv have r: "rectangular m" and wd: "maze_width m = width p" and ht: "maze_height m = height p"
    and sv: "s \<in> vis m"
    and np: "\<And>a. in_grid m a \<Longrightarrow> \<not> (bit (cell_at m a) 2 \<and> bit (cell_at m a) 3)"
    and ad: "adj m \<subseteq> vis m \<times> vis m"
    and re: "\<And>a. a \<in> vis m \<Longrightarrow> (s, a) \<in> (adj m)\<^sup>*"
    and cd: "card (edge_set m) + 1 = card (vis m)"
    and f: "frame_ok m (x, y, q0)" and fr: "\<And>f. f \<in> set rest \<Longrightarrow> frame_ok m f"
    and cl: "\<And>a. a \<in> vis m \<Longrightarrow> a \<notin> frame_xy ` set ((x, y, q0) # rest) \<Longrightarrow> closed_at m a"
    by (auto simp add: carve_inv_def)
  from f have av: "?a \<in> vis m" and g: "in_grid m ?a" by (simp_all add: frame_ok_def vis_def)
  from gen_DFS_walls_sound(2)[OF q dir_idx_less w(2)] passable_grid[OF r g wd ht w(1)]
  have n: "in_grid m ?nb" and cv: "carvable (cell_at m ?nb)" by simp_all
  show "in_grid m ?nb" by (rule n)
  from cv have nv: "?nb \<notin> vis m" by (simp add: vis_def carvable_iff)
  note V = vis_carved[OF r g n] and A = adj_carved[OF r g n w(1)] and E = edge_set_carved[OF r g n w(1)]
  have e_new: "dir_edge w ?a \<notin> edge_set m"
  proof
    assume "dir_edge w ?a \<in> edge_set m"
    then have "open_between m ?a ?nb"
      using open_between_sym[of m ?a ?nb] by (auto simp add: edge_set_def dir_edge_def split: if_splits)
    with ad have "?nb \<in> vis m" by (auto simp add: adj_def)
    with nv show False by simp
  qed
  have c': "card (edge_set ?m') + 1 = card (vis ?m')"
    unfolding E V using e_new nv cd finite_edge_set[of m] finite_vis[of m] by simp
  have a': "adj ?m' \<subseteq> vis ?m' \<times> vis ?m'"
    unfolding A V using ad av by auto
  have r': "(s, b) \<in> (adj ?m')\<^sup>*" if "b \<in> vis ?m'" for b
  proof (cases "b = ?nb")
    case True
    have "(s, ?a) \<in> (adj ?m')\<^sup>*" using re[OF av] rtrancl_mono[of "adj m" "adj ?m'"] A by blast
    moreover have "(?a, ?nb) \<in> adj ?m'" unfolding A by simp
    ultimately show ?thesis using True by (simp add: rtrancl_into_rtrancl)
  next
    case False
    with that have "b \<in> vis m" unfolding V by simp
    from re[OF this] show ?thesis using rtrancl_mono[of "adj m" "adj ?m'"] A by blast
  qed
  have np': "\<not> (bit (cell_at ?m' b) 2 \<and> bit (cell_at ?m' b) 3)" if "in_grid ?m' b" for b
    using that np[of b] bit_carved(4,5)[OF r g n, of b] by simp
  have f_new: "frame_ok ?m' (fst ?nb, snd ?nb, 0xf)"
    using w(1) by (auto simp add: frame_ok_def V bit_15 dir_idx_less)
  have f_cur: "frame_ok ?m' (x, y, q AND (15 - w))"
    unfolding frame_ok_def prod.case
  proof (intro conjI ballI impI allI)
    show "(x, y) \<in> vis ?m'" using av unfolding V by simp
    show "n < 4" if "bit (q AND (15 - w)) n" for n
      using that gen_DFS_walls_sound(1)[OF q, of n] f by (auto simp add: bit_and_iff frame_ok_def)
    fix w' :: int
    assume w': "w' \<in> {1, 2, 4, 8}" and nb: "\<not> bit (q AND (15 - w)) (dir_idx w')"
      and ig: "in_grid ?m' (dir_nb w' (x, y))"
    from ig have ig0: "in_grid m (dir_nb w' (x, y))" by simp
    show "dir_nb w' (x, y) \<in> vis ?m'"
    proof (cases "w' = w")
      case True
      then show ?thesis unfolding V by simp
    next
      case False
      with nb bit_clear_dir[OF w(1) w', of q] have nq: "\<not> bit q (dir_idx w')" by simp
      have "dir_nb w' (x, y) \<in> vis m"
      proof (cases "bit q0 (dir_idx w')")
        case False
        with f w' ig0 show ?thesis by (auto simp add: frame_ok_def)
      next
        case True
        from gen_DFS_walls_sound(3)[OF q dir_idx_less True nq] blocked_grid[OF r g wd ht w'] ig0
        have "\<not> carvable (cell_at m (dir_nb w' (x, y)))" by simp
        with np[OF ig0] have "bit (cell_at m (dir_nb w' (x, y))) 4" by (auto simp add: carvable_iff)
        with ig0 show ?thesis by (simp add: vis_def)
      qed
      then show ?thesis unfolding V by simp
    qed
  qed
  have f_rest: "frame_ok ?m' f'" if "f' \<in> set rest" for f'
    using frame_ok_carved[OF r g n fr[OF that]] .
  have cl': "closed_at ?m' b"
    if "b \<in> vis ?m'" "b \<notin> frame_xy ` set ((fst ?nb, snd ?nb, 0xf) # (x, y, q AND (15 - w)) # rest)" for b
  proof -
    from that(2) have "b \<noteq> ?nb" "b \<notin> frame_xy ` set ((x, y, q0) # rest)"
      by (auto simp add: frame_xy_def)
    moreover from this(1) that(1) have "b \<in> vis m" unfolding V by simp
    ultimately have "closed_at m b" using cl by blast
    then show ?thesis by (rule closed_at_carved[OF r g n])
  qed
  show "carve_inv p s ?m' ((fst ?nb, snd ?nb, 0xf) # (x, y, q AND (15 - w)) # rest)"
    unfolding carve_inv_def
    using r wd ht sv c' a' r' np' f_new f_cur f_rest cl' by (auto simp add: V)
qed


lemma gen_DFS_body_inv:
  assumes inv: "carve_inv p s m (f # rest)"
  shows "\<exists>m' st' g'. gen_DFS_body p (m, f # rest, g) = Some (m', st', g') \<and> carve_inv p s m' st'"
proof -
  obtain x y q0 where f: "f = (x, y, q0)" by (cases f)
  note inv' = inv[unfolded f]
  from inv' have r: "rectangular m" and wd: "maze_width m = width p" and ht: "maze_height m = height p"
    and fo: "frame_ok m (x, y, q0)"
    by (auto simp add: carve_inv_def)
  from fo have g: "in_grid m (x, y)" and b4: "\<And>n. bit q0 n \<Longrightarrow> n < 4"
    by (simp_all add: frame_ok_def vis_def)
  from gen_DFS_walls_grid[OF r g wd ht] obtain q where q: "gen_DFS_walls m p x y q0 = Some q"
    by blast
  show ?thesis
  proof (cases "q = 0")
    case True
    with carve_inv_pop[OF inv'] q show ?thesis by (simp add: gen_DFS_body_def f)
  next
    case False
    have "\<forall>n. bit q n \<longrightarrow> n < 4" using gen_DFS_walls_sound(1)[OF q] b4 by blast
    from nonzero_dir[OF False this] have ne: "wall_list q \<noteq> []"
      using wall_list_dir[of _ q] by fastforce
    define w where "w = wall_list q ! (g 0 mod length (wall_list q))"
    have rc: "random_choice (wall_list q) g = Some (w, rng_tail g)"
      using ne by (simp add: random_choice_def w_def)
    have "w \<in> set (wall_list q)" using ne by (simp add: w_def)
    then have w: "w \<in> {1, 2, 4, 8}" "bit q (dir_idx w)" by (simp_all add: wall_list_dir)
    note push = carve_inv_push[OF inv' q w]
    from gen_DFS_carve_grid[OF r w(1) g push(1)] push(2) False q rc
    show ?thesis by (simp add: gen_DFS_body_def f)
  qed
qed

lemma gen_DFS_loop_inv:
  "carve_inv p s (fst st) (fst (snd st)) \<Longrightarrow>
   \<exists>m' g'. gen_DFS_loop p st = Some (m', g') \<and> carve_inv p s m' []"
proof (induction p st rule: gen_DFS_loop.induct)
  case (1 p st)
  obtain m stack g where st: "st = (m, stack, g)" by (cases st)
  show ?case
  proof (cases stack)
    case Nil
    with "1.prems" st show ?thesis by (simp add: gen_DFS_loop.simps)
  next
    case (Cons f rest)
    from "1.prems" st Cons have "carve_inv p s m (f # rest)" by simp
    from gen_DFS_body_inv[OF this, of g] obtain m' st' g' where
      b: "gen_DFS_body p (m, f # rest, g) = Some (m', st', g')" and i: "carve_inv p s m' st'"
      by blast
    have b': "gen_DFS_body p st = Some (m', st', g')" using b st Cons by simp
    have ne: "stack \<noteq> []" using Cons by simp
    have "\<exists>m'' g''. gen_DFS_loop p (m', st', g') = Some (m'', g'') \<and> carve_inv p s m'' []"
      using "1.IH"[OF st[symmetric] refl ne b'] i by simp
    then show ?thesis using st Cons b by (simp add: gen_DFS_loop.simps[of p "(m, f # rest, g)"])
  qed
qed

lemma closed_all:
  assumes s: "s \<in> vis m" and cl: "\<And>a. a \<in> vis m \<Longrightarrow> closed_at m a" and b: "in_grid m b"
  shows "b \<in> vis m"
  using b
proof (induction "nat (\<bar>fst b - fst s\<bar> + \<bar>snd b - snd s\<bar>)" arbitrary: b rule: less_induct)
  case less
  from s have sg: "in_grid m s" by (simp add: vis_def)
  show ?case
  proof (cases "b = s")
    case True
    with s show ?thesis by simp
  next
    case False
    define c where "c = (if fst b < fst s then (fst b + 1, snd b)
                         else if fst b > fst s then (fst b - 1, snd b)
                         else if snd b < snd s then (fst b, snd b + 1)
                         else (fst b, snd b - 1))"
    have cg: "in_grid m c" using less.prems sg False
      by (auto simp add: c_def in_grid_def prod_eq_iff)
    have "nat (\<bar>fst c - fst s\<bar> + \<bar>snd c - snd s\<bar>) < nat (\<bar>fst b - fst s\<bar> + \<bar>snd b - snd s\<bar>)"
      using False by (auto simp add: c_def prod_eq_iff)
    from less.hyps[OF this cg] have "c \<in> vis m" .
    from cl[OF this] have cc: "closed_at m c" .
    have "\<exists>w \<in> {1, 2, 4, 8}. b = dir_nb w c"
      using False by (auto simp add: c_def dir_nb_def prod_eq_iff)
    with cc less.prems show ?thesis by (auto simp add: closed_at_def)
  qed
qed

lemma set_all_cells: "set (all_cells m) = {a. in_grid m a}"
  by (auto simp add: all_cells_def in_grid_def)

lemma distinct_all_cells: "distinct (all_cells m)"
  by (simp add: all_cells_def distinct_product)

lemma length_all_cells: "length (all_cells m) = card {a. in_grid m a}"
  using distinct_card[OF distinct_all_cells[of m]] by (simp add: set_all_cells)

lemma distinct_concat_map:
  assumes "distinct xs" "\<And>x. x \<in> set xs \<Longrightarrow> distinct (f x)"
    and "\<And>x y. x \<in> set xs \<Longrightarrow> y \<in> set xs \<Longrightarrow> x \<noteq> y \<Longrightarrow> set (f x) \<inter> set (f y) = {}"
  shows "distinct (concat (map f xs))"
  using assms by (induction xs) fastforce+

lemma open_between_in_grid: "open_between m a b \<Longrightarrow> in_grid m a \<and> in_grid m b"
  by (simp add: open_between_def)

lemma set_open_edges: "set (open_edges m) = edge_set m"
proof -
  have "set (open_edges m) =
      (\<Union>a \<in> {a. in_grid m a}. {e \<in> {(a, (fst a + 1, snd a)), (a, (fst a, snd a + 1))}.
          open_between m (fst e) (snd e)})"
    unfolding open_edges_def set_concat set_map set_filter image_image set_all_cells
    by (simp only: list.set)
  also have "\<dots> = edge_set m"
    unfolding edge_set_def by (auto dest: open_between_in_grid)
  finally show ?thesis .
qed

lemma distinct_open_edges: "distinct (open_edges m)"
  unfolding open_edges_def
proof (rule distinct_concat_map)
  show "distinct (all_cells m)" by (rule distinct_all_cells)
  show "distinct (filter (\<lambda>e. open_between m (fst e) (snd e))
          [(a, (fst a + 1, snd a)), (a, (fst a, snd a + 1))])" for a
    by (rule distinct_filter) simp
  show "set (filter (\<lambda>e. open_between m (fst e) (snd e))
          [(a, (fst a + 1, snd a)), (a, (fst a, snd a + 1))])
        \<inter> set (filter (\<lambda>e. open_between m (fst e) (snd e))
          [(b, (fst b + 1, snd b)), (b, (fst b, snd b + 1))]) = {}" if "a \<noteq> b" for a b
    using that by auto
qed

lemma length_open_edges: "length (open_edges m) = card (edge_set m)"
  using distinct_card[OF distinct_open_edges[of m]] by (simp add: set_open_edges)

lemma sym_adj: "sym (adj m)"
  by (auto simp add: sym_def adj_def open_between_sym[of m])

lemma carve_inv_perfect:
  assumes "carve_inv p s m []"
  shows "perfect_maze m"
proof -
  from assms have sv: "s \<in> vis m" and re: "\<And>a. a \<in> vis m \<Longrightarrow> (s, a) \<in> (adj m)\<^sup>*"
    and cd: "card (edge_set m) + 1 = card (vis m)"
    and cl: "\<And>a. a \<in> vis m \<Longrightarrow> closed_at m a"
    by (auto simp add: carve_inv_def)
  have all: "vis m = {a. in_grid m a}"
    using closed_all[OF sv cl] by (auto simp add: vis_def)
  have "(a, b) \<in> (adj m)\<^sup>*" if "in_grid m a" "in_grid m b" for a b
  proof -
    from that all have "(s, a) \<in> (adj m)\<^sup>*" "(s, b) \<in> (adj m)\<^sup>*" using re by auto
    moreover from this(1) have "(a, s) \<in> (adj m)\<^sup>*"
      by (rule symD[OF sym_rtrancl[OF sym_adj]])
    ultimately show ?thesis by simp
  qed
  then have "connected_maze m"
    by (auto simp add: connected_maze_def set_all_cells adj_def)
  then show ?thesis using cd all
    by (simp add: perfect_maze_def length_open_edges length_all_cells)
qed


subsection \<open>The generated maze\<close>

text \<open>The invariant of the parameters: entry and exit differ and lie inside the grid.\<close>

definition params_invariant :: "CMazeParams \<Rightarrow> bool" where
  "params_invariant p \<longleftrightarrow>
     entry p \<noteq> exit p
     \<and> 0 \<le> fst (entry p) \<and> fst (entry p) < width p \<and> 0 \<le> snd (entry p) \<and> snd (entry p) < height p
     \<and> 0 \<le> fst (exit p) \<and> fst (exit p) < width p \<and> 0 \<le> snd (exit p) \<and> snd (exit p) < height p"

lemma fresh_grid:
  assumes "1 \<le> w" "1 \<le> h"
  shows "rectangular (replicate (nat h) (replicate (nat w) 3))"
    and "maze_width (replicate (nat h) (replicate (nat w) 3)) = w"
    and "maze_height (replicate (nat h) (replicate (nat w) 3)) = h"
    and "in_grid (replicate (nat h) (replicate (nat w) 3)) a \<Longrightarrow>
         cell_at (replicate (nat h) (replicate (nat w) 3)) a = 3"
proof -
  let ?m = "replicate (nat h) (replicate (nat w) (3::int))"
  from assms(2) obtain k where k: "nat h = Suc k" by (cases "nat h") auto
  show w: "maze_width ?m = w" using assms(1) by (simp add: maze_width_def k)
  show "rectangular ?m" unfolding rectangular_def w using assms(1) by (simp add: list_all_iff)
  show h: "maze_height ?m = h" using assms(2) by (simp add: maze_height_def)
  show "cell_at ?m a = 3" if "in_grid ?m a"
    using that unfolding in_grid_def w h by (simp add: cell_at_def)
qed

lemma carve_inv_initial:
  assumes "1 \<le> width p" "1 \<le> height p" "params_invariant p"
  defines "m0 \<equiv> replicate (nat (height p)) (replicate (nat (width p)) 3)"
  defines "m3 \<equiv> put (put (put m0 (entry p) 7) (exit p) 11) (exit p) 27"
  shows "carve_inv p (exit p) m3 [(fst (exit p), snd (exit p), 0xf)]"
proof -
  note fg = fresh_grid[OF assms(1,2), folded m0_def]
  have en: "in_grid m0 (entry p)" and ex: "in_grid m0 (exit p)"
    using assms(3) by (simp_all add: in_grid_def fg params_invariant_def)
  have r: "rectangular m3" and wd: "maze_width m3 = width p" and ht: "maze_height m3 = height p"
    and ig: "\<And>a. in_grid m3 a = in_grid m0 a"
    by (simp_all add: m3_def fg)
  have c: "cell_at m3 a = (if a = exit p then 27 else if a = entry p then 7 else 3)"
    if "in_grid m0 a" for a
    using that en ex fg(1,4) by (simp add: m3_def cell_at_put)
  have v: "vis m3 = {exit p}"
    using ex by (auto simp add: vis_def ig c split: if_splits)
  have ob: "\<not> open_between m3 a b" for a b
  proof
    assume o: "open_between m3 a b"
    then obtain d k where w: "wall_of a b = Some (d, k)" and nb: "\<not> bit (cell_at m3 d) k"
      by (auto simp add: open_between_def split: option.splits)
    from wall_of_bit[OF w] o have "in_grid m0 d" "k = 0 \<or> k = 1"
      by (auto simp add: open_between_def ig)
    with nb show False by (auto simp add: c split: if_splits)
  qed
  then have a: "adj m3 = {}" and e: "edge_set m3 = {}"
    by (auto simp add: adj_def edge_set_def)
  have f: "frame_ok m3 (fst (exit p), snd (exit p), 0xf)"
    by (auto simp add: frame_ok_def v bit_15 dir_idx_less)
  show ?thesis
    unfolding carve_inv_def
    using r wd ht f by (auto simp add: v a e ig c frame_xy_def)
qed

text \<open>
  Claim C1 (as amended).  For every parameter record with width and height at least 2,
  entry and exit distinct and inside the grid, no pattern requested and the perfect flag
  set, for every seed and every state of the random generator, \<open>generate\<close> returns a grid,
  and the grid is a perfect maze: its open connections link all cells, and their number
  is the number of cells minus 1.
\<close>

theorem generate_perfect_maze:
  assumes "2 \<le> width p" "2 \<le> height p" "params_invariant p" "\<not> insert_42 p" "perfect p"
  shows "\<exists>maze g'. generate random_seed p g = Some (maze, g') \<and> perfect_maze maze"
proof -
  define m0 where "m0 = replicate (nat (height p)) (replicate (nat (width p)) (3::int))"
  from assms(1,2) have w1: "1 \<le> width p" and h1: "1 \<le> height p" by simp_all
  note fg = fresh_grid[OF w1 h1, folded m0_def]
  have en: "in_grid m0 (entry p)" and ex: "in_grid m0 (exit p)"
    using assms(3) by (simp_all add: in_grid_def fg params_invariant_def)
  have s1: "mset m0 (fst (entry p)) (snd (entry p)) 7 = Some (put m0 (entry p) 7)"
    using fg(1) en by (rule mset_grid)
  have s2: "mset (put m0 (entry p) 7) (fst (exit p)) (snd (exit p)) 11
            = Some (put (put m0 (entry p) 7) (exit p) 11)"
    by (rule mset_grid) (simp_all add: fg ex)
  let ?m2 = "put (put m0 (entry p) 7) (exit p) 11"
  have g2: "mget ?m2 (fst (exit p)) (snd (exit p)) = Some 11"
    using mget_grid[of ?m2 "exit p"] fg(1) en ex by (simp add: cell_at_put)
  have s3: "mset ?m2 (fst (exit p)) (snd (exit p)) 27 = Some (put ?m2 (exit p) 27)"
    by (rule mset_grid) (simp_all add: fg ex)
  from carve_inv_initial[OF w1 h1 assms(3)]
  have "carve_inv p (exit p) (put ?m2 (exit p) 27) [(fst (exit p), snd (exit p), 0xf)]"
    by (simp add: m0_def)
  from gen_DFS_loop_inv[of p "exit p" "(put ?m2 (exit p) 27, [(fst (exit p), snd (exit p), 0xf)], g0)" for g0]
    this
  have "\<exists>m' g'. gen_DFS_loop p (put ?m2 (exit p) 27, [(fst (exit p), snd (exit p), 0xf)], g0)
            = Some (m', g') \<and> carve_inv p (exit p) m' []" for g0
    by simp
  then obtain m' g' where
    l: "gen_DFS_loop p (put ?m2 (exit p) 27, [(fst (exit p), snd (exit p), 0xf)],
            case seed p of None \<Rightarrow> g | Some s \<Rightarrow> random_seed s) = Some (m', g')"
    and i: "carve_inv p (exit p) m' []" by blast
  have "gen_DFS ?m2 p (case seed p of None \<Rightarrow> g | Some s \<Rightarrow> random_seed s) = Some (m', g')"
    using l g2 s3 by (simp add: gen_DFS_def case_prod_beta)
  then have "generate random_seed p g = Some (m', g')"
    using assms(4,5) s1 s2 by (simp add: generate_def m0_def[symmetric])
  with carve_inv_perfect[OF i] show ?thesis by blast
qed


theorem generate_perfect_maze_witness:
  "perfect_maze [[25, 19], [17, 22]]"
proof -
  let ?p = "(mk_params 2 2 (1, 1) (0, 0))\<lparr>insert_42 := False\<rparr>"
  have e: "map_option fst (generate (\<lambda>s n. 0) ?p (\<lambda>n. 0)) = Some [[25, 19], [17, 22]]"
    by code_simp
  have "\<exists>maze g'. generate (\<lambda>s n. 0) ?p (\<lambda>n. 0) = Some (maze, g') \<and> perfect_maze maze"
    by (rule generate_perfect_maze) (simp_all add: mk_params_def params_invariant_def)
  with e show ?thesis by auto
qed

text \<open>
  The claim as stated does not ask for the perfect flag.  Without it the injector runs
  after the carver: on the 2 x 2 grid with entry \<open>(1, 1)\<close>, exit \<open>(0, 0)\<close> and probability
  100 the grid has 4 open connections on 4 cells.
\<close>

theorem generate_imperfect_counterexample:
  "2 \<le> width ((mk_params 2 2 (1, 1) (0, 0))
          \<lparr>perfect := False, insert_42 := False, probability_to_del_dead_end := 100\<rparr>)
   \<and> 2 \<le> height ((mk_params 2 2 (1, 1) (0, 0))
          \<lparr>perfect := False, insert_42 := False, probability_to_del_dead_end := 100\<rparr>)
   \<and> params_invariant ((mk_params 2 2 (1, 1) (0, 0))
          \<lparr>perfect := False, insert_42 := False, probability_to_del_dead_end := 100\<rparr>)
   \<and> map_option fst (generate (\<lambda>s n. 0) ((mk_params 2 2 (1, 1) (0, 0))
          \<lparr>perfect := False, insert_42 := False, probability_to_del_dead_end := 100\<rparr>) (\<lambda>n. 0))
     = Some [[25, 19], [16, 22]]
   \<and> length (open_edges [[25, 19], [16, 22]]) = 4
   \<and> length (all_cells [[25, 19], [16, 22]]) = 4
   \<and> \<not> perfect_maze [[25, 19], [16, 22]]"
proof -
  have e: "length (open_edges [[25, 19], [16, 22]]) = 4" by code_simp
  have c: "length (all_cells [[25, 19], [16, 22]]) = 4" by code_simp
  have g: "map_option fst (generate (\<lambda>s n. 0) ((mk_params 2 2 (1, 1) (0, 0))
          \<lparr>perfect := False, insert_42 := False, probability_to_del_dead_end := 100\<rparr>) (\<lambda>n. 0))
     = Some [[25, 19], [16, 22]]" by code_simp
  show ?thesis using e c g by (simp add: perfect_maze_def mk_params_def params_invariant_def)
qed


section \<open>What the injector changes\<close>

text \<open>
  \<open>do_not_prefect_animated\<close> has the body of \<open>do_not_prefect\<close>; after a cell whose draw
  was reached it yields the box \<open>(x - 1, y - 1, x + 1, y + 1)\<close> when \<open>animated\<close> is set, and
  \<open>None\<close> at the end. The yields are collected in a list.
\<close>

type_synonym area = "int \<times> int \<times> int \<times> int"

fun do_not_prefect_animated_row ::
  "real \<Rightarrow> bool \<Rightarrow> int \<Rightarrow> int list \<Rightarrow> maze \<Rightarrow> rng \<Rightarrow> (area option list \<times> maze \<times> rng) option" where
  "do_not_prefect_animated_row pr animated y [] maze g = Some ([], maze, g)"
| "do_not_prefect_animated_row pr animated y (x # xs) maze g =
     (case do_not_prefect_cell maze pr x y g of
        None \<Rightarrow> None
      | Some (maze', g', reached) \<Rightarrow>
          map_option
            (\<lambda>(yields, r).
               ((if reached \<and> animated then [Some (x - 1, y - 1, x + 1, y + 1)] else []) @ yields, r))
            (do_not_prefect_animated_row pr animated y xs maze' g'))"

fun do_not_prefect_animated_rows ::
  "real \<Rightarrow> bool \<Rightarrow> int list \<Rightarrow> maze \<Rightarrow> rng \<Rightarrow> (area option list \<times> maze \<times> rng) option" where
  "do_not_prefect_animated_rows pr animated [] maze g = Some ([], maze, g)"
| "do_not_prefect_animated_rows pr animated (y # ys) maze g =
     (case py_get maze 0 of
        None \<Rightarrow> None
      | Some row0 \<Rightarrow>
          (case do_not_prefect_animated_row pr animated y (py_range 0 (int (length row0))) maze g of
             None \<Rightarrow> None
           | Some (yields, maze', g') \<Rightarrow>
               map_option (\<lambda>(yields', r). (yields @ yields', r))
                 (do_not_prefect_animated_rows pr animated ys maze' g')))"

definition do_not_prefect_animated ::
  "maze \<Rightarrow> CMazeParams \<Rightarrow> bool \<Rightarrow> rng \<Rightarrow> (area option list \<times> maze \<times> rng) option" where
  "do_not_prefect_animated maze p animated g =
     (let pr = probability_to_del_dead_end p in
      if pr \<le> 0 then Some ([], maze, g)
      else map_option (\<lambda>(yields, r). (yields @ [None], r))
             (do_not_prefect_animated_rows pr animated (py_range 0 (int (length maze))) maze g))"

lemma do_not_prefect_animated_row_result:
  "map_option snd (do_not_prefect_animated_row pr animated y xs maze g) = do_not_prefect_row pr y xs maze g"
  by (induction xs arbitrary: maze g)
     (auto split: option.splits simp add: option.map_comp comp_def case_prod_beta)

lemma do_not_prefect_animated_rows_result:
  "map_option snd (do_not_prefect_animated_rows pr animated ys maze g) = do_not_prefect_rows pr ys maze g"
proof (induction ys arbitrary: maze g)
  case Nil
  then show ?case by simp
next
  case (Cons y ys)
  show ?case
  proof (cases "py_get maze 0")
    case None
    then show ?thesis by simp
  next
    case (Some row0)
    let ?xs = "py_range 0 (int (length row0))"
    note R = do_not_prefect_animated_row_result[of pr animated y ?xs maze g]
    show ?thesis
    proof (cases "do_not_prefect_animated_row pr animated y ?xs maze g")
      case None
      with R have "do_not_prefect_row pr y ?xs maze g = None" by simp
      with None Some show ?thesis by simp
    next
      case (Some r)
      obtain yl m' g' where r: "r = (yl, m', g')" by (cases r)
      from R Some r have "do_not_prefect_row pr y ?xs maze g = Some (m', g')" by simp
      with Some r \<open>py_get maze 0 = Some row0\<close> Cons.IH[of m' g'] show ?thesis
        by (simp add: option.map_comp comp_def case_prod_beta)
    qed
  qed
qed

lemma do_not_prefect_animated_result:
  "map_option snd (do_not_prefect_animated maze p animated g) = do_not_prefect maze p g"
  using do_not_prefect_animated_rows_result[of "probability_to_del_dead_end p" animated
          "py_range 0 (int (length maze))" maze g]
  by (simp add: do_not_prefect_animated_def do_not_prefect_def Let_def option.map_comp comp_def
        case_prod_beta)


lemma stage_cases:
  assumes "(if cond then
              (if edge then Some (q AND m)
               else Option.bind cell (\<lambda>c. Some (if T c then q AND m else q)))
            else Some (q::int)) = Some q'"
  shows "(q' = q \<and> (\<not> cond \<or> \<not> edge \<and> (\<exists>c. cell = Some c \<and> \<not> T c)))
       \<or> (q' = q AND m \<and> cond \<and> (edge \<or> (\<exists>c. cell = Some c \<and> T c)))"
proof (cases cond)
  case False
  with assms show ?thesis by simp
next
  case True
  note c = this
  show ?thesis
  proof (cases edge)
    case True
    with c assms show ?thesis by auto
  next
    case False
    with c assms obtain c where "cell = Some c" "q' = (if T c then q AND m else q)"
      by (auto simp add: bind_eq_Some_conv)
    with c False show ?thesis by (cases "T c") simp_all
  qed
qed

lemma stage_some:
  assumes "\<not> edge \<Longrightarrow> \<exists>c. cell = Some c"
  shows "\<exists>q'. (if cond then
              (if edge then Some (q AND m)
               else Option.bind cell (\<lambda>c. Some (if T c then q AND m else q)))
            else Some (q::int)) = Some q'"
  using assms by auto

lemma in_grid_dir_m:
  assumes "in_grid m (x, y)"
  shows "in_grid m (x, y - 1) \<longleftrightarrow> y \<noteq> 0"
    and "in_grid m (x + 1, y) \<longleftrightarrow> x \<noteq> maze_width m - 1"
    and "in_grid m (x, y + 1) \<longleftrightarrow> y \<noteq> maze_height m - 1"
    and "in_grid m (x - 1, y) \<longleftrightarrow> x \<noteq> 0"
  using assms by (auto simp add: in_grid_def)

lemma py_get_row0:
  assumes "in_grid m a"
  shows "py_get m 0 = Some (m ! 0)" and "int (length (m ! 0)) = maze_width m"
    and "int (length m) = maze_height m"
proof -
  from assms have "m \<noteq> []" by (auto simp add: in_grid_def maze_height_def)
  then obtain r rs where m: "m = r # rs" by (cases m) auto
  show "py_get m 0 = Some (m ! 0)" by (simp add: m py_get_def py_index_def)
  show "int (length (m ! 0)) = maze_width m" by (simp add: m maze_width_def)
  show "int (length m) = maze_height m" by (simp add: maze_height_def)
qed

lemma bit_small:
  assumes "0 \<le> k" "k < 16" "bit (k::int) n"
  shows "n < 4"
proof (rule ccontr)
  assume "\<not> n < 4"
  then have "(2::int) ^ 4 \<le> 2 ^ n" by (intro power_increasing) simp_all
  with assms(1,2) have "k div 2 ^ n = 0" by (simp add: div_pos_pos_trivial)
  with assms(3) show False by (simp add: bit_iff_odd)
qed

definition is_pattern :: "int \<Rightarrow> bool" where
  "is_pattern c \<longleftrightarrow> c AND 0xc = 0xc"

lemma removable_walls_sound:
  assumes r: "rectangular m" and g: "in_grid m (x, y)"
  shows "\<exists>w. removable_walls m x y v = Some w \<and> (\<forall>n. bit w n \<longrightarrow> bit v n)
     \<and> (\<forall>ch \<in> {1, 2, 4, 8}. bit w (dir_idx ch) \<longrightarrow>
          in_grid m (dir_nb ch (x, y)) \<and> \<not> is_pattern (cell_at m (dir_nb ch (x, y))))"
proof -
  note d = in_grid_dir_m[OF g] and p0 = py_get_row0[OF g]
  have c: "in_grid m (a, b) \<Longrightarrow> mget m a b = Some (cell_at m (a, b))" for a b
    using mget_in_grid[OF r] by simp
  let ?T = "\<lambda>c::int. c AND 0xc = 0xc"
  from stage_some[of "y = 0" "mget m x (y - 1)" "v AND 1 \<noteq> 0" v "0xe" ?T] d(1) c obtain w1 where
    s1: "(if v AND 1 \<noteq> 0 then
              (if y = 0 then Some (v AND 0xe)
               else Option.bind (mget m x (y - 1)) (\<lambda>c. Some (if c AND 0xc = 0xc then v AND 0xe else v)))
            else Some v) = Some w1" by blast
  from stage_some[of "x = int (length (m ! 0)) - 1" "mget m (x + 1) y" "w1 AND 2 \<noteq> 0" w1 13 ?T]
    d(2) c p0(2) obtain w2 where
    s2: "(if w1 AND 2 \<noteq> 0 then
              (if x = int (length (m ! 0)) - 1 then Some (w1 AND 13)
               else Option.bind (mget m (x + 1) y) (\<lambda>c. Some (if c AND 0xc = 0xc then w1 AND 13 else w1)))
            else Some w1) = Some w2" by auto
  from stage_some[of "y = int (length m) - 1" "mget m x (y + 1)" "w2 AND 4 \<noteq> 0" w2 11 ?T]
    d(3) c p0(3) obtain w3 where
    s3: "(if w2 AND 4 \<noteq> 0 then
              (if y = int (length m) - 1 then Some (w2 AND 11)
               else Option.bind (mget m x (y + 1)) (\<lambda>c. Some (if c AND 0xc = 0xc then w2 AND 11 else w2)))
            else Some w2) = Some w3" by auto
  from stage_some[of "x = 0" "mget m (x - 1) y" "w3 AND 8 \<noteq> 0" w3 7 ?T] d(4) c obtain w4 where
    s4: "(if w3 AND 8 \<noteq> 0 then
              (if x = 0 then Some (w3 AND 7)
               else Option.bind (mget m (x - 1) y) (\<lambda>c. Some (if c AND 0xc = 0xc then w3 AND 7 else w3)))
            else Some w3) = Some w4" by blast
  have s2': "(if w1 AND 2 \<noteq> 0 then
              Option.bind (py_get m 0) (\<lambda>row0.
                   if x = int (length row0) - 1 then Some (w1 AND 13)
                   else Option.bind (mget m (x + 1) y) (\<lambda>c. Some (if c AND 0xc = 0xc then w1 AND 13 else w1)))
            else Some w1) = Some w2"
    unfolding p0(1) bind.bind_lunit by (rule s2)
  have res: "removable_walls m x y v = Some w4"
    unfolding removable_walls_def s1 bind.bind_lunit s2' s3 s4 by (rule refl)
  note t1 = stage_cases[OF s1] and t2 = stage_cases[OF s2] and t3 = stage_cases[OF s3]
    and t4 = stage_cases[OF s4]
  have a1: "bit w1 n \<Longrightarrow> bit v n" for n using t1 by (auto simp add: bit_and_iff)
  have a2: "bit w2 n \<Longrightarrow> bit w1 n" for n using t2 by (auto simp add: bit_and_iff)
  have a3: "bit w3 n \<Longrightarrow> bit w2 n" for n using t3 by (auto simp add: bit_and_iff)
  have a4: "bit w4 n \<Longrightarrow> bit w3 n" for n using t4 by (auto simp add: bit_and_iff)
  note a = a1 a2 a3 a4
  have b1: "bit w1 0 \<Longrightarrow> in_grid m (x, y - 1) \<and> \<not> is_pattern (cell_at m (x, y - 1))"
    using t1 d(1) c[of x "y - 1"] by (auto simp add: bit_and_iff and_bit is_pattern_def)
  have b2: "bit w2 1 \<Longrightarrow> in_grid m (x + 1, y) \<and> \<not> is_pattern (cell_at m (x + 1, y))"
    using t2 d(2) c[of "x + 1" y] p0(2) by (auto simp add: bit_and_iff and_bit is_pattern_def)
  have b3: "bit w3 2 \<Longrightarrow> in_grid m (x, y + 1) \<and> \<not> is_pattern (cell_at m (x, y + 1))"
    using t3 d(3) c[of x "y + 1"] p0(3) by (auto simp add: bit_and_iff and_bit is_pattern_def)
  have b4: "bit w4 3 \<Longrightarrow> in_grid m (x - 1, y) \<and> \<not> is_pattern (cell_at m (x - 1, y))"
    using t4 d(4) c[of "x - 1" y] by (auto simp add: bit_and_iff and_bit is_pattern_def)
  have "\<forall>ch \<in> {1, 2, 4, 8}. bit w4 (dir_idx ch) \<longrightarrow>
          in_grid m (dir_nb ch (x, y)) \<and> \<not> is_pattern (cell_at m (dir_nb ch (x, y)))"
    using a b1 b2 b3 b4 by (auto simp add: dir_idx_def dir_nb_simps)
  moreover have "\<forall>n. bit w4 n \<longrightarrow> bit v n" using a by blast
  ultimately show ?thesis using res by blast
qed


lemma bit_num4:
  "bit (1::int) n \<Longrightarrow> n < 4" "bit (2::int) n \<Longrightarrow> n < 4" "bit (3::int) n \<Longrightarrow> n < 4"
  "bit (4::int) n \<Longrightarrow> n < 4" "bit (8::int) n \<Longrightarrow> n < 4"
  using bit_small[of 1 n] bit_small[of 2 n] bit_small[of 3 n] bit_small[of 4 n] bit_small[of 8 n]
  by simp_all

lemma effective_walls_some:
  assumes r: "rectangular m" and g: "in_grid m (x, y)"
  shows "\<exists>v. effective_walls m x y v0 = Some v \<and> (\<forall>n. bit v n \<longrightarrow> n < 4)"
proof -
  note d = in_grid_dir_m[OF g] and p0 = py_get_row0[OF g]
  have c: "in_grid m (a, b) \<Longrightarrow> mget m a b = Some (cell_at m (a, b))" for a b
    using mget_in_grid[OF r] by simp
  define v2 where "v2 = (if y = 0 then (v0 AND 3) OR 1 else v0 AND 3)"
  have b2: "bit v2 n \<Longrightarrow> n < 4" for n
    by (auto simp add: v2_def bit_or_iff bit_and_iff split: if_splits dest: bit_num4)
  define v3 where "v3 = (if x = 0 \<or> cell_at m (x - 1, y) AND 2 \<noteq> 0 then v2 OR 8 else v2)"
  have s3: "(if x = 0 then Some (v2 OR 8)
            else Option.bind (mget m (x - 1) y) (\<lambda>c. Some (if c AND 2 \<noteq> 0 then v2 OR 8 else v2)))
            = Some v3"
    using d(4) c[of "x - 1" y] by (simp add: v3_def)
  have b3: "bit v3 n \<Longrightarrow> n < 4" for n
    using b2 by (auto simp add: v3_def bit_or_iff split: if_splits dest: bit_num4)
  define v4 where "v4 = (if y = int (length m) - 1 \<or> cell_at m (x, y + 1) AND 1 \<noteq> 0 then v3 OR 4 else v3)"
  have s4: "(if y = int (length m) - 1 then Some (v3 OR 4)
            else Option.bind (mget m x (y + 1)) (\<lambda>c. Some (if c AND 1 \<noteq> 0 then v3 OR 4 else v3)))
            = Some v4"
    using d(3) c[of x "y + 1"] p0(3) by (simp add: v4_def)
  have b4: "bit v4 n \<Longrightarrow> n < 4" for n
    using b3 by (auto simp add: v4_def bit_or_iff split: if_splits dest: bit_num4)
  have "effective_walls m x y v0 = Some (if x = int (length (m ! 0)) - 1 then v4 OR 2 else v4)"
    unfolding effective_walls_def Let_def v2_def[symmetric] s3 bind.bind_lunit s4 p0(1)
    by (rule refl)
  moreover have "bit (if x = int (length (m ! 0)) - 1 then v4 OR 2 else v4) n \<Longrightarrow> n < 4" for n
    using b4 by (auto simp add: bit_or_iff split: if_splits dest: bit_num4)
  ultimately show ?thesis by blast
qed

lemma remove_wall_grid:
  assumes "rectangular m" "ch \<in> {1, 2, 4, 8}" "in_grid m (x, y)" "in_grid m (dir_nb ch (x, y))"
  shows "remove_wall m x y ch
     = Some (put m (dir_owner ch (x, y)) (cell_at m (dir_owner ch (x, y)) AND dir_mask ch))"
proof -
  have o: "in_grid m (dir_owner ch (x, y))" using assms(3,4) by (rule dir_owner_in_grid)
  have "remove_wall m x y ch =
      Option.bind (mget m (fst (dir_owner ch (x, y))) (snd (dir_owner ch (x, y))))
        (\<lambda>c. mset m (fst (dir_owner ch (x, y))) (snd (dir_owner ch (x, y))) (c AND dir_mask ch))"
    using assms(2) by (auto simp add: remove_wall_def dir_owner_def dir_nb_def dir_mask_def)
  then show ?thesis using assms(1) o by (simp add: mget_grid mset_grid)
qed

definition wall_removed :: "maze \<Rightarrow> coord \<Rightarrow> int \<Rightarrow> maze" where
  "wall_removed m a ch = put m (dir_owner ch a) (cell_at m (dir_owner ch a) AND dir_mask ch)"

lemma do_not_prefect_cell_step:
  assumes r: "rectangular m" and g: "in_grid m (x, y)"
  shows "\<exists>m' g' rc. do_not_prefect_cell m pr x y g = Some (m', g', rc)
     \<and> (m' = m \<or> (\<exists>ch \<in> {1, 2, 4, 8}. m' = wall_removed m (x, y) ch
            \<and> in_grid m (dir_nb ch (x, y)) \<and> \<not> is_pattern (cell_at m (x, y))
            \<and> \<not> is_pattern (cell_at m (dir_nb ch (x, y)))))"
proof -
  have c0: "mget m x y = Some (cell_at m (x, y))" using mget_in_grid[OF r g] .
  show ?thesis
  proof (cases "cell_at m (x, y) AND 0xc \<noteq> 0")
    case True
    then have "do_not_prefect_cell m pr x y g = Some (m, g, False)"
      by (simp add: do_not_prefect_cell_def c0)
    then show ?thesis by blast
  next
    case False
    then have np: "\<not> is_pattern (cell_at m (x, y))" by (simp add: is_pattern_def)
    from effective_walls_some[OF r g] obtain v where
      v: "effective_walls m x y (cell_at m (x, y)) = Some v" and vb: "\<And>n. bit v n \<Longrightarrow> n < 4"
      by blast
    obtain go g1 where dd: "dead_end_draw pr g = (go, g1)" by (cases "dead_end_draw pr g")
    from removable_walls_sound[OF r g, of v] obtain w where
      w: "removable_walls m x y v = Some w" and wv: "\<And>n. bit w n \<Longrightarrow> bit v n"
      and wd: "\<And>ch. ch \<in> {1, 2, 4, 8} \<Longrightarrow> bit w (dir_idx ch) \<Longrightarrow>
          in_grid m (dir_nb ch (x, y)) \<and> \<not> is_pattern (cell_at m (dir_nb ch (x, y)))"
      by blast
    show ?thesis
    proof (cases "length (wall_list v) = 3 \<and> go \<and> w \<noteq> 0")
      case False
      then have "\<exists>g'. do_not_prefect_cell m pr x y g = Some (m, g', False)"
        using \<open>\<not> cell_at m (x, y) AND 0xc \<noteq> 0\<close> v dd w
        by (auto simp add: do_not_prefect_cell_def c0)
      then show ?thesis by blast
    next
      case True
      have "\<forall>n. bit w n \<longrightarrow> n < 4" using wv vb by blast
      from nonzero_dir[OF _ this] True have ne: "wall_list w \<noteq> []"
        using wall_list_dir[of _ w] by fastforce
      define ch where "ch = wall_list w ! (g1 0 mod length (wall_list w))"
      have rc: "random_choice (wall_list w) g1 = Some (ch, rng_tail g1)"
        using ne by (simp add: random_choice_def ch_def)
      have "ch \<in> set (wall_list w)" using ne by (simp add: ch_def)
      then have ch: "ch \<in> {1, 2, 4, 8}" "bit w (dir_idx ch)" by (simp_all add: wall_list_dir)
      from wd[OF ch] have nb: "in_grid m (dir_nb ch (x, y))"
        and npn: "\<not> is_pattern (cell_at m (dir_nb ch (x, y)))" by simp_all
      have "do_not_prefect_cell m pr x y g = Some (wall_removed m (x, y) ch, rng_tail g1, True)"
        using True \<open>\<not> cell_at m (x, y) AND 0xc \<noteq> 0\<close> v dd w rc remove_wall_grid[OF r ch(1) g nb]
        by (simp add: do_not_prefect_cell_def c0 wall_removed_def)
      with ch(1) nb np npn show ?thesis by blast
    qed
  qed
qed


lemma bit_fffe: "bit (0xfffe::int) n \<longleftrightarrow> 1 \<le> n \<and> n < 16"
proof -
  have e: "(0xfffe::int) = push_bit 1 (mask 15)" by (simp add: mask_eq_exp_minus_1 push_bit_eq_mult)
  show ?thesis unfolding e bit_push_bit_iff bit_mask_iff by auto
qed

lemma bit_fffd: "bit (0xfffd::int) n \<longleftrightarrow> n \<noteq> 1 \<and> n < 16"
proof -
  have e: "(0xfffd::int) = 1 OR push_bit 2 (mask 14)"
    by (simp add: mask_eq_exp_minus_1 push_bit_eq_mult)
  show ?thesis unfolding e bit_or_iff bit_push_bit_iff bit_mask_iff bit_1_iff by auto
qed

lemma bit_dir_mask: "ch \<in> {1, 2, 4, 8} \<Longrightarrow> bit (dir_mask ch) n \<longleftrightarrow> n \<noteq> dir_bit ch \<and> n < 16"
  by (auto simp add: dir_mask_def dir_bit_def bit_fffe bit_fffd)

definition legal_wall :: "maze \<Rightarrow> coord \<times> nat \<Rightarrow> bool" where
  "legal_wall m ck \<longleftrightarrow>
     (\<exists>a b. in_grid m a \<and> in_grid m b \<and> wall_of a b = Some ck
        \<and> \<not> is_pattern (cell_at m a) \<and> \<not> is_pattern (cell_at m b))"

definition inject_rel :: "maze \<Rightarrow> maze \<Rightarrow> bool" where
  "inject_rel m m' \<longleftrightarrow>
     rectangular m' \<and> maze_width m' = maze_width m \<and> maze_height m' = maze_height m
     \<and> (\<forall>c. in_grid m c \<longrightarrow>
          (\<forall>n. bit (cell_at m' c) n \<longrightarrow> bit (cell_at m c) n)
        \<and> (\<forall>n. 2 \<le> n \<and> n < 16 \<longrightarrow> bit (cell_at m' c) n = bit (cell_at m c) n)
        \<and> (\<forall>k. k < 2 \<and> bit (cell_at m' c) k \<noteq> bit (cell_at m c) k \<longrightarrow> legal_wall m (c, k)))"

lemma inject_rel_refl: "rectangular m \<Longrightarrow> inject_rel m m"
  by (simp add: inject_rel_def)

lemma is_pattern_bits: "is_pattern c \<longleftrightarrow> bit c 2 \<and> bit c 3"
  by (simp add: is_pattern_def pattern_iff)

lemma inject_rel_pattern:
  assumes "inject_rel m m'" "in_grid m c"
  shows "is_pattern (cell_at m' c) = is_pattern (cell_at m c)"
proof -
  from assms have "\<forall>n. 2 \<le> n \<and> n < 16 \<longrightarrow> bit (cell_at m' c) n = bit (cell_at m c) n"
    unfolding inject_rel_def by blast
  then have "bit (cell_at m' c) 2 = bit (cell_at m c) 2" "bit (cell_at m' c) 3 = bit (cell_at m c) 3"
    by simp_all
  then show ?thesis by (simp add: is_pattern_bits)
qed

lemma inject_rel_in_grid: "inject_rel m m' \<Longrightarrow> in_grid m' c = in_grid m c"
  by (simp add: inject_rel_def in_grid_def)

lemma inject_rel_legal:
  assumes "inject_rel m m'" "legal_wall m' ck"
  shows "legal_wall m ck"
  using assms(2) inject_rel_pattern[OF assms(1)] inject_rel_in_grid[OF assms(1)]
  unfolding legal_wall_def by metis

lemma inject_rel_trans:
  assumes a: "inject_rel m m1" and b: "inject_rel m1 m2"
  shows "inject_rel m m2"
proof -
  note g = inject_rel_in_grid[OF a]
  have "(\<forall>n. bit (cell_at m2 c) n \<longrightarrow> bit (cell_at m c) n)
        \<and> (\<forall>n. 2 \<le> n \<and> n < 16 \<longrightarrow> bit (cell_at m2 c) n = bit (cell_at m c) n)
        \<and> (\<forall>k. k < 2 \<and> bit (cell_at m2 c) k \<noteq> bit (cell_at m c) k \<longrightarrow> legal_wall m (c, k))"
    if c: "in_grid m c" for c
  proof -
    from c g have c1: "in_grid m1 c" by simp
    from a c have a1: "\<And>n. bit (cell_at m1 c) n \<Longrightarrow> bit (cell_at m c) n"
      and a2: "\<And>n. 2 \<le> n \<and> n < 16 \<Longrightarrow> bit (cell_at m1 c) n = bit (cell_at m c) n"
      and a3: "\<And>k. k < 2 \<and> bit (cell_at m1 c) k \<noteq> bit (cell_at m c) k \<Longrightarrow> legal_wall m (c, k)"
      unfolding inject_rel_def by blast+
    from b c1 have b1: "\<And>n. bit (cell_at m2 c) n \<Longrightarrow> bit (cell_at m1 c) n"
      and b2: "\<And>n. 2 \<le> n \<and> n < 16 \<Longrightarrow> bit (cell_at m2 c) n = bit (cell_at m1 c) n"
      and b3: "\<And>k. k < 2 \<and> bit (cell_at m2 c) k \<noteq> bit (cell_at m1 c) k \<Longrightarrow> legal_wall m1 (c, k)"
      unfolding inject_rel_def by blast+
    show ?thesis using a1 a2 a3 b1 b2 inject_rel_legal[OF a b3] by metis
  qed
  moreover from a b have "rectangular m2" "maze_width m2 = maze_width m" "maze_height m2 = maze_height m"
    by (simp_all add: inject_rel_def)
  ultimately show ?thesis unfolding inject_rel_def by blast
qed

lemma inject_rel_wall_removed:
  assumes r: "rectangular m" and g: "in_grid m a" and ch: "ch \<in> {1, 2, 4, 8}"
    and nb: "in_grid m (dir_nb ch a)"
    and np: "\<not> is_pattern (cell_at m a)" "\<not> is_pattern (cell_at m (dir_nb ch a))"
  shows "inject_rel m (wall_removed m a ch)"
proof -
  have o: "in_grid m (dir_owner ch a)" using g nb by (rule dir_owner_in_grid)
  have lw: "legal_wall m (dir_owner ch a, dir_bit ch)"
    unfolding legal_wall_def using g nb np wall_of_dir[OF ch, of a] by blast
  have c: "cell_at (wall_removed m a ch) c
      = (if c = dir_owner ch a then cell_at m c AND dir_mask ch else cell_at m c)"
    if "in_grid m c" for c
    using that r o by (simp add: wall_removed_def cell_at_put)
  have k2: "dir_bit ch < 2" by (simp add: dir_bit_def)
  show ?thesis
    unfolding inject_rel_def
    using r lw k2 by (auto simp add: wall_removed_def c[unfolded wall_removed_def] bit_and_iff bit_dir_mask[OF ch])
qed


lemma inject_rel_rect: "inject_rel m m' \<Longrightarrow> rectangular m'"
  by (simp add: inject_rel_def)

lemma do_not_prefect_cell_rel:
  assumes r: "rectangular m" and g: "in_grid m (x, y)"
  shows "\<exists>m' g' rc. do_not_prefect_cell m pr x y g = Some (m', g', rc) \<and> inject_rel m m'"
proof -
  from do_not_prefect_cell_step[OF r g, of pr g] obtain m' g' rc where
    s: "do_not_prefect_cell m pr x y g = Some (m', g', rc)"
    and d: "m' = m \<or> (\<exists>ch \<in> {1, 2, 4, 8}. m' = wall_removed m (x, y) ch
            \<and> in_grid m (dir_nb ch (x, y)) \<and> \<not> is_pattern (cell_at m (x, y))
            \<and> \<not> is_pattern (cell_at m (dir_nb ch (x, y))))"
    by blast
  from d have "inject_rel m m'"
    using inject_rel_refl[OF r] inject_rel_wall_removed[OF r g] by blast
  with s show ?thesis by blast
qed

lemma do_not_prefect_row_rel:
  assumes "rectangular m" "\<forall>x \<in> set xs. in_grid m (x, y)"
  shows "\<exists>m' g'. do_not_prefect_row pr y xs m g = Some (m', g') \<and> inject_rel m m'"
  using assms
proof (induction xs arbitrary: m g)
  case Nil
  then show ?case by (simp add: inject_rel_refl)
next
  case (Cons x xs)
  from Cons.prems have g: "in_grid m (x, y)" by simp
  from do_not_prefect_cell_rel[OF Cons.prems(1) g, of pr g] obtain m1 g1 rc where
    s: "do_not_prefect_cell m pr x y g = Some (m1, g1, rc)" and r1: "inject_rel m m1" by blast
  have "\<forall>x \<in> set xs. in_grid m1 (x, y)"
    using Cons.prems(2) inject_rel_in_grid[OF r1] by simp
  from Cons.IH[OF inject_rel_rect[OF r1] this, of g1] obtain m' g' where
    "do_not_prefect_row pr y xs m1 g1 = Some (m', g')" "inject_rel m1 m'" by blast
  with s r1 show ?case using inject_rel_trans by auto
qed

lemma py_range_set: "set (py_range a b) = {a ..< b}"
  by (auto simp add: py_range_def)

lemma do_not_prefect_rows_rel:
  assumes "rectangular m" "\<forall>y \<in> set ys. 0 \<le> y \<and> y < maze_height m"
  shows "\<exists>m' g'. do_not_prefect_rows pr ys m g = Some (m', g') \<and> inject_rel m m'"
  using assms
proof (induction ys arbitrary: m g)
  case Nil
  then show ?case by (simp add: inject_rel_refl)
next
  case (Cons y ys)
  from Cons.prems(2) have y: "0 \<le> y" "y < maze_height m" by simp_all
  then have "m \<noteq> []" by (auto simp add: maze_height_def)
  then obtain r0 rs where m: "m = r0 # rs" by (cases m) auto
  have p0: "py_get m 0 = Some r0" by (simp add: m py_get_def py_index_def)
  have w: "int (length r0) = maze_width m" by (simp add: m maze_width_def)
  have "\<forall>x \<in> set (py_range 0 (int (length r0))). in_grid m (x, y)"
    using y w by (simp add: py_range_set in_grid_def)
  from do_not_prefect_row_rel[OF Cons.prems(1) this, of pr g] obtain m1 g1 where
    s: "do_not_prefect_row pr y (py_range 0 (int (length r0))) m g = Some (m1, g1)"
    and r1: "inject_rel m m1" by blast
  have "\<forall>y \<in> set ys. 0 \<le> y \<and> y < maze_height m1"
    using Cons.prems(2) r1 by (simp add: inject_rel_def)
  from Cons.IH[OF inject_rel_rect[OF r1] this, of g1] obtain m' g' where
    "do_not_prefect_rows pr ys m1 g1 = Some (m', g')" "inject_rel m1 m'" by blast
  with s r1 p0 show ?case using inject_rel_trans by auto
qed

lemma do_not_prefect_rel:
  assumes "rectangular m"
  shows "\<exists>m' g'. do_not_prefect m p g = Some (m', g') \<and> inject_rel m m'"
proof (cases "probability_to_del_dead_end p \<le> 0")
  case True
  then show ?thesis using assms by (simp add: do_not_prefect_def inject_rel_refl)
next
  case False
  have "\<forall>y \<in> set (py_range 0 (int (length m))). 0 \<le> y \<and> y < maze_height m"
    by (simp add: py_range_set maze_height_def)
  from do_not_prefect_rows_rel[OF assms this] False show ?thesis
    by (simp add: do_not_prefect_def)
qed

lemma inject_rel_boundary:
  assumes "inject_rel m m'" "in_grid m a"
  shows "snd a = 0 \<Longrightarrow> bit (cell_at m' a) 0 = bit (cell_at m a) 0"
    and "fst a = maze_width m - 1 \<Longrightarrow> bit (cell_at m' a) 1 = bit (cell_at m a) 1"
proof -
  from assms have l: "\<And>k. k < 2 \<Longrightarrow> bit (cell_at m' a) k \<noteq> bit (cell_at m a) k \<Longrightarrow> legal_wall m (a, k)"
    unfolding inject_rel_def by blast
  show "bit (cell_at m' a) 0 = bit (cell_at m a) 0" if "snd a = 0"
  proof (rule ccontr)
    assume "bit (cell_at m' a) 0 \<noteq> bit (cell_at m a) 0"
    from l[OF _ this] obtain b c where "in_grid m b" "in_grid m c" "wall_of b c = Some (a, 0)"
      by (auto simp add: legal_wall_def)
    with that show False by (auto simp add: wall_of_def in_grid_def split: if_splits)
  qed
  show "bit (cell_at m' a) 1 = bit (cell_at m a) 1" if "fst a = maze_width m - 1"
  proof (rule ccontr)
    assume "bit (cell_at m' a) 1 \<noteq> bit (cell_at m a) 1"
    from l[OF _ this] obtain b c where "in_grid m b" "in_grid m c" "wall_of b c = Some (a, 1)"
      by (auto simp add: legal_wall_def)
    with that show False by (auto simp add: wall_of_def in_grid_def split: if_splits)
  qed
qed

lemma inject_rel_open:
  assumes "inject_rel m m'" "open_between m a b"
  shows "open_between m' a b"
proof -
  from assms(2) obtain c k where g: "in_grid m a" "in_grid m b" and w: "wall_of a b = Some (c, k)"
    and o: "\<not> bit (cell_at m c) k"
    by (auto simp add: open_between_def split: option.splits)
  from wall_of_bit[OF w] g have "in_grid m c" by auto
  with assms(1) o have "\<not> bit (cell_at m' c) k" unfolding inject_rel_def by blast
  with g w show ?thesis by (simp add: open_between_def inject_rel_in_grid[OF assms(1)])
qed

lemma inject_rel_pattern_wall:
  assumes "inject_rel m m'" "in_grid m a" "is_pattern (cell_at m a)" "open_between m' a b"
  shows "open_between m a b"
proof -
  note ig = inject_rel_in_grid[OF assms(1)]
  from assms(4) obtain c k where g: "in_grid m a" "in_grid m b" and w: "wall_of a b = Some (c, k)"
    and o: "\<not> bit (cell_at m' c) k"
    by (auto simp add: open_between_def ig split: option.splits)
  from wall_of_bit[OF w] g have c: "in_grid m c" and k: "k < 2" by auto
  have "\<not> legal_wall m (c, k)"
  proof
    assume "legal_wall m (c, k)"
    then obtain a' b' where "wall_of a' b' = Some (c, k)" "\<not> is_pattern (cell_at m a')"
      "\<not> is_pattern (cell_at m b')" by (auto simp add: legal_wall_def)
    with wall_of_inj[OF this(1) w] assms(3) show False by auto
  qed
  with assms(1) c k have "bit (cell_at m' c) k = bit (cell_at m c) k"
    unfolding inject_rel_def by blast
  with o g w show ?thesis by (simp add: open_between_def)
qed

lemma inject_rel_connected:
  assumes "inject_rel m m'" "connected_maze m"
  shows "connected_maze m'"
proof -
  have "{(a, b). open_between m a b} \<subseteq> {(a, b). open_between m' a b}"
    using inject_rel_open[OF assms(1)] by auto
  from rtrancl_mono[OF this] assms(2) show ?thesis
    using inject_rel_in_grid[OF assms(1)]
    unfolding connected_maze_def set_all_cells by blast
qed

lemma bit_below_16:
  assumes "0 \<le> (k::int)" "k < 65536" "16 \<le> n"
  shows "\<not> bit k n"
proof -
  have "(2::int) ^ 16 \<le> 2 ^ n" using assms(3) by (intro power_increasing) simp_all
  with assms(1,2) have "k div 2 ^ n = 0" by (simp add: div_pos_pos_trivial)
  then show ?thesis by (simp add: bit_iff_odd)
qed

text \<open>
  Claim C5. On a rectangular grid \<open>do_not_prefect\<close> and \<open>do_not_prefect_animated\<close> return,
  with the same grid, for every probability and every stream of draws. The grid keeps its
  shape, and a bit of a cell is only ever cleared. The bits 2 to 15 of every cell are kept:
  the masks \<open>0xfffe\<close> and \<open>0xfffd\<close> clear a wall bit and, with it, every bit from 16 up. So
  in a cell with a value from 0 to \<open>0xFFFF\<close> only the top and right wall bits can change.
  The top bit of a cell of the first row and the right bit of a cell of the last column are
  kept, so no wall of the grid boundary is removed. No connection is opened at a pattern
  cell (a cell whose bits 2 and 3 are both set, as \<open>0xF\<close>). Every open connection stays
  open, hence a connected grid stays connected.
\<close>

theorem do_not_prefect_only_opens:
  assumes "rectangular maze"
  shows "\<exists>maze' g'. do_not_prefect maze p g = Some (maze', g')
     \<and> map_option snd (do_not_prefect_animated maze p animated g) = Some (maze', g')
     \<and> rectangular maze' \<and> maze_width maze' = maze_width maze \<and> maze_height maze' = maze_height maze
     \<and> (\<forall>a n. in_grid maze a \<and> bit (cell_at maze' a) n \<longrightarrow> bit (cell_at maze a) n)
     \<and> (\<forall>a n. in_grid maze a \<and> 2 \<le> n \<and> n < 16 \<longrightarrow> bit (cell_at maze' a) n = bit (cell_at maze a) n)
     \<and> (\<forall>a n. in_grid maze a \<and> 0 \<le> cell_at maze a \<and> cell_at maze a < 65536 \<and> 2 \<le> n
            \<longrightarrow> bit (cell_at maze' a) n = bit (cell_at maze a) n)
     \<and> (\<forall>a. in_grid maze a \<and> snd a = 0 \<longrightarrow> bit (cell_at maze' a) 0 = bit (cell_at maze a) 0)
     \<and> (\<forall>a. in_grid maze a \<and> fst a = maze_width maze - 1
            \<longrightarrow> bit (cell_at maze' a) 1 = bit (cell_at maze a) 1)
     \<and> (\<forall>a b. in_grid maze a \<and> is_pattern (cell_at maze a) \<and> open_between maze' a b
            \<longrightarrow> open_between maze a b)
     \<and> (\<forall>a b. open_between maze a b \<longrightarrow> open_between maze' a b)
     \<and> (connected_maze maze \<longrightarrow> connected_maze maze')"
proof -
  from do_not_prefect_rel[OF assms, of p g] obtain maze' g' where
    d: "do_not_prefect maze p g = Some (maze', g')" and r: "inject_rel maze maze'" by blast
  have a: "map_option snd (do_not_prefect_animated maze p animated g) = Some (maze', g')"
    using d by (simp add: do_not_prefect_animated_result)
  have s: "rectangular maze'" "maze_width maze' = maze_width maze" "maze_height maze' = maze_height maze"
    using r by (simp_all add: inject_rel_def)
  have b1: "\<forall>a n. in_grid maze a \<and> bit (cell_at maze' a) n \<longrightarrow> bit (cell_at maze a) n"
    using r unfolding inject_rel_def by blast
  have b2: "\<forall>a n. in_grid maze a \<and> 2 \<le> n \<and> n < 16 \<longrightarrow> bit (cell_at maze' a) n = bit (cell_at maze a) n"
    using r unfolding inject_rel_def by blast
  have b3: "\<forall>a n. in_grid maze a \<and> 0 \<le> cell_at maze a \<and> cell_at maze a < 65536 \<and> 2 \<le> n
            \<longrightarrow> bit (cell_at maze' a) n = bit (cell_at maze a) n"
  proof (intro allI impI)
    fix a and n :: nat
    assume h: "in_grid maze a \<and> 0 \<le> cell_at maze a \<and> cell_at maze a < 65536 \<and> 2 \<le> n"
    show "bit (cell_at maze' a) n = bit (cell_at maze a) n"
    proof (cases "n < 16")
      case True
      with h b2 show ?thesis by blast
    next
      case False
      with h have "\<not> bit (cell_at maze a) n" by (intro bit_below_16) simp_all
      with h b1 show ?thesis by blast
    qed
  qed
  show ?thesis
    using d a s b1 b2 b3 inject_rel_boundary[OF r] inject_rel_pattern_wall[OF r] inject_rel_open[OF r]
      inject_rel_connected[OF r]
    by blast
qed

theorem do_not_prefect_only_opens_witness:
  "map_option fst (do_not_prefect [[25, 19], [17, 22]]
       ((mk_params 2 2 (1, 1) (0, 0))\<lparr>probability_to_del_dead_end := 100\<rparr>) (\<lambda>n. 0))
     = Some [[25, 19], [16, 22]]
   \<and> (\<exists>maze' g'. do_not_prefect [[25, 19], [17, 22]]
       ((mk_params 2 2 (1, 1) (0, 0))\<lparr>probability_to_del_dead_end := 100\<rparr>) (\<lambda>n. 0) = Some (maze', g')
     \<and> map_option snd (do_not_prefect_animated [[25, 19], [17, 22]]
       ((mk_params 2 2 (1, 1) (0, 0))\<lparr>probability_to_del_dead_end := 100\<rparr>) True (\<lambda>n. 0))
       = Some (maze', g')
     \<and> (\<forall>a b. open_between [[25, 19], [17, 22]] a b \<longrightarrow> open_between maze' a b))"
proof -
  have r: "rectangular [[25, 19], [17, 22]]" by code_simp
  have e: "map_option fst (do_not_prefect [[25, 19], [17, 22]]
       ((mk_params 2 2 (1, 1) (0, 0))\<lparr>probability_to_del_dead_end := 100\<rparr>) (\<lambda>n. 0))
     = Some [[25, 19], [16, 22]]" by code_simp
  from do_not_prefect_only_opens[OF r,
      of "(mk_params 2 2 (1, 1) (0, 0))\<lparr>probability_to_del_dead_end := 100\<rparr>" "\<lambda>n. 0" True] e
  show ?thesis by blast
qed

text \<open>
  The claim as stated has the injector clear wall bits only.  A cell may hold a bit from 16
  up (nothing in \<open>do_not_prefect\<close> asks for a cell below \<open>0x10000\<close>); the mask that opens
  its top wall clears that bit too: \<open>65553 = 0x10011\<close> becomes \<open>16 = 0x10\<close>.
\<close>

theorem do_not_prefect_clears_high_bits_counterexample:
  "map_option fst (do_not_prefect [[25, 19], [65553, 22]]
       ((mk_params 2 2 (1, 1) (0, 0))\<lparr>probability_to_del_dead_end := 100\<rparr>) (\<lambda>n. 0))
     = Some [[25, 19], [16, 22]]
   \<and> bit (65553 :: int) 16 \<and> \<not> bit (16 :: int) 16"
  by code_simp


section \<open>The animated carver\<close>

text \<open>
  \<open>gen_DFS_animated\<close> is a generator with the loop of \<open>gen_DFS\<close>. A run of the body that
  carves ends with \<open>yield (x - 1, y - 1, x + 1, y + 1)\<close> when \<open>animated\<close> is set (a run that
  pops the frame leaves the body by \<open>continue\<close>, before the \<open>yield\<close>), and the generator ends
  with \<open>yield None\<close>. The grid is changed in place, so what the consumer can read at a yield
  is the value yielded and the grid at that moment: a yield is recorded as this pair.
\<close>

type_synonym yield = "area option \<times> maze"

definition gen_DFS_animated_body ::
  "CMazeParams \<Rightarrow> bool \<Rightarrow> maze \<times> frame list \<times> rng
     \<Rightarrow> (yield list \<times> maze \<times> frame list \<times> rng) option" where
  "gen_DFS_animated_body p animated s =
     (case s of
        (maze, [], g) \<Rightarrow> None
      | (maze, (x, y, q0) # rest, g) \<Rightarrow> do {
          q \<leftarrow> gen_DFS_walls maze p x y q0;
          if q = 0 then Some ([], maze, rest, g)
          else do {
            (chosen_wall, g') \<leftarrow> random_choice (wall_list q) g;
            (maze', m_path') \<leftarrow> gen_DFS_carve maze x y q rest chosen_wall;
            Some (if animated then [(Some (x - 1, y - 1, x + 1, y + 1), maze')] else [],
                  maze', m_path', g') } })"

lemma gen_DFS_animated_body_result:
  "map_option snd (gen_DFS_animated_body p animated s) = gen_DFS_body p s"
proof -
  obtain maze st g where s: "s = (maze, st, g)" by (cases s)
  show ?thesis
  proof (cases st)
    case Nil
    then show ?thesis by (simp add: s gen_DFS_animated_body_def gen_DFS_body_def)
  next
    case (Cons f rest)
    obtain x y q0 where f: "f = (x, y, q0)" by (cases f)
    show ?thesis
    proof (cases "gen_DFS_walls maze p x y q0")
      case None
      then show ?thesis by (simp add: s Cons f gen_DFS_animated_body_def gen_DFS_body_def)
    next
      case (Some q)
      show ?thesis
      proof (cases "random_choice (wall_list q) g")
        case None
        then show ?thesis using Some
          by (simp add: s Cons f gen_DFS_animated_body_def gen_DFS_body_def)
      next
        case (Some wg)
        obtain w g' where wg: "wg = (w, g')" by (cases wg)
        show ?thesis
        proof (cases "gen_DFS_carve maze x y q rest w")
          case None
          then show ?thesis using Some \<open>gen_DFS_walls maze p x y q0 = Some q\<close>
            by (simp add: s Cons f wg gen_DFS_animated_body_def gen_DFS_body_def)
        next
          case (Some mp)
          obtain m' p' where mp: "mp = (m', p')" by (cases mp)
          show ?thesis
            using Some \<open>random_choice (wall_list q) g = Some wg\<close>
              \<open>gen_DFS_walls maze p x y q0 = Some q\<close>
            by (simp add: s Cons f wg mp gen_DFS_animated_body_def gen_DFS_body_def)
        qed
      qed
    qed
  qed
qed

lemma gen_DFS_animated_body_measure:
  assumes "gen_DFS_animated_body p animated s = Some (ys, s')"
  shows "gen_DFS_measure s' < gen_DFS_measure s"
proof -
  from assms have "gen_DFS_body p s = Some s'"
    unfolding gen_DFS_animated_body_result[of p animated s, symmetric] by simp
  then show ?thesis by (rule gen_DFS_body_measure)
qed

function gen_DFS_animated_loop ::
  "CMazeParams \<Rightarrow> bool \<Rightarrow> maze \<times> frame list \<times> rng \<Rightarrow> (yield list \<times> maze \<times> rng) option" where
  "gen_DFS_animated_loop p animated s =
     (case s of (maze, m_path, g) \<Rightarrow>
        if m_path = [] then Some ([(None, maze)], maze, g)
        else (case gen_DFS_animated_body p animated s of
                None \<Rightarrow> None
              | Some (ys, s') \<Rightarrow>
                  map_option (\<lambda>(zs, r). (ys @ zs, r)) (gen_DFS_animated_loop p animated s')))"
  by pat_completeness auto
termination
  by (relation "measure (\<lambda>(p, a, s). gen_DFS_measure s)")
     (auto simp add: gen_DFS_animated_body_measure)

declare gen_DFS_animated_loop.simps [simp del]

definition gen_DFS_animated ::
  "maze \<Rightarrow> CMazeParams \<Rightarrow> bool \<Rightarrow> rng \<Rightarrow> (yield list \<times> maze \<times> rng) option" where
  "gen_DFS_animated maze p animated g =
     (case exit p of (x, y) \<Rightarrow> do {
        c \<leftarrow> mget maze x y;
        m \<leftarrow> mset maze x y (c OR 0x10);
        gen_DFS_animated_loop p animated (m, [(x, y, 0xf)], g) })"

lemma gen_DFS_animated_loop_result:
  "map_option snd (gen_DFS_animated_loop p animated s) = gen_DFS_loop p s"
proof (induction p animated s rule: gen_DFS_animated_loop.induct)
  case (1 p animated s)
  obtain maze st g where s: "s = (maze, st, g)" by (cases s)
  show ?case
  proof (cases "st = []")
    case True
    then show ?thesis
      by (simp add: s gen_DFS_animated_loop.simps[of p animated "(maze, [], g)"]
          gen_DFS_loop.simps[of p "(maze, [], g)"])
  next
    case False
    show ?thesis
    proof (cases "gen_DFS_animated_body p animated s")
      case None
      then have "gen_DFS_body p s = None"
        unfolding gen_DFS_animated_body_result[of p animated s, symmetric] by simp
      with None False show ?thesis
        by (simp add: s gen_DFS_animated_loop.simps[of p animated "(maze, st, g)"]
            gen_DFS_loop.simps[of p "(maze, st, g)"])
    next
      case (Some r)
      obtain ys s' where r: "r = (ys, s')" by (cases r)
      from Some r have b: "gen_DFS_body p s = Some s'"
        unfolding gen_DFS_animated_body_result[of p animated s, symmetric] by simp
      have ih: "map_option snd (gen_DFS_animated_loop p animated s') = gen_DFS_loop p s'"
        using "1.IH"[OF s[symmetric] refl False] Some r by simp
      have "map_option snd (map_option (\<lambda>(zs, r). (ys @ zs, r)) (gen_DFS_animated_loop p animated s'))
            = map_option snd (gen_DFS_animated_loop p animated s')"
        by (cases "gen_DFS_animated_loop p animated s'") auto
      with ih Some r b False show ?thesis
        by (simp add: s gen_DFS_animated_loop.simps[of p animated "(maze, st, g)"]
            gen_DFS_loop.simps[of p "(maze, st, g)"])
    qed
  qed
qed

lemma gen_DFS_animated_result:
  "map_option snd (gen_DFS_animated maze p animated g) = gen_DFS maze p g"
proof -
  obtain x y where e: "exit p = (x, y)" by (cases "exit p")
  show ?thesis
  proof (cases "mget maze x y")
    case None
    then show ?thesis by (simp add: gen_DFS_animated_def gen_DFS_def e)
  next
    case (Some c)
    show ?thesis
    proof (cases "mset maze x y (c OR 0x10)")
      case None
      then show ?thesis using Some by (simp add: gen_DFS_animated_def gen_DFS_def e)
    next
      case (Some m)
      then show ?thesis using \<open>mget maze x y = Some c\<close>
        by (simp add: gen_DFS_animated_def gen_DFS_def e gen_DFS_animated_loop_result)
    qed
  qed
qed


text \<open>
  The box of one cell of margin around a cell, and what a consumer finds at the yield of a
  box: the grid has kept its shape, it differs from the grid of the yield before, the box
  is the one around a cell of the grid, and every cell that has changed lies inside the box.
\<close>

definition box_of :: "coord \<Rightarrow> area" where
  "box_of c = (fst c - 1, snd c - 1, fst c + 1, snd c + 1)"

definition inside :: "area \<Rightarrow> coord \<Rightarrow> bool" where
  "inside b c = (case b of (x0, y0, x1, y1) \<Rightarrow> x0 \<le> fst c \<and> fst c \<le> x1 \<and> y0 \<le> snd c \<and> snd c \<le> y1)"

definition carve_redraw :: "maze \<Rightarrow> maze \<Rightarrow> area \<Rightarrow> bool" where
  "carve_redraw m m' b \<longleftrightarrow>
     rectangular m' \<and> maze_width m' = maze_width m \<and> maze_height m' = maze_height m
     \<and> m' \<noteq> m
     \<and> list_ex (\<lambda>c. b = box_of c) (all_cells m)
     \<and> list_all (\<lambda>c. cell_at m' c = cell_at m c \<or> inside b c) (all_cells m)"

text \<open>
  A sequence of yields seen from a grid \<open>m\<close>: boxes, each as above with respect to the grid
  of the yield before it, and then \<open>None\<close> at the grid \<open>mf\<close>, with nothing changed since the
  last box.
\<close>

fun redraw_ok :: "maze \<Rightarrow> yield list \<Rightarrow> maze \<Rightarrow> bool" where
  "redraw_ok m [] mf = False"
| "redraw_ok m ((None, m') # ys) mf = (ys = [] \<and> m' = m \<and> mf = m)"
| "redraw_ok m ((Some b, m') # ys) mf = (carve_redraw m m' b \<and> redraw_ok m' ys mf)"

definition stack_inv :: "CMazeParams \<Rightarrow> maze \<Rightarrow> frame list \<Rightarrow> bool" where
  "stack_inv p m st \<longleftrightarrow>
     rectangular m \<and> maze_width m = width p \<and> maze_height m = height p
     \<and> (\<forall>f \<in> set st. in_grid m (frame_xy f) \<and> (\<forall>n. bit (snd (snd f)) n \<longrightarrow> n < 4))"

lemma carve_redraw_carved:
  assumes r: "rectangular m" and g: "in_grid m a" and nb: "in_grid m (dir_nb w a)"
    and w: "w \<in> {1, 2, 4, 8}" and c: "carvable (cell_at m (dir_nb w a))"
  shows "carve_redraw m (carved m w a) (box_of a)"
proof -
  have "bit (cell_at (carved m w a) (dir_nb w a)) 4"
    using bit_carved(1)[OF r g nb nb] by simp
  moreover have "\<not> bit (cell_at m (dir_nb w a)) 4" using c by (simp add: carvable_iff)
  ultimately have ne: "carved m w a \<noteq> m" by auto
  have ex: "list_ex (\<lambda>c. box_of a = box_of c) (all_cells m)"
    unfolding list_ex_iff set_all_cells using g by blast
  have ins: "inside (box_of a) (dir_nb w a)" "inside (box_of a) a"
    using w by (auto simp add: inside_def box_of_def dir_nb_def)
  then have io: "inside (box_of a) (dir_owner w a)" by (simp add: dir_owner_def)
  have al: "list_all (\<lambda>c. cell_at (carved m w a) c = cell_at m c \<or> inside (box_of a) c) (all_cells m)"
    unfolding list_all_iff set_all_cells
  proof
    fix b assume "b \<in> {a. in_grid m a}"
    then have b: "in_grid m b" by simp
    show "cell_at (carved m w a) b = cell_at m b \<or> inside (box_of a) b"
      using cell_at_carved[OF r g nb b] ins io by (auto simp add: Let_def)
  qed
  show ?thesis unfolding carve_redraw_def using r ne ex al by simp
qed

lemma gen_DFS_animated_body_step:
  assumes inv: "stack_inv p m ((x, y, q0) # rest)"
  shows "\<exists>ys m' st' g'. gen_DFS_animated_body p animated (m, (x, y, q0) # rest, g)
                            = Some (ys, m', st', g')
     \<and> stack_inv p m' st'
     \<and> (m' = m \<and> ys = []
        \<or> carve_redraw m m' (box_of (x, y))
          \<and> ys = (if animated then [(Some (box_of (x, y)), m')] else []))"
proof -
  from inv have r: "rectangular m" and wd: "maze_width m = width p" and ht: "maze_height m = height p"
    and g: "in_grid m (x, y)" and b4: "\<And>n. bit q0 n \<Longrightarrow> n < 4"
    and rs: "\<forall>f \<in> set rest. in_grid m (frame_xy f) \<and> (\<forall>n. bit (snd (snd f)) n \<longrightarrow> n < 4)"
    by (auto simp add: stack_inv_def frame_xy_def)
  from gen_DFS_walls_grid[OF r g wd ht] obtain q where q: "gen_DFS_walls m p x y q0 = Some q"
    by blast
  show ?thesis
  proof (cases "q = 0")
    case True
    have "stack_inv p m rest" using r wd ht rs by (simp add: stack_inv_def)
    with True q show ?thesis by (simp add: gen_DFS_animated_body_def)
  next
    case False
    have q4: "\<forall>n. bit q n \<longrightarrow> n < 4" using gen_DFS_walls_sound(1)[OF q] b4 by blast
    from nonzero_dir[OF False this] have ne: "wall_list q \<noteq> []"
      using wall_list_dir[of _ q] by fastforce
    define w where "w = wall_list q ! (g 0 mod length (wall_list q))"
    have rc: "random_choice (wall_list q) g = Some (w, rng_tail g)"
      using ne by (simp add: random_choice_def w_def)
    have "w \<in> set (wall_list q)" using ne by (simp add: w_def)
    then have w: "w \<in> {1, 2, 4, 8}" "bit q (dir_idx w)" by (simp_all add: wall_list_dir)
    from gen_DFS_walls_sound(2)[OF q dir_idx_less w(2)]
    have "passable m p x y (dir_idx w)" .
    then have nb: "in_grid m (dir_nb w (x, y))" and cv: "carvable (cell_at m (dir_nb w (x, y)))"
      unfolding passable_grid[OF r g wd ht w(1)] by simp_all
    note cg = gen_DFS_carve_grid[OF r w(1) g nb, of q rest]
    note cr = carve_redraw_carved[OF r g nb w(1) cv]
    have "\<forall>n. bit (q AND (15 - w)) n \<longrightarrow> n < 4" using q4 by (auto simp add: bit_and_iff)
    then have "stack_inv p (carved m w (x, y))
        ((fst (dir_nb w (x, y)), snd (dir_nb w (x, y)), 0xf) # (x, y, q AND (15 - w)) # rest)"
      using r wd ht rs g nb by (simp add: stack_inv_def frame_xy_def bit_15)
    with cg cr False q rc show ?thesis
      by (simp add: gen_DFS_animated_body_def box_of_def)
  qed
qed

lemma gen_DFS_animated_loop_redraw:
  "stack_inv p (fst s) (fst (snd s)) \<Longrightarrow>
   \<exists>ys m' g'. gen_DFS_animated_loop p True s = Some (ys, m', g') \<and> redraw_ok (fst s) ys m'
      \<and> gen_DFS_animated_loop p False s = Some ([(None, m')], m', g')"
proof (induction s rule: measure_induct_rule[of gen_DFS_measure])
  case (less s)
  obtain m st g where s: "s = (m, st, g)" by (cases s)
  show ?case
  proof (cases st)
    case Nil
    then show ?thesis
      by (simp add: s gen_DFS_animated_loop.simps[of p _ "(m, [], g)"])
  next
    case (Cons f rest)
    obtain x y q0 where f: "f = (x, y, q0)" by (cases f)
    from less.prems have inv: "stack_inv p m ((x, y, q0) # rest)" by (simp add: s Cons f)
    from gen_DFS_animated_body_step[OF inv, of True g] obtain ys m1 st1 g1 where
      bt: "gen_DFS_animated_body p True (m, (x, y, q0) # rest, g) = Some (ys, m1, st1, g1)"
      and i1: "stack_inv p m1 st1"
      and d: "m1 = m \<and> ys = [] \<or> carve_redraw m m1 (box_of (x, y))
                \<and> ys = [(Some (box_of (x, y)), m1)]"
      by auto
    have bb: "gen_DFS_body p (m, (x, y, q0) # rest, g) = Some (m1, st1, g1)"
      using bt unfolding gen_DFS_animated_body_result[of p True, symmetric] by simp
    from gen_DFS_animated_body_step[OF inv, of False g] bb obtain ys' where
      bf: "gen_DFS_animated_body p False (m, (x, y, q0) # rest, g) = Some (ys', m1, st1, g1)"
      and d': "ys' = []"
      unfolding gen_DFS_animated_body_result[of p False, symmetric] by auto
    have "gen_DFS_measure (m1, st1, g1) < gen_DFS_measure s"
      using gen_DFS_body_measure[OF bb] by (simp add: s Cons f)
    from less.IH[OF this] i1 obtain zs m' g' where
      l: "gen_DFS_animated_loop p True (m1, st1, g1) = Some (zs, m', g')"
      and ro: "redraw_ok m1 zs m'"
      and lf: "gen_DFS_animated_loop p False (m1, st1, g1) = Some ([(None, m')], m', g')"
      by auto
    have t: "gen_DFS_animated_loop p True s = Some (ys @ zs, m', g')"
      using bt l by (simp add: s Cons f gen_DFS_animated_loop.simps[of p True "(m, (x, y, q0) # rest, g)"])
    have fl: "gen_DFS_animated_loop p False s = Some ([(None, m')], m', g')"
      using bf lf d'
      by (simp add: s Cons f gen_DFS_animated_loop.simps[of p False "(m, (x, y, q0) # rest, g)"])
    have "redraw_ok m (ys @ zs) m'" using d ro by auto
    with t fl show ?thesis by (simp add: s)
  qed
qed

subsection \<open>The yields against the run of the carver\<close>

text \<open>
  The states of the loop of \<open>gen_DFS\<close>, in order: the grid, \<open>m_path\<close> and the generator
  before each run of the body, and when the loop is left. \<open>gen_DFS_run\<close> is \<open>gen_DFS\<close>
  with its states kept.
\<close>

type_synonym carver_state = "maze \<times> frame list \<times> rng"

function gen_DFS_states :: "CMazeParams \<Rightarrow> carver_state \<Rightarrow> carver_state list option" where
  "gen_DFS_states p s =
     (case s of (maze, m_path, g) \<Rightarrow>
        if m_path = [] then Some [s]
        else (case gen_DFS_body p s of
                None \<Rightarrow> None
              | Some s' \<Rightarrow> map_option (Cons s) (gen_DFS_states p s')))"
  by pat_completeness auto
termination
  by (relation "measure (\<lambda>(p, s). gen_DFS_measure s)") (auto simp add: gen_DFS_body_measure)

declare gen_DFS_states.simps [simp del]

definition gen_DFS_run :: "maze \<Rightarrow> CMazeParams \<Rightarrow> rng \<Rightarrow> carver_state list option" where
  "gen_DFS_run maze p g =
     (case exit p of (x, y) \<Rightarrow> do {
        c \<leftarrow> mget maze x y;
        m \<leftarrow> mset maze x y (c OR 0x10);
        gen_DFS_states p (m, [(x, y, 0xf)], g) })"

definition run_result :: "carver_state list \<Rightarrow> maze \<times> rng" where
  "run_result ss = (fst (last ss), snd (snd (last ss)))"

text \<open>
  What the animated variant is to yield, read off the run of \<open>gen_DFS\<close>: a carve step is
  a run of the body that pushes a frame (a run that finds no wall to open pops one). After
  each carve step, the box of one cell of margin around the cell of the frame the step
  worked on, with the grid as the step leaves it; at the end \<open>None\<close>.
\<close>

fun carve_yields :: "carver_state list \<Rightarrow> yield list" where
  "carve_yields (s # s' # rest) =
     (if length (fst (snd s')) > length (fst (snd s))
      then [(Some (box_of (frame_xy (hd (fst (snd s))))), fst s')] else [])
     @ carve_yields (s' # rest)"
| "carve_yields [s] = [(None, fst s)]"
| "carve_yields [] = []"

lemma gen_DFS_states_hd:
  assumes "gen_DFS_states p s = Some ss"
  shows "\<exists>rest. ss = s # rest"
proof -
  obtain m st g where s: "s = (m, st, g)" by (cases s)
  show ?thesis
  proof (cases "st = []")
    case True
    with assms show ?thesis by (auto simp add: s gen_DFS_states.simps[of p "(m, [], g)"])
  next
    case False
    with assms show ?thesis
      by (auto simp add: s gen_DFS_states.simps[of p "(m, st, g)"] split: option.splits)
  qed
qed

lemma gen_DFS_loop_states:
  "gen_DFS_loop p s = map_option run_result (gen_DFS_states p s)"
proof (induction s rule: measure_induct_rule[of gen_DFS_measure])
  case (less s)
  obtain m st g where s: "s = (m, st, g)" by (cases s)
  show ?case
  proof (cases "st = []")
    case True
    then show ?thesis
      by (simp add: s gen_DFS_loop.simps[of p "(m, [], g)"] gen_DFS_states.simps[of p "(m, [], g)"]
          run_result_def)
  next
    case False
    show ?thesis
    proof (cases "gen_DFS_body p s")
      case None
      with False show ?thesis
        by (simp add: s gen_DFS_loop.simps[of p "(m, st, g)"] gen_DFS_states.simps[of p "(m, st, g)"])
    next
      case (Some s')
      from gen_DFS_body_measure[OF Some] have ih: "gen_DFS_loop p s' = map_option run_result (gen_DFS_states p s')"
        by (rule less.IH)
      have l: "gen_DFS_loop p s = gen_DFS_loop p s'"
        using False Some by (simp add: s gen_DFS_loop.simps[of p "(m, st, g)"])
      have t: "gen_DFS_states p s = map_option (Cons s) (gen_DFS_states p s')"
        using False Some by (simp add: s gen_DFS_states.simps[of p "(m, st, g)"])
      show ?thesis
      proof (cases "gen_DFS_states p s'")
        case None
        with l t ih show ?thesis by simp
      next
        case (Some ss)
        from gen_DFS_states_hd[OF this] obtain rest where "ss = s' # rest" by blast
        with l t ih Some show ?thesis by (simp add: run_result_def)
      qed
    qed
  qed
qed

lemma gen_DFS_carve_length:
  assumes "w \<in> {1, 2, 4, 8}" "gen_DFS_carve m x y q rest w = Some (m', st')"
  shows "length st' = length rest + 2"
  using assms(2) unfolding gen_DFS_carve_dir[OF assms(1)]
  by (auto simp add: bind_eq_Some_conv)

lemma gen_DFS_animated_body_yields:
  assumes "gen_DFS_animated_body p animated s = Some (ys, s')"
  shows "ys = (if animated \<and> length (fst (snd s')) > length (fst (snd s))
               then [(Some (box_of (frame_xy (hd (fst (snd s))))), fst s')] else [])"
proof -
  obtain m st g where s: "s = (m, st, g)" by (cases s)
  from assms obtain f rest where st: "st = f # rest"
    by (cases st) (simp_all add: s gen_DFS_animated_body_def)
  obtain x y q0 where f: "f = (x, y, q0)" by (cases f)
  from assms obtain q where q: "gen_DFS_walls m p x y q0 = Some q"
    and r: "(if q = 0 then Some ([], m, rest, g)
          else do {
            (chosen_wall, g') \<leftarrow> random_choice (wall_list q) g;
            (maze', m_path') \<leftarrow> gen_DFS_carve m x y q rest chosen_wall;
            Some (if animated then [(Some (x - 1, y - 1, x + 1, y + 1), maze')] else [],
                  maze', m_path', g') }) = Some (ys, s')"
    by (auto simp add: s st f gen_DFS_animated_body_def bind_eq_Some_conv)
  show ?thesis
  proof (cases "q = 0")
    case True
    with r show ?thesis by (auto simp add: s st)
  next
    case False
    with r obtain w g' m' st' where
      w: "random_choice (wall_list q) g = Some (w, g')"
      and c: "gen_DFS_carve m x y q rest w = Some (m', st')"
      and e: "ys = (if animated then [(Some (x - 1, y - 1, x + 1, y + 1), m')] else [])"
        "s' = (m', st', g')"
      by (auto simp add: bind_eq_Some_conv)
    from random_choice_mem[OF w] have "w \<in> {1, 2, 4, 8}" by (auto simp add: wall_list_set)
    from gen_DFS_carve_length[OF this c] e show ?thesis
      by (simp add: s st f box_of_def frame_xy_def)
  qed
qed

lemma gen_DFS_animated_loop_states:
  "gen_DFS_animated_loop p animated s =
     map_option (\<lambda>ss. (if animated then carve_yields ss else [(None, fst (last ss))], run_result ss))
       (gen_DFS_states p s)"
proof (induction s rule: measure_induct_rule[of gen_DFS_measure])
  case (less s)
  obtain m st g where s: "s = (m, st, g)" by (cases s)
  show ?case
  proof (cases "st = []")
    case True
    then show ?thesis
      by (simp add: s gen_DFS_animated_loop.simps[of p animated "(m, [], g)"]
          gen_DFS_states.simps[of p "(m, [], g)"] run_result_def)
  next
    case False
    show ?thesis
    proof (cases "gen_DFS_animated_body p animated s")
      case None
      then have "gen_DFS_body p s = None"
        unfolding gen_DFS_animated_body_result[of p animated s, symmetric] by simp
      with None False show ?thesis
        by (simp add: s gen_DFS_animated_loop.simps[of p animated "(m, st, g)"]
            gen_DFS_states.simps[of p "(m, st, g)"])
    next
      case (Some r)
      obtain ys s' where r: "r = (ys, s')" by (cases r)
      from Some r have ab: "gen_DFS_animated_body p animated s = Some (ys, s')" by simp
      then have b: "gen_DFS_body p s = Some s'"
        unfolding gen_DFS_animated_body_result[of p animated s, symmetric] by simp
      note ys = gen_DFS_animated_body_yields[OF ab]
      from gen_DFS_body_measure[OF b] have ih: "gen_DFS_animated_loop p animated s' =
         map_option (\<lambda>ss. (if animated then carve_yields ss else [(None, fst (last ss))], run_result ss))
           (gen_DFS_states p s')"
        by (rule less.IH)
      have l: "gen_DFS_animated_loop p animated s =
          map_option (\<lambda>(zs, r). (ys @ zs, r)) (gen_DFS_animated_loop p animated s')"
        using False ab by (simp add: s gen_DFS_animated_loop.simps[of p animated "(m, st, g)"])
      have t: "gen_DFS_states p s = map_option (Cons s) (gen_DFS_states p s')"
        using False b by (simp add: s gen_DFS_states.simps[of p "(m, st, g)"])
      show ?thesis
      proof (cases "gen_DFS_states p s'")
        case None
        with l t ih show ?thesis by simp
      next
        case (Some ss)
        from gen_DFS_states_hd[OF this] obtain rest where ss: "ss = s' # rest" by blast
        have cy: "animated \<Longrightarrow> carve_yields (s # s' # rest) = ys @ carve_yields (s' # rest)"
          using ys by simp
        have ny: "\<not> animated \<Longrightarrow> ys = []" using ys by simp
        show ?thesis
          unfolding l t ih Some ss using cy ny by (simp add: run_result_def)
      qed
    qed
  qed
qed

lemma gen_DFS_run_result: "gen_DFS maze p g = map_option run_result (gen_DFS_run maze p g)"
proof -
  obtain x y where e: "exit p = (x, y)" by (cases "exit p")
  show ?thesis
  proof (cases "mget maze x y")
    case None
    then show ?thesis by (simp add: gen_DFS_def gen_DFS_run_def e)
  next
    case (Some c)
    show ?thesis
    proof (cases "mset maze x y (c OR 0x10)")
      case None
      then show ?thesis using Some by (simp add: gen_DFS_def gen_DFS_run_def e)
    next
      case (Some m)
      then show ?thesis using \<open>mget maze x y = Some c\<close>
        by (simp add: gen_DFS_def gen_DFS_run_def e gen_DFS_loop_states)
    qed
  qed
qed

lemma gen_DFS_animated_run:
  "gen_DFS_animated maze p animated g =
     map_option (\<lambda>ss. (if animated then carve_yields ss else [(None, fst (last ss))], run_result ss))
       (gen_DFS_run maze p g)"
proof -
  obtain x y where e: "exit p = (x, y)" by (cases "exit p")
  show ?thesis
  proof (cases "mget maze x y")
    case None
    then show ?thesis by (simp add: gen_DFS_animated_def gen_DFS_run_def e)
  next
    case (Some c)
    show ?thesis
    proof (cases "mset maze x y (c OR 0x10)")
      case None
      then show ?thesis using Some by (simp add: gen_DFS_animated_def gen_DFS_run_def e)
    next
      case (Some m)
      then show ?thesis using \<open>mget maze x y = Some c\<close>
        by (simp add: gen_DFS_animated_def gen_DFS_run_def e gen_DFS_animated_loop_states)
    qed
  qed
qed

text \<open>
  Claim C9. For every grid, parameter record, value of \<open>animated\<close> and stream of draws,
  \<open>gen_DFS_animated\<close> run to its end leaves the grid, and the rest of the stream, that
  \<open>gen_DFS\<close> returns (and fails where it fails). With \<open>animated\<close> set its yields are those
  read off the run of \<open>gen_DFS\<close>: one per carve step, the box \<open>(x - 1, y - 1, x + 1, y + 1)\<close>
  around the cell \<open>(x, y)\<close> of the frame the step worked on, and a last \<open>None\<close>; with
  \<open>animated\<close> unset the only yield is the last \<open>None\<close>. On a rectangular grid of the
  dimensions of the parameters, with the exit in the grid, both return, and the box of a
  yield holds every cell that has changed since the yield before it (the first box is read
  against the grid with the visited flag of the exit set, which happens before the loop).
\<close>

theorem gen_DFS_animated_refines:
  "map_option snd (gen_DFS_animated maze p animated g) = gen_DFS maze p g
   \<and> gen_DFS maze p g = map_option run_result (gen_DFS_run maze p g)
   \<and> gen_DFS_animated maze p True g
       = map_option (\<lambda>ss. (carve_yields ss, run_result ss)) (gen_DFS_run maze p g)
   \<and> gen_DFS_animated maze p False g
       = map_option (\<lambda>ss. ([(None, fst (last ss))], run_result ss)) (gen_DFS_run maze p g)
   \<and> (rectangular maze \<and> maze_width maze = width p \<and> maze_height maze = height p
        \<and> in_grid maze (exit p) \<longrightarrow>
      (\<exists>ys maze' g'. gen_DFS_animated maze p True g = Some (ys, maze', g')
         \<and> gen_DFS maze p g = Some (maze', g')
         \<and> redraw_ok (put maze (exit p) (cell_at maze (exit p) OR 0x10)) ys maze'
         \<and> gen_DFS_animated maze p False g = Some ([(None, maze')], maze', g')))"
proof (intro conjI impI)
  show "map_option snd (gen_DFS_animated maze p animated g) = gen_DFS maze p g"
    by (rule gen_DFS_animated_result)
next
  show "gen_DFS maze p g = map_option run_result (gen_DFS_run maze p g)"
    by (rule gen_DFS_run_result)
next
  show "gen_DFS_animated maze p True g
       = map_option (\<lambda>ss. (carve_yields ss, run_result ss)) (gen_DFS_run maze p g)"
    using gen_DFS_animated_run[of maze p True g] by simp
next
  show "gen_DFS_animated maze p False g
       = map_option (\<lambda>ss. ([(None, fst (last ss))], run_result ss)) (gen_DFS_run maze p g)"
    using gen_DFS_animated_run[of maze p False g] by simp
next
  assume a: "rectangular maze \<and> maze_width maze = width p \<and> maze_height maze = height p
        \<and> in_grid maze (exit p)"
  obtain x y where e: "exit p = (x, y)" by (cases "exit p")
  define m0 where "m0 = put maze (exit p) (cell_at maze (exit p) OR 0x10)"
  from a have r: "rectangular maze" and ig: "in_grid maze (x, y)" by (simp_all add: e)
  have g1: "mget maze x y = Some (cell_at maze (x, y))" using mget_grid[OF r ig] by simp
  have g2: "mset maze x y (cell_at maze (x, y) OR 0x10) = Some m0"
    using mset_grid[OF r ig] by (simp add: m0_def e)
  have "stack_inv p m0 [(x, y, 0xf)]"
    using a by (simp add: stack_inv_def m0_def frame_xy_def bit_15 e)
  from gen_DFS_animated_loop_redraw[of p "(m0, [(x, y, 0xf)], g)"] this
  obtain ys m' g' where
    l: "gen_DFS_animated_loop p True (m0, [(x, y, 0xf)], g) = Some (ys, m', g')"
    and ro: "redraw_ok m0 ys m'"
    and lf: "gen_DFS_animated_loop p False (m0, [(x, y, 0xf)], g) = Some ([(None, m')], m', g')"
    by auto
  have t: "gen_DFS_animated maze p True g = Some (ys, m', g')"
    using l g1 g2 by (simp add: gen_DFS_animated_def e)
  have f: "gen_DFS_animated maze p False g = Some ([(None, m')], m', g')"
    using lf g1 g2 by (simp add: gen_DFS_animated_def e)
  have "gen_DFS maze p g = Some (m', g')"
    using t unfolding gen_DFS_animated_result[of maze p True g, symmetric] by simp
  with t f ro show "\<exists>ys maze' g'. gen_DFS_animated maze p True g = Some (ys, maze', g')
         \<and> gen_DFS maze p g = Some (maze', g')
         \<and> redraw_ok (put maze (exit p) (cell_at maze (exit p) OR 0x10)) ys maze'
         \<and> gen_DFS_animated maze p False g = Some ([(None, maze')], maze', g')"
    unfolding m0_def by blast
qed

theorem gen_DFS_animated_refines_witness:
  "map_option fst
       (gen_DFS_animated [[3, 3], [3, 3]] (mk_params 2 2 (0, 0) (1, 1)) True (\<lambda>n. 0))
     = Some [(Some (0, 0, 2, 2), [[3, 19], [3, 18]]), (Some (0, - 1, 2, 1), [[17, 19], [3, 18]]),
             (Some (- 1, - 1, 1, 1), [[17, 19], [18, 18]]), (None, [[17, 19], [18, 18]])]
   \<and> map_option carve_yields (gen_DFS_run [[3, 3], [3, 3]] (mk_params 2 2 (0, 0) (1, 1)) (\<lambda>n. 0))
     = Some [(Some (0, 0, 2, 2), [[3, 19], [3, 18]]), (Some (0, - 1, 2, 1), [[17, 19], [3, 18]]),
             (Some (- 1, - 1, 1, 1), [[17, 19], [18, 18]]), (None, [[17, 19], [18, 18]])]
   \<and> map_option fst (gen_DFS [[3, 3], [3, 3]] (mk_params 2 2 (0, 0) (1, 1)) (\<lambda>n. 0))
     = Some [[17, 19], [18, 18]]
   \<and> (\<exists>ys maze' g'.
         gen_DFS_animated [[3, 3], [3, 3]] (mk_params 2 2 (0, 0) (1, 1)) True (\<lambda>n. 0)
           = Some (ys, maze', g')
       \<and> gen_DFS [[3, 3], [3, 3]] (mk_params 2 2 (0, 0) (1, 1)) (\<lambda>n. 0) = Some (maze', g')
       \<and> redraw_ok [[3, 3], [3, 19]] ys maze'
       \<and> gen_DFS_animated [[3, 3], [3, 3]] (mk_params 2 2 (0, 0) (1, 1)) False (\<lambda>n. 0)
           = Some ([(None, maze')], maze', g'))"
proof -
  have h: "rectangular [[3, 3], [3, 3]]
      \<and> maze_width [[3, 3], [3, 3]] = width (mk_params 2 2 (0, 0) (1, 1))
      \<and> maze_height [[3, 3], [3, 3]] = height (mk_params 2 2 (0, 0) (1, 1))
      \<and> in_grid [[3, 3], [3, 3]] (exit (mk_params 2 2 (0, 0) (1, 1)))" by code_simp
  have e: "put [[3, 3], [3, 3]] (exit (mk_params 2 2 (0, 0) (1, 1)))
             (cell_at [[3, 3], [3, 3]] (exit (mk_params 2 2 (0, 0) (1, 1))) OR 0x10)
           = [[3, 3], [3, 19]]" by code_simp
  have a: "map_option fst
       (gen_DFS_animated [[3, 3], [3, 3]] (mk_params 2 2 (0, 0) (1, 1)) True (\<lambda>n. 0))
     = Some [(Some (0, 0, 2, 2), [[3, 19], [3, 18]]), (Some (0, - 1, 2, 1), [[17, 19], [3, 18]]),
             (Some (- 1, - 1, 1, 1), [[17, 19], [18, 18]]), (None, [[17, 19], [18, 18]])]"
    by code_simp
  have b: "map_option fst (gen_DFS [[3, 3], [3, 3]] (mk_params 2 2 (0, 0) (1, 1)) (\<lambda>n. 0))
     = Some [[17, 19], [18, 18]]" by code_simp
  note t = gen_DFS_animated_refines[of "[[3, 3], [3, 3]]" "mk_params 2 2 (0, 0) (1, 1)" True "\<lambda>n. 0"]
  from t have "map_option fst
       (gen_DFS_animated [[3, 3], [3, 3]] (mk_params 2 2 (0, 0) (1, 1)) True (\<lambda>n. 0))
     = map_option carve_yields (gen_DFS_run [[3, 3], [3, 3]] (mk_params 2 2 (0, 0) (1, 1)) (\<lambda>n. 0))"
    by (simp add: option.map_comp comp_def)
  with a have c: "map_option carve_yields
       (gen_DFS_run [[3, 3], [3, 3]] (mk_params 2 2 (0, 0) (1, 1)) (\<lambda>n. 0))
     = Some [(Some (0, 0, 2, 2), [[3, 19], [3, 18]]), (Some (0, - 1, 2, 1), [[17, 19], [3, 18]]),
             (Some (- 1, - 1, 1, 1), [[17, 19], [18, 18]]), (None, [[17, 19], [18, 18]])]"
    by simp
  from t h a b c show ?thesis unfolding e by blast
qed

text \<open>
  The claim as stated has the box around the cell just modified, and a yield after each
  carve step. In the run above the step from \<open>(0, 0)\<close> opens the bottom wall: the only cell
  it changes is \<open>(0, 1)\<close> (\<open>maze[1][0]\<close>, from 3 to 18), whose box would be
  \<open>(-1, 0, 1, 2)\<close>; the yield is \<open>(-1, -1, 1, 1)\<close>, the box of the frame's cell \<open>(0, 0)\<close>.
  Called without its third argument (\<open>animated\<close> is \<open>False\<close> by default) the generator
  yields no box at all.
\<close>

theorem gen_DFS_animated_box_counterexample:
  "map_option fst
       (gen_DFS_animated [[3, 3], [3, 3]] (mk_params 2 2 (0, 0) (1, 1)) True (\<lambda>n. 0))
     = Some [(Some (0, 0, 2, 2), [[3, 19], [3, 18]]), (Some (0, - 1, 2, 1), [[17, 19], [3, 18]]),
             (Some (- 1, - 1, 1, 1), [[17, 19], [18, 18]]), (None, [[17, 19], [18, 18]])]
   \<and> box_of (0, 1) = (- 1, 0, 1, 2)
   \<and> box_of (0, 0) = (- 1, - 1, 1, 1)
   \<and> map_option fst
       (gen_DFS_animated [[3, 3], [3, 3]] (mk_params 2 2 (0, 0) (1, 1)) False (\<lambda>n. 0))
     = Some [(None, [[17, 19], [18, 18]])]"
  by code_simp


section \<open>Paths through open connections\<close>

text \<open>
  A sequence of cells in which every cell is a neighbour of the one before it (they differ
  by exactly 1 in exactly one coordinate) and is not separated from it by a wall; and such
  a sequence from the entry to the exit.
\<close>

fun open_path :: "maze \<Rightarrow> coord list \<Rightarrow> bool" where
  "open_path m (a # b # rest) \<longleftrightarrow> adjacent a b \<and> open_between m a b \<and> open_path m (b # rest)"
| "open_path m [a] \<longleftrightarrow> True"
| "open_path m [] \<longleftrightarrow> True"

definition valid_path :: "maze \<Rightarrow> CMazeParams \<Rightarrow> coord list \<Rightarrow> bool" where
  "valid_path m p cs \<longleftrightarrow> cs \<noteq> [] \<and> hd cs = entry p \<and> last cs = exit p \<and> open_path m cs"

lemma open_between_adjacent: "open_between m a b \<Longrightarrow> adjacent a b"
  by (auto simp add: open_between_def wall_of_def adjacent_def split: if_splits)

lemma adjacent_sym: "adjacent a b = adjacent b a"
  by (auto simp add: adjacent_def)

lemma open_path_append:
  "open_path m (xs @ a # ys) \<longleftrightarrow> open_path m (xs @ [a]) \<and> open_path m (a # ys)"
proof (induction xs rule: open_path.induct[of _ m])
  case (1 m a b rest)
  then show ?case by simp
next
  case (2 m x)
  then show ?case by (cases ys) simp_all
next
  case (3 m)
  then show ?case by simp
qed

lemma open_path_snoc:
  "open_path m (xs @ [a, b]) \<longleftrightarrow> open_path m (xs @ [a]) \<and> adjacent a b \<and> open_between m a b"
  using open_path_append[of m xs a "[b]"] by simp

lemma open_path_rev: "open_path m (rev cs) = open_path m cs"
proof (induction cs rule: open_path.induct[of _ m])
  case (1 m a b rest)
  have "open_path m (rev (a # b # rest)) = open_path m (rev rest @ [b, a])" by simp
  also have "\<dots> = (open_path m (rev rest @ [b]) \<and> adjacent b a \<and> open_between m b a)"
    by (rule open_path_snoc)
  also have "\<dots> = (open_path m (b # rest) \<and> adjacent a b \<and> open_between m a b)"
    using 1 by (simp add: adjacent_sym[of a b] open_between_sym[of m a b])
  finally show ?case by auto
qed simp_all

subsection \<open>The path of the breadth-first search\<close>

text \<open>
  On a rectangular grid the local \<open>cell\<close> of \<open>find_path_BFS\<close> has a bit clear only towards
  a neighbour in the grid with no wall between; so every entry of \<open>parent\<close> is an open
  connection, and the path rebuilt from \<open>parent\<close> runs through open connections.
\<close>

lemma bfs_cell_grid:
  assumes r: "rectangular m" and g: "in_grid m (x, y)"
  shows "\<exists>cell. bfs_cell m (maze_height m) (maze_width m) x y = Some cell
     \<and> (\<not> bit cell 0 \<longrightarrow> open_between m (x, y) (x, y - 1))
     \<and> (\<not> bit cell 1 \<longrightarrow> open_between m (x, y) (x + 1, y))
     \<and> (\<not> bit cell 2 \<longrightarrow> open_between m (x, y) (x, y + 1))
     \<and> (\<not> bit cell 3 \<longrightarrow> open_between m (x, y) (x - 1, y))"
proof -
  note d = in_grid_dir_m[OF g]
  have c: "in_grid m (a, b) \<Longrightarrow> mget m a b = Some (cell_at m (a, b))" for a b
    using mget_in_grid[OF r] by simp
  define c0 where "c0 = cell_at m (x, y) AND 3"
  define c1 where "c1 = (if x = 0 \<or> bit (cell_at m (x - 1, y)) 1 then c0 OR 8 else c0)"
  define c2 where "c2 = (if y \<ge> maze_height m - 1 \<or> bit (cell_at m (x, y + 1)) 0 then c1 OR 4 else c1)"
  define c3 where "c3 = (if y = 0 then c2 OR 1 else c2)"
  define c4 where "c4 = (if x \<ge> maze_width m - 1 then c3 OR 2 else c3)"
  have s1: "(if x = 0 then Some (c0 OR 8)
            else Option.bind (mget m (x - 1) y) (\<lambda>l. Some (if l AND 2 \<noteq> 0 then c0 OR 8 else c0)))
           = Some c1"
    using d(4) c[of "x - 1" y] by (simp add: c1_def and_2_bit)
  have s2: "(if y \<ge> maze_height m - 1 then Some (c1 OR 4)
            else Option.bind (mget m x (y + 1)) (\<lambda>b. Some (if b AND 1 \<noteq> 0 then c1 OR 4 else c1)))
           = Some c2"
    using d(3) c[of x "y + 1"] g by (auto simp add: c2_def and_1_bit in_grid_def)
  have e: "bfs_cell m (maze_height m) (maze_width m) x y = Some c4"
    unfolding bfs_cell_def c[OF g] bind.bind_lunit Let_def c0_def[symmetric] s1 s2
    by (simp add: c3_def c4_def)
  have b0: "bit c0 0 = bit (cell_at m (x, y)) 0" "bit c0 1 = bit (cell_at m (x, y)) 1"
    "\<not> bit c0 2" "\<not> bit c0 3"
    by (simp_all add: c0_def bit_and_iff)
  have w: "wall_of (x, y) (x, y - 1) = Some ((x, y), 0)"
    "wall_of (x, y) (x + 1, y) = Some ((x, y), 1)"
    "wall_of (x, y) (x, y + 1) = Some ((x, y + 1), 0)"
    "wall_of (x, y) (x - 1, y) = Some ((x - 1, y), 1)"
    by (simp_all add: wall_of_def)
  have t0: "\<not> bit c4 0 \<Longrightarrow> open_between m (x, y) (x, y - 1)"
    using b0 g d(1) by (auto simp add: c4_def c3_def c2_def c1_def bit_or_iff open_between_def w
        split: if_splits)
  have t1: "\<not> bit c4 1 \<Longrightarrow> open_between m (x, y) (x + 1, y)"
    using b0 g d(2) by (auto simp add: c4_def c3_def c2_def c1_def bit_or_iff open_between_def w
        split: if_splits)
  have t2: "\<not> bit c4 2 \<Longrightarrow> open_between m (x, y) (x, y + 1)"
    using b0 g d(3) by (auto simp add: c4_def c3_def c2_def c1_def bit_or_iff open_between_def w
        split: if_splits)
  have t3: "\<not> bit c4 3 \<Longrightarrow> open_between m (x, y) (x - 1, y)"
    using b0 g d(4) by (auto simp add: c4_def c3_def c2_def c1_def bit_or_iff open_between_def w
        split: if_splits)
  from e t0 t1 t2 t3 show ?thesis by blast
qed

definition bfs_inv :: "maze \<Rightarrow> bfs_search \<Rightarrow> bool" where
  "bfs_inv m s \<longleftrightarrow>
     (case s of (queue, visited, parent) \<Rightarrow>
        (\<forall>c \<in> set queue. in_grid m c) \<and> (\<forall>k v. parent k = Some v \<longrightarrow> open_between m k v))"

lemma bfs_visit_inv:
  assumes "ok \<Longrightarrow> open_between m cur n" "bfs_inv m s"
  shows "bfs_inv m (bfs_visit ok n cur s)"
proof -
  obtain queue visited parent where s: "s = (queue, visited, parent)" by (cases s)
  have "ok \<Longrightarrow> in_grid m n \<and> open_between m n cur"
  proof -
    assume ok
    from assms(1)[OF this] have o: "open_between m cur n" .
    then have "in_grid m n" by (simp add: open_between_def)
    moreover from o have "open_between m n cur" by (subst open_between_sym)
    ultimately show ?thesis by simp
  qed
  with assms(2) show ?thesis by (auto simp add: bfs_inv_def bfs_visit_def s)
qed

lemma bfs_expand_inv:
  assumes r: "rectangular m" and g: "in_grid m (x, y)"
    and c: "bfs_cell m (maze_height m) (maze_width m) x y = Some cell"
    and i: "bfs_inv m s"
  shows "bfs_inv m (bfs_expand (maze_height m) (maze_width m) cell (x, y) s)"
proof -
  from bfs_cell_grid[OF r g] c have
    o: "\<not> bit cell 0 \<Longrightarrow> open_between m (x, y) (x, y - 1)"
       "\<not> bit cell 1 \<Longrightarrow> open_between m (x, y) (x + 1, y)"
       "\<not> bit cell 2 \<Longrightarrow> open_between m (x, y) (x, y + 1)"
       "\<not> bit cell 3 \<Longrightarrow> open_between m (x, y) (x - 1, y)"
    by auto
  have z: "cell AND 1 = 0 \<longleftrightarrow> \<not> bit cell 0" "cell AND 2 = 0 \<longleftrightarrow> \<not> bit cell 1"
    "cell AND 4 = 0 \<longleftrightarrow> \<not> bit cell 2" "cell AND 8 = 0 \<longleftrightarrow> \<not> bit cell 3"
    using and_1_bit[of cell] and_2_bit[of cell] and_4_bit[of cell] and_8_bit[of cell] by auto
  show ?thesis
    unfolding bfs_expand_def prod.case
    by (intro bfs_visit_inv i) (simp_all add: z o)
qed

lemma bfs_reconstruct_path:
  assumes "bfs_reconstruct parent start cur path = Some r"
    and "\<forall>k v. parent k = Some v \<longrightarrow> open_between m k v"
  shows "open_path m (map frame_xy path @ [cur]) \<longrightarrow>
       (\<exists>t. map frame_xy r = rev (map frame_xy path @ cur # t) \<and> last (cur # t) = start
          \<and> open_path m (map frame_xy path @ cur # t))"
  using assms
proof (induction rule: bfs_reconstruct.raw_induct[rotated 1, consumes 1])
  case (1 f parent start cur path r)
  show ?case
  proof (cases "cur = start")
    case True
    with 1(2) have "r = rev (path @ [(fst start, snd start, 0)])" by simp
    then have "map frame_xy r = rev (map frame_xy path @ cur # [])"
      using True by (simp add: frame_xy_def rev_map)
    with True show ?thesis by auto
  next
    case False
    with 1(2) obtain pr where pr: "parent cur = Some pr"
      and f: "f parent start pr (path @ [(fst cur, snd cur, 0)]) = Some r"
      by (auto split: option.splits)
    from 1(3) pr have ob: "open_between m cur pr" by blast
    have fx: "map frame_xy (path @ [(fst cur, snd cur, 0)]) = map frame_xy path @ [cur]"
      by (simp add: frame_xy_def)
    note ih = 1(1)[OF f 1(3), unfolded fx]
    show ?thesis
    proof
      assume op: "open_path m (map frame_xy path @ [cur])"
      then have "open_path m ((map frame_xy path @ [cur]) @ [pr])"
        using ob open_between_adjacent[OF ob] open_path_snoc[of m "map frame_xy path" cur pr]
        by simp
      with ih obtain t where
        t: "map frame_xy r = rev ((map frame_xy path @ [cur]) @ pr # t)" "last (pr # t) = start"
          "open_path m ((map frame_xy path @ [cur]) @ pr # t)" by blast
      then show "\<exists>t. map frame_xy r = rev (map frame_xy path @ cur # t) \<and> last (cur # t) = start
          \<and> open_path m (map frame_xy path @ cur # t)"
        by (intro exI[of _ "pr # t"]) simp
    qed
  qed
qed

lemma bfs_loop_valid:
  "rectangular m \<Longrightarrow> bfs_inv m s \<Longrightarrow>
     bfs_loop m (maze_height m) (maze_width m) start end' s = Some (path, m') \<Longrightarrow> path \<noteq> [] \<Longrightarrow>
     hd (map frame_xy path) = start \<and> last (map frame_xy path) = end' \<and> open_path m (map frame_xy path)"
proof (induction m "maze_height m" "maze_width m" start end' s rule: bfs_loop.induct)
  case (1 maze start end' s)
  note r = "1.prems"(1)
  obtain queue visited parent where s: "s = (queue, visited, parent)" by (cases s)
  show ?case
  proof (cases queue)
    case Nil
    with "1.prems" s show ?thesis by (simp add: bfs_loop.simps)
  next
    case (Cons c rest)
    obtain x y where c: "c = (x, y)" by (cases c)
    from "1.prems"(2) have g: "in_grid maze (x, y)"
      and par: "\<forall>k v. parent k = Some v \<longrightarrow> open_between maze k v"
      and i': "bfs_inv maze (rest, visited, parent)"
      by (auto simp add: bfs_inv_def s Cons c)
    show ?thesis
    proof (cases "(x, y) = end'")
      case True
      with "1.prems"(3) have "bfs_reconstruct parent start (x, y) [] = Some path"
        by (auto simp add: bfs_loop.simps s Cons c)
      from bfs_reconstruct_path[OF this par] obtain t where
        t: "map frame_xy path = rev ((x, y) # t)" "last ((x, y) # t) = start"
           "open_path maze ((x, y) # t)" by auto
      have "open_path maze (map frame_xy path)" unfolding t(1) open_path_rev by (rule t(3))
      moreover have "hd (map frame_xy path) = start" unfolding t(1) hd_rev by (rule t(2))
      moreover have "last (map frame_xy path) = end'" unfolding t(1) using True by simp
      ultimately show ?thesis by simp
    next
      case False
      with "1.prems"(3) obtain cell where
        bc: "bfs_cell maze (maze_height maze) (maze_width maze) x y = Some cell"
        and l: "bfs_loop maze (maze_height maze) (maze_width maze) start end'
                  (bfs_expand (maze_height maze) (maze_width maze) cell (x, y) (rest, visited, parent))
                = Some (path, m')"
        by (auto simp add: bfs_loop.simps[of _ _ _ _ _ "((x, y) # rest, visited, parent)"] s Cons c
            split: option.splits)
      note ei = bfs_expand_inv[OF r g bc i']
      show ?thesis
        using "1.hyps"[OF s[symmetric] _ _ _ False bc r ei l "1.prems"(4)] Cons c by simp
    qed
  qed
qed


section \<open>Depth-first path search\<close>

text \<open>
  \<open>time.monotonic()\<close> reads a clock the program does not control: the clock is a sequence
  of readings, and each call takes the next one.
\<close>

type_synonym clock = "nat \<Rightarrow> real"

definition time_monotonic :: "clock \<Rightarrow> real \<times> clock" where
  "time_monotonic ck = (ck 0, \<lambda>n. ck (Suc n))"

text \<open>
  \<open>check_point_in_path\<close> reads the coordinates of the frames only; it is given the list of
  the coordinates.
\<close>

fun check_point_in_path :: "coord list \<Rightarrow> int \<Rightarrow> int \<Rightarrow> nat" where
  "check_point_in_path [] x y = 0"
| "check_point_in_path (c # cs) x y =
     (if x = fst c \<and> y = snd c then 1
      else (case check_point_in_path cs x y of 0 \<Rightarrow> 0 | Suc k \<Rightarrow> Suc (Suc k)))"

text \<open>
  The variables of \<open>find_path_DFS\<close>.  \<open>c_path\<close> is kept with its last frame at the head of
  the list, as \<open>m_path\<close> of the carver; \<open>c_path_cells\<close> gives its coordinates in the order
  of the source.  \<open>best_path\<close> is kept as its list of coordinates: \<open>c_path.copy()\<close> is a
  shallow copy, so the third component of a frame of \<open>best_path\<close> is shared with \<open>c_path\<close>
  and changes with it, and the function never reads it.
\<close>

record dfs_state =
  maze_of :: maze
  c_path :: "frame list"
  best_path :: "coord list"
  paths_q :: nat
  start :: real
  clock_of :: clock

definition c_path_cells :: "frame list \<Rightarrow> coord list" where
  "c_path_cells st = map frame_xy (rev st)"

definition dfs_pop :: "dfs_state \<Rightarrow> dfs_state" where
  "dfs_pop s = s\<lparr>c_path := tl (c_path s)\<rparr>"

text \<open>The branch \<open>if (x == out_x) and (out_y == y)\<close>.\<close>

definition dfs_found :: "dfs_state \<Rightarrow> dfs_state" where
  "dfs_found s =
     (let pq = paths_q s + 1;
          best = (if best_path s = [] \<or> length (best_path s) > length (c_path s)
                  then c_path_cells (c_path s) else best_path s);
          s1 = s\<lparr>paths_q := pq, best_path := best, c_path := tl (c_path s)\<rparr>
      in if pq = 1 then
           (case time_monotonic (clock_of s) of (t1, ck1) \<Rightarrow>
              if t1 - start s > 15 then
                (case time_monotonic ck1 of (t2, ck2) \<Rightarrow> s1\<lparr>start := t2 - 15, clock_of := ck2\<rparr>)
              else s1\<lparr>clock_of := ck1\<rparr>)
         else s1)"

text \<open>
  The branch \<open>if (i > 0)\<close>: the depth stamp \<open>old_\<close> of the cell, the new stamp, and the
  stitching of \<open>c_path\<close> to the rest of \<open>best_path\<close> with the loop that stamps it.  The
  boolean tells whether the run of the body ends there (\<open>continue\<close>).
\<close>

definition depth_of :: "int \<Rightarrow> int" where
  "depth_of c = drop_bit 8 (c AND 0xffffff00)"

fun stamp_best :: "maze \<Rightarrow> coord list \<Rightarrow> nat list \<Rightarrow> maze option" where
  "stamp_best m best [] = Some m"
| "stamp_best m best (j # js) =
     (case best ! j of (x, y) \<Rightarrow> do {
        c \<leftarrow> mget m x y;
        m' \<leftarrow> mset m x y ((c AND 0xff) OR push_bit 8 (int j));
        stamp_best m' best js })"

definition dfs_stamp :: "dfs_state \<Rightarrow> int \<Rightarrow> int \<Rightarrow> int \<Rightarrow> nat \<Rightarrow> (dfs_state \<times> bool) option" where
  "dfs_stamp s x y q i =
     (if i > 0 then do {
        c \<leftarrow> mget (maze_of s) x y;
        let old = depth_of c;
        if old = 0 \<or> old > int i then do {
          c2 \<leftarrow> mget (maze_of s) x y;
          m1 \<leftarrow> mset (maze_of s) x y ((c2 AND 0xff) OR push_bit 8 (int i));
          if old > 0 then
            (let l = check_point_in_path (best_path s) x y in
             if l > 0 then do {
               let best = c_path_cells (c_path s) @ drop l (best_path s);
               m2 \<leftarrow> stamp_best m1 best [i + 1 ..< length best];
               Some (s\<lparr>maze_of := m2, best_path := best, c_path := tl (c_path s)\<rparr>, True) }
             else Some (s\<lparr>maze_of := m1\<rparr>, False))
          else Some (s\<lparr>maze_of := m1\<rparr>, False) }
        else if old > 0 \<and> (old < int i \<or> (q = 0xf \<and> old = int i)) then Some (dfs_pop s, True)
        else Some (s, False) }
      else Some (s, False))"

text \<open>
  The four checks.  The first two are not guarded by the bit of \<open>q\<close>; \<open>or\<close> evaluates
  from left to right, so \<open>maze[y][x]\<close> is read only when the neighbour is not a pattern cell.
\<close>

definition find_path_DFS_walls ::
  "maze \<Rightarrow> CMazeParams \<Rightarrow> coord list \<Rightarrow> int \<Rightarrow> int \<Rightarrow> int \<Rightarrow> int option" where
  "find_path_DFS_walls maze p cp x y q0 = do {
     q1 \<leftarrow> (if y = 0 then Some (q0 AND 14)
            else do {
              a \<leftarrow> mget maze x (y - 1);
              if a AND 0xc = 0xc then Some (q0 AND 14)
              else do {
                c \<leftarrow> mget maze x y;
                Some (if c AND 1 \<noteq> 0 \<or> a AND 0x20 \<noteq> 0 \<or> check_point_in_path cp x (y - 1) > 0
                      then q0 AND 14 else q0) } });
     q2 \<leftarrow> (if x = width p - 1 then Some (q1 AND 13)
            else do {
              a \<leftarrow> mget maze (x + 1) y;
              if a AND 0xc = 0xc then Some (q1 AND 13)
              else do {
                c \<leftarrow> mget maze x y;
                Some (if c AND 2 \<noteq> 0 \<or> a AND 0x20 \<noteq> 0 \<or> check_point_in_path cp (x + 1) y > 0
                      then q1 AND 13 else q1) } });
     q3 \<leftarrow> (if q2 AND 4 \<noteq> 0 then
              (if y = height p - 1 then Some (q2 AND 11)
               else do {
                 a \<leftarrow> mget maze x (y + 1);
                 Some (if a AND 0xc = 0xc \<or> a AND 0x21 \<noteq> 0 \<or> check_point_in_path cp x (y + 1) > 0
                       then q2 AND 11 else q2) })
            else Some q2);
     (if q3 AND 8 \<noteq> 0 then
        (if x = 0 then Some (q3 AND 7)
         else do {
           a \<leftarrow> mget maze (x - 1) y;
           Some (if a AND 0xc = 0xc \<or> a AND 0x22 \<noteq> 0 \<or> check_point_in_path cp (x - 1) y > 0
                 then q3 AND 7 else q3) })
      else Some q3)
   }"

text \<open>
  The choice of the direction: towards the exit first, then the first of top, right,
  bottom, left that is free; 0 stands for the last branch, which prints \<open>Error\<close>.
\<close>

definition dfs_fallback :: "int \<Rightarrow> int" where
  "dfs_fallback q =
     (if q AND 1 \<noteq> 0 then 1 else if q AND 2 \<noteq> 0 then 2
      else if q AND 4 \<noteq> 0 then 4 else if q AND 8 \<noteq> 0 then 8 else 0)"

definition dfs_choose :: "int \<Rightarrow> int \<Rightarrow> int \<Rightarrow> int \<Rightarrow> int \<Rightarrow> int" where
  "dfs_choose out_x out_y x y q =
     (if \<bar>out_x - x\<bar> > \<bar>out_y - y\<bar> then
        (if out_x > x \<and> q AND 2 \<noteq> 0 then 2
         else if out_x < x \<and> q AND 8 \<noteq> 0 then 8
         else if out_y > y \<and> q AND 4 \<noteq> 0 then 4
         else if out_y < y \<and> q AND 1 \<noteq> 0 then 1
         else dfs_fallback q)
      else
        (if out_y > y \<and> q AND 4 \<noteq> 0 then 4
         else if out_y < y \<and> q AND 1 \<noteq> 0 then 1
         else if out_x > x \<and> q AND 2 \<noteq> 0 then 2
         else if out_x < x \<and> q AND 8 \<noteq> 0 then 8
         else dfs_fallback q))"

definition dfs_push :: "int \<Rightarrow> int \<Rightarrow> int \<Rightarrow> frame list \<Rightarrow> int \<Rightarrow> frame list" where
  "dfs_push x y q rest w =
     (if w = 1 then (x, y - 1, 0xf) # (x, y, q AND 0xe) # rest
      else if w = 2 then (x + 1, y, 0xf) # (x, y, q AND 0xd) # rest
      else if w = 4 then (x, y + 1, 0xf) # (x, y, q AND 0xb) # rest
      else if w = 8 then (x - 1, y, 0xf) # (x, y, q AND 0x7) # rest
      else rest)"

text \<open>One run of the body of the \<open>while\<close> loop.\<close>

definition find_path_DFS_body :: "CMazeParams \<Rightarrow> dfs_state \<Rightarrow> dfs_state option" where
  "find_path_DFS_body p s =
     (case c_path s of
        [] \<Rightarrow> None
      | (x, y, q0) # rest \<Rightarrow>
          (case exit p of (out_x, out_y) \<Rightarrow>
             if best_path s \<noteq> [] \<and>
                (int (length (c_path s)) + (\<bar>out_x - x\<bar> + \<bar>out_y - y\<bar>) > int (length (best_path s))
                 \<or> length (c_path s) \<ge> length (best_path s))
             then Some (dfs_pop s)
             else if x = out_x \<and> out_y = y then Some (dfs_found s)
             else do {
               (s1, stop) \<leftarrow> dfs_stamp s x y q0 (length (c_path s) - 1);
               if stop then Some s1
               else do {
                 q \<leftarrow> find_path_DFS_walls (maze_of s1) p (c_path_cells (c_path s1)) x y q0;
                 if q = 0 then Some (dfs_pop s1)
                 else Some (s1\<lparr>c_path := dfs_push x y q rest (dfs_choose out_x out_y x y q)\<rparr>) } }))"


subsection \<open>The search ends\<close>

text \<open>
  A run of the body pops a frame, or clears a bit of the last frame and pushes a frame on
  a cell of the grid that is not on \<open>c_path\<close>.  With \<open>n\<close> cells of the grid off the path
  up to a frame, the frame weighs (its number of set bits + 1) times \<open>6 ^ n\<close>; the sum of
  the weights decreases with every run, whatever the clock reads.
\<close>

definition grid_cells :: "maze \<Rightarrow> coord set" where
  "grid_cells m = {c. mget m (fst c) (snd c) \<noteq> None}"

definition num_walls :: "int \<Rightarrow> nat" where
  "num_walls q = length (filter (bit q) [0 ..< 4])"

fun dfs_weight :: "coord set \<Rightarrow> frame list \<Rightarrow> nat" where
  "dfs_weight F [] = 0"
| "dfs_weight F (f # rest) =
     (num_walls (snd (snd f)) + 1) * 6 ^ card (F - frame_xy ` set (f # rest)) + dfs_weight F rest"

definition dfs_measure :: "dfs_state \<Rightarrow> nat" where
  "dfs_measure s = dfs_weight (grid_cells (maze_of s)) (c_path s)"

lemma py_index_bound: "py_index xs i = Some k \<Longrightarrow> - int (length xs) \<le> i \<and> i < int (length xs)"
  by (auto simp add: py_index_def Let_def split: if_splits)

lemma finite_grid_cells: "finite (grid_cells m)"
proof -
  define L where "L = int (sum_list (map length m))"
  have "grid_cells m \<subseteq> {- L ..< L} \<times> {- int (length m) ..< int (length m)}"
  proof
    fix c assume "c \<in> grid_cells m"
    then obtain k where k: "midx m (fst c) (snd c) = Some k"
      by (auto simp add: grid_cells_def mget_midx)
    then obtain ky kx where ky: "py_index m (snd c) = Some ky"
      and kx: "py_index (m ! ky) (fst c) = Some kx"
      by (auto simp add: midx_def split: option.splits)
    from py_index_less[OF ky] have "m ! ky \<in> set m" by simp
    then have "length (m ! ky) \<le> sum_list (map length m)"
      by (simp add: member_le_sum_list)
    with py_index_bound[OF kx] py_index_bound[OF ky]
    show "c \<in> {- L ..< L} \<times> {- int (length m) ..< int (length m)}"
      by (cases c) (auto simp add: L_def)
  qed
  then show ?thesis by (rule finite_subset) simp
qed

lemma grid_cells_mset: "mset m x y v = Some m' \<Longrightarrow> grid_cells m' = grid_cells m"
  by (auto simp add: grid_cells_def mset_midx mget_midx midx_mupd midx_valid)

lemma grid_cells_stamp_best:
  "stamp_best m best js = Some m' \<Longrightarrow> grid_cells m' = grid_cells m"
proof (induction js arbitrary: m)
  case Nil
  then show ?case by simp
next
  case (Cons j js)
  obtain x y where b: "best ! j = (x, y)" by (cases "best ! j")
  from Cons.prems b obtain c m1 where
    "mset m x y ((c AND 0xff) OR push_bit 8 (int j)) = Some m1" "stamp_best m1 best js = Some m'"
    by (auto simp add: bind_eq_Some_conv)
  with Cons.IH[of m1] grid_cells_mset[of m x y _ m1] show ?case by simp
qed

definition stitched :: "dfs_state \<Rightarrow> int \<Rightarrow> int \<Rightarrow> coord list" where
  "stitched s x y =
     c_path_cells (c_path s) @ drop (check_point_in_path (best_path s) x y) (best_path s)"

lemma dfs_stamp_cases:
  assumes "dfs_stamp s x y q i = Some (s1, stop)"
  shows "(s1 = s \<and> \<not> stop) \<or> (s1 = dfs_pop s \<and> stop)
     \<or> (\<exists>c m1. 0 < i \<and> mget (maze_of s) x y = Some c
           \<and> mset (maze_of s) x y ((c AND 0xff) OR push_bit 8 (int i)) = Some m1
           \<and> ((s1 = s\<lparr>maze_of := m1\<rparr> \<and> \<not> stop)
              \<or> (\<exists>m2. 0 < check_point_in_path (best_path s) x y \<and> int i < depth_of c
                    \<and> stamp_best m1 (stitched s x y) [i + 1 ..< length (stitched s x y)] = Some m2
                    \<and> s1 = s\<lparr>maze_of := m2, best_path := stitched s x y, c_path := tl (c_path s)\<rparr>
                    \<and> stop)))"
proof (cases "i > 0")
  case False
  with assms show ?thesis by (simp add: dfs_stamp_def)
next
  case True
  show ?thesis
  proof (cases "mget (maze_of s) x y")
    case None
    with assms True show ?thesis by (simp add: dfs_stamp_def)
  next
    case (Some c)
    note c = this
    show ?thesis
    proof (cases "depth_of c = 0 \<or> depth_of c > int i")
      case False
      then have "dfs_stamp s x y q i =
          (if depth_of c > 0 \<and> (depth_of c < int i \<or> (q = 0xf \<and> depth_of c = int i))
           then Some (dfs_pop s, True) else Some (s, False))"
        using True c by (simp add: dfs_stamp_def Let_def)
      with assms show ?thesis by (cases "depth_of c > 0 \<and> (depth_of c < int i \<or> (q = 0xf \<and> depth_of c = int i))") simp_all
    next
      case a: True
      show ?thesis
      proof (cases "mset (maze_of s) x y ((c AND 0xff) OR push_bit 8 (int i))")
        case None
        with assms True c a show ?thesis by (simp add: dfs_stamp_def Let_def)
      next
        case (Some m1)
        note m1 = this
        show ?thesis
        proof (cases "depth_of c > 0 \<and> check_point_in_path (best_path s) x y > 0")
          case False
          then have "dfs_stamp s x y q i = Some (s\<lparr>maze_of := m1\<rparr>, False)"
            using True c a m1 by (simp add: dfs_stamp_def Let_def)
          with assms True c m1 show ?thesis by simp
        next
          case b: True
          then have e: "dfs_stamp s x y q i =
              Option.bind (stamp_best m1 (stitched s x y) [i + 1 ..< length (stitched s x y)])
                (\<lambda>m2. Some (s\<lparr>maze_of := m2, best_path := stitched s x y,
                                 c_path := tl (c_path s)\<rparr>, True))"
            using True c a m1 by (simp add: dfs_stamp_def Let_def stitched_def)
          from assms[unfolded e] obtain m2 where
            "stamp_best m1 (stitched s x y) [i + 1 ..< length (stitched s x y)] = Some m2"
            "s1 = s\<lparr>maze_of := m2, best_path := stitched s x y, c_path := tl (c_path s)\<rparr>" "stop"
            by (auto simp add: bind_eq_Some_conv)
          moreover from a b have "int i < depth_of c" by auto
          ultimately show ?thesis using True c m1 b by blast
        qed
      qed
    qed
  qed
qed

lemma dfs_stamp_shape:
  assumes "dfs_stamp s x y q i = Some (s1, stop)"
  shows "grid_cells (maze_of s1) = grid_cells (maze_of s)"
    and "c_path s1 = (if stop then tl (c_path s) else c_path s)"
proof -
  from dfs_stamp_cases[OF assms] consider
    "s1 = s" "\<not> stop" | "s1 = dfs_pop s" "stop"
    | c m1 where "mset (maze_of s) x y ((c AND 0xff) OR push_bit 8 (int i)) = Some m1"
        "s1 = s\<lparr>maze_of := m1\<rparr>" "\<not> stop"
    | c m1 m2 where "mset (maze_of s) x y ((c AND 0xff) OR push_bit 8 (int i)) = Some m1"
        "stamp_best m1 (stitched s x y) [i + 1 ..< length (stitched s x y)] = Some m2"
        "s1 = s\<lparr>maze_of := m2, best_path := stitched s x y, c_path := tl (c_path s)\<rparr>" "stop"
    by blast
  then have "grid_cells (maze_of s1) = grid_cells (maze_of s)
      \<and> c_path s1 = (if stop then tl (c_path s) else c_path s)"
  proof cases
    case 1
    then show ?thesis by simp
  next
    case 2
    then show ?thesis by (simp add: dfs_pop_def)
  next
    case 3
    with grid_cells_mset[OF 3(1)] show ?thesis by simp
  next
    case 4
    with grid_cells_mset[OF 4(1)] grid_cells_stamp_best[OF 4(2)] show ?thesis by simp
  qed
  then show "grid_cells (maze_of s1) = grid_cells (maze_of s)"
    and "c_path s1 = (if stop then tl (c_path s) else c_path s)" by simp_all
qed

lemma check_point_in_path_mem: "check_point_in_path cs x y = 0 \<longleftrightarrow> (x, y) \<notin> set cs"
  by (induction cs) (auto simp add: prod_eq_iff split: nat.splits)

lemma dfs_stage_a:
  assumes "(if edge then Some (q AND m)
            else Option.bind A (\<lambda>a. if P a then Some (q AND m)
                   else Option.bind C (\<lambda>c. Some (if T c a then q AND m else q)))) = Some (q'::int)"
  shows "q' = q AND m \<or> (q' = q \<and> \<not> edge \<and> (\<exists>a c. A = Some a \<and> \<not> P a \<and> C = Some c \<and> \<not> T c a))"
  using assms by (auto simp add: bind_eq_Some_conv split: if_splits)

lemma dfs_stage_b:
  assumes "(if cond then
              (if edge then Some (q AND m)
               else Option.bind A (\<lambda>a. Some (if T a then q AND m else q)))
            else Some q) = Some (q'::int)"
  shows "q' = q AND m \<or> (q' = q \<and> (\<not> cond \<or> \<not> edge \<and> (\<exists>a. A = Some a \<and> \<not> T a)))"
  using assms by (auto simp add: bind_eq_Some_conv split: if_splits)

lemma and_33_bit: "(a::int) AND 0x21 = 0 \<Longrightarrow> \<not> bit a 0"
proof
  assume z: "a AND 0x21 = 0" and b: "bit a 0"
  from b have "bit (a AND 0x21) 0" by (simp add: bit_and_iff)
  with z show False by simp
qed

lemma and_34_bit: "(a::int) AND 0x22 = 0 \<Longrightarrow> \<not> bit a 1"
proof
  assume z: "a AND 0x22 = 0" and b: "bit a 1"
  from b have "bit (a AND 0x22) 1" by (simp add: bit_and_iff)
  with z show False by simp
qed

lemma find_path_DFS_walls_sound:
  assumes "find_path_DFS_walls maze p cp x y q0 = Some q"
  shows "\<And>n. bit q n \<Longrightarrow> bit q0 n"
    and "bit q 0 \<Longrightarrow> y \<noteq> 0 \<and> (\<exists>a c. mget maze x (y - 1) = Some a \<and> mget maze x y = Some c
            \<and> \<not> bit c 0 \<and> (x, y - 1) \<notin> set cp)"
    and "bit q 1 \<Longrightarrow> x \<noteq> width p - 1 \<and> (\<exists>a c. mget maze (x + 1) y = Some a \<and> mget maze x y = Some c
            \<and> \<not> bit c 1 \<and> (x + 1, y) \<notin> set cp)"
    and "bit q 2 \<Longrightarrow> y \<noteq> height p - 1 \<and> (\<exists>a. mget maze x (y + 1) = Some a
            \<and> \<not> bit a 0 \<and> (x, y + 1) \<notin> set cp)"
    and "bit q 3 \<Longrightarrow> x \<noteq> 0 \<and> (\<exists>a. mget maze (x - 1) y = Some a
            \<and> \<not> bit a 1 \<and> (x - 1, y) \<notin> set cp)"
proof -
  from assms obtain q1 q2 q3 where
    s1: "(if y = 0 then Some (q0 AND 14)
          else Option.bind (mget maze x (y - 1)) (\<lambda>a. if a AND 0xc = 0xc then Some (q0 AND 14)
             else Option.bind (mget maze x y) (\<lambda>c.
                Some (if c AND 1 \<noteq> 0 \<or> a AND 0x20 \<noteq> 0 \<or> check_point_in_path cp x (y - 1) > 0
                      then q0 AND 14 else q0)))) = Some q1"
    and s2: "(if x = width p - 1 then Some (q1 AND 13)
          else Option.bind (mget maze (x + 1) y) (\<lambda>a. if a AND 0xc = 0xc then Some (q1 AND 13)
             else Option.bind (mget maze x y) (\<lambda>c.
                Some (if c AND 2 \<noteq> 0 \<or> a AND 0x20 \<noteq> 0 \<or> check_point_in_path cp (x + 1) y > 0
                      then q1 AND 13 else q1)))) = Some q2"
    and s3: "(if q2 AND 4 \<noteq> 0 then
              (if y = height p - 1 then Some (q2 AND 11)
               else Option.bind (mget maze x (y + 1)) (\<lambda>a.
                 Some (if a AND 0xc = 0xc \<or> a AND 0x21 \<noteq> 0 \<or> check_point_in_path cp x (y + 1) > 0
                       then q2 AND 11 else q2)))
            else Some q2) = Some q3"
    and s4: "(if q3 AND 8 \<noteq> 0 then
        (if x = 0 then Some (q3 AND 7)
         else Option.bind (mget maze (x - 1) y) (\<lambda>a.
           Some (if a AND 0xc = 0xc \<or> a AND 0x22 \<noteq> 0 \<or> check_point_in_path cp (x - 1) y > 0
                 then q3 AND 7 else q3)))
      else Some q3) = Some q"
    unfolding find_path_DFS_walls_def by (auto simp add: bind_eq_Some_conv)
  note d1 = dfs_stage_a[OF s1] and d2 = dfs_stage_a[OF s2]
    and d3 = dfs_stage_b[OF s3] and d4 = dfs_stage_b[OF s4]
  have m1: "bit q1 n \<Longrightarrow> bit q0 n" for n using d1 by (auto simp add: bit_and_iff)
  have m2: "bit q2 n \<Longrightarrow> bit q1 n" for n using d2 by (auto simp add: bit_and_iff)
  have m3: "bit q3 n \<Longrightarrow> bit q2 n" for n using d3 by (auto simp add: bit_and_iff)
  have m4: "bit q n \<Longrightarrow> bit q3 n" for n using d4 by (auto simp add: bit_and_iff)
  show "bit q n \<Longrightarrow> bit q0 n" for n using m1 m2 m3 m4 by blast
  have z0: "\<not> bit (q0 AND 14) 0" "\<not> bit (q1 AND 13) 1" "\<not> bit (q2 AND 11) 2" "\<not> bit (q3 AND 7) 3"
    by (simp_all add: bit_and_iff)
  show "y \<noteq> 0 \<and> (\<exists>a c. mget maze x (y - 1) = Some a \<and> mget maze x y = Some c
            \<and> \<not> bit c 0 \<and> (x, y - 1) \<notin> set cp)" if "bit q 0"
  proof -
    from that have "bit q1 0" using m2 m3 m4 by blast
    with d1 z0(1) show ?thesis
      by (auto simp add: and_1_bit check_point_in_path_mem[symmetric])
  qed
  show "x \<noteq> width p - 1 \<and> (\<exists>a c. mget maze (x + 1) y = Some a \<and> mget maze x y = Some c
            \<and> \<not> bit c 1 \<and> (x + 1, y) \<notin> set cp)" if "bit q 1"
  proof -
    from that have "bit q2 1" using m3 m4 by blast
    with d2 z0(2) show ?thesis
      by (auto simp add: and_2_bit check_point_in_path_mem[symmetric])
  qed
  show "y \<noteq> height p - 1 \<and> (\<exists>a. mget maze x (y + 1) = Some a
            \<and> \<not> bit a 0 \<and> (x, y + 1) \<notin> set cp)" if "bit q 2"
  proof -
    from that have b: "bit q3 2" using m4 by blast
    with d3 z0(3) have "q3 = q2" by auto
    with b have "q2 AND 4 \<noteq> 0" by (simp add: and_4_bit)
    with d3 z0(3) b show ?thesis
      by (auto simp add: check_point_in_path_mem[symmetric] dest: and_33_bit)
  qed
  show "x \<noteq> 0 \<and> (\<exists>a. mget maze (x - 1) y = Some a
            \<and> \<not> bit a 1 \<and> (x - 1, y) \<notin> set cp)" if "bit q 3"
  proof -
    from d4 z0(4) that have "q = q3" by auto
    with that have "q3 AND 8 \<noteq> 0" by (simp add: and_8_bit)
    with d4 z0(4) that show ?thesis
      by (auto simp add: check_point_in_path_mem[symmetric] dest: and_34_bit)
  qed
qed

lemma dfs_fallback_cases:
  "dfs_fallback q = 0 \<or> (dfs_fallback q = 1 \<and> bit q 0) \<or> (dfs_fallback q = 2 \<and> bit q 1)
   \<or> (dfs_fallback q = 4 \<and> bit q 2) \<or> (dfs_fallback q = 8 \<and> bit q 3)"
proof -
  have g: "(if b0 then 1 else if b1 then 2 else if b2 then 4 else if b3 then 8 else 0) = (r::int)
     \<Longrightarrow> r = 0 \<or> (r = 1 \<and> b0) \<or> (r = 2 \<and> b1) \<or> (r = 4 \<and> b2) \<or> (r = 8 \<and> b3)"
    for b0 b1 b2 b3 r
    by (cases b0; cases b1; cases b2; cases b3) simp_all
  show ?thesis
    by (rule g[of "bit q 0" "bit q 1" "bit q 2" "bit q 3"])
       (simp only: dfs_fallback_def and_1_bit and_2_bit and_4_bit and_8_bit)
qed

lemma dfs_choose_cases:
  "dfs_choose ox oy x y q = 0 \<or> (dfs_choose ox oy x y q = 1 \<and> bit q 0)
   \<or> (dfs_choose ox oy x y q = 2 \<and> bit q 1)
   \<or> (dfs_choose ox oy x y q = 4 \<and> bit q 2) \<or> (dfs_choose ox oy x y q = 8 \<and> bit q 3)"
proof -
  have g: "(if c then (if a1 \<and> b1 then 2 else if a3 \<and> b3 then 8 else if a2 \<and> b2 then 4
                        else if a0 \<and> b0 then 1 else f)
            else (if a2 \<and> b2 then 4 else if a0 \<and> b0 then 1 else if a1 \<and> b1 then 2
                        else if a3 \<and> b3 then 8 else f)) = (r::int)
     \<Longrightarrow> r = f \<or> (r = 1 \<and> b0) \<or> (r = 2 \<and> b1) \<or> (r = 4 \<and> b2) \<or> (r = 8 \<and> b3)"
    for c a0 a1 a2 a3 b0 b1 b2 b3 f r
    by (cases c; cases "a0 \<and> b0"; cases "a1 \<and> b1"; cases "a2 \<and> b2"; cases "a3 \<and> b3") simp_all
  have "dfs_choose ox oy x y q = dfs_fallback q \<or> (dfs_choose ox oy x y q = 1 \<and> bit q 0)
   \<or> (dfs_choose ox oy x y q = 2 \<and> bit q 1)
   \<or> (dfs_choose ox oy x y q = 4 \<and> bit q 2) \<or> (dfs_choose ox oy x y q = 8 \<and> bit q 3)"
    by (rule g[of "\<bar>ox - x\<bar> > \<bar>oy - y\<bar>" "ox > x" "bit q 1" "ox < x" "bit q 3" "oy > y" "bit q 2"
          "oy < y" "bit q 0"])
       (simp only: dfs_choose_def and_1_bit and_2_bit and_4_bit and_8_bit)
  with dfs_fallback_cases[of q] show ?thesis by auto
qed


lemma num_walls_eq:
  "num_walls q = of_bool (bit q 0) + of_bool (bit q 1) + of_bool (bit q 2) + of_bool (bit q 3)"
proof -
  have "[0 ..< 4] = [0, 1, 2, Suc 2]" by (simp add: upt_rec)
  then show ?thesis by (simp add: num_walls_def numeral_3_eq_3)
qed

lemma num_walls_clear:
  assumes w: "w \<in> {1, 2, 4, 8}" and b: "bit q (dir_idx w)" and m: "\<And>n. bit q n \<Longrightarrow> bit q0 n"
  shows "num_walls (q AND (15 - w)) < num_walls q0"
proof -
  have c: "bit (q AND (15 - w)) (dir_idx w') \<longleftrightarrow> bit q (dir_idx w') \<and> w' \<noteq> w"
    if "w' \<in> {1, 2, 4, 8}" for w'
    using bit_clear_dir[OF w that] .
  have i: "dir_idx 1 = 0" "dir_idx 2 = 1" "dir_idx 4 = 2" "dir_idx 8 = 3"
    by (simp_all add: dir_idx_def)
  from c[of 1] c[of 2] c[of 4] c[of 8] have
    k: "bit (q AND (15 - w)) 0 \<longleftrightarrow> bit q 0 \<and> 1 \<noteq> w" "bit (q AND (15 - w)) 1 \<longleftrightarrow> bit q 1 \<and> 2 \<noteq> w"
       "bit (q AND (15 - w)) 2 \<longleftrightarrow> bit q 2 \<and> 4 \<noteq> w" "bit (q AND (15 - w)) 3 \<longleftrightarrow> bit q 3 \<and> 8 \<noteq> w"
    unfolding i by simp_all
  show ?thesis
    unfolding num_walls_eq k
    using w b m[of 0] m[of 1] m[of 2] m[of 3] by (auto simp add: i)
qed

lemma in_grid_cells: "mget m x y = Some a \<Longrightarrow> (x, y) \<in> grid_cells m"
  by (simp add: grid_cells_def)

lemma dfs_push_dir:
  assumes "w \<in> {1, 2, 4, 8}"
  shows "dfs_push x y q rest w =
     (fst (dir_nb w (x, y)), snd (dir_nb w (x, y)), 0xf) # (x, y, q AND (15 - w)) # rest"
  using assms by (auto simp add: dfs_push_def dir_nb_def)

lemma dfs_weight_push:
  assumes f: "finite F" and nb: "nb \<in> F" "nb \<notin> frame_xy ` set ((x, y, q0) # rest)"
    and q: "num_walls q' < num_walls q0"
  shows "dfs_weight F ((fst nb, snd nb, 0xf) # (x, y, q') # rest) < dfs_weight F ((x, y, q0) # rest)"
proof -
  define C where "C = frame_xy ` set ((x, y, q0) # rest)"
  define A where "A = card (F - C)"
  have c1: "frame_xy ` set ((x, y, q') # rest) = C" by (simp add: C_def frame_xy_def)
  have c2: "frame_xy ` set ((fst nb, snd nb, 0xf) # (x, y, q') # rest) = insert nb C"
    by (simp add: C_def frame_xy_def)
  have "nb \<in> F - C" using nb by (simp add: C_def)
  moreover have "finite (F - C)" using f by simp
  ultimately have A: "card (F - insert nb C) = A - 1" "0 < A"
    unfolding A_def by (simp_all add: card_Diff_insert card_gt_0_iff) blast
  then obtain a where a: "A = Suc a" by (cases A) auto
  have n15: "num_walls 0xf = 4" by (simp add: num_walls_eq)
  have l: "dfs_weight F ((fst nb, snd nb, 0xf) # (x, y, q') # rest)
        = 5 * 6 ^ a + (num_walls q' + 1) * 6 ^ A + dfs_weight F rest"
    unfolding dfs_weight.simps c1 c2 A(1) A_def[symmetric] by (simp add: n15 a)
  have r: "dfs_weight F ((x, y, q0) # rest) = (num_walls q0 + 1) * 6 ^ A + dfs_weight F rest"
    unfolding dfs_weight.simps C_def[symmetric] A_def[symmetric] by simp
  have "(num_walls q' + 2) * 6 ^ A \<le> (num_walls q0 + 1) * 6 ^ A"
    using q by (intro mult_right_mono) simp_all
  moreover have "(5::nat) * 6 ^ a < 6 ^ A" by (simp add: a)
  ultimately show ?thesis unfolding l r by (simp add: algebra_simps)
qed

lemma dfs_weight_pop: "dfs_weight F rest < dfs_weight F (f # rest)"
  by simp

lemma dfs_found_shape: "maze_of (dfs_found s) = maze_of s" "c_path (dfs_found s) = tl (c_path s)"
  by (simp_all add: dfs_found_def Let_def split: prod.splits)

lemma find_path_DFS_body_cases:
  assumes "find_path_DFS_body p s = Some s'"
  shows "\<exists>x y q0 rest. c_path s = (x, y, q0) # rest
     \<and> grid_cells (maze_of s') = grid_cells (maze_of s)
     \<and> (c_path s' = rest
        \<or> (\<exists>w q. w \<in> {1, 2, 4, 8} \<and> num_walls (q AND (15 - w)) < num_walls q0
              \<and> dir_nb w (x, y) \<in> grid_cells (maze_of s)
              \<and> dir_nb w (x, y) \<notin> frame_xy ` set (c_path s)
              \<and> c_path s' = (fst (dir_nb w (x, y)), snd (dir_nb w (x, y)), 0xf)
                               # (x, y, q AND (15 - w)) # rest))"
proof -
  from assms obtain f rest where cp: "c_path s = f # rest"
    by (cases "c_path s") (simp_all add: find_path_DFS_body_def)
  obtain x y q0 where f: "f = (x, y, q0)" by (cases f)
  obtain ox oy where e: "exit p = (ox, oy)" by (cases "exit p")
  define prune where "prune \<longleftrightarrow> best_path s \<noteq> [] \<and>
     (int (length (c_path s)) + (\<bar>ox - x\<bar> + \<bar>oy - y\<bar>) > int (length (best_path s))
      \<or> length (c_path s) \<ge> length (best_path s))"
  have b: "find_path_DFS_body p s =
     (if prune then Some (dfs_pop s)
      else if x = ox \<and> oy = y then Some (dfs_found s)
      else Option.bind (dfs_stamp s x y q0 (length (c_path s) - 1)) (\<lambda>(s1, stop).
             if stop then Some s1
             else Option.bind (find_path_DFS_walls (maze_of s1) p (c_path_cells (c_path s1)) x y q0)
               (\<lambda>q. if q = 0 then Some (dfs_pop s1)
                     else Some (s1\<lparr>c_path := dfs_push x y q rest (dfs_choose ox oy x y q)\<rparr>))))"
    unfolding find_path_DFS_body_def cp list.case f prod.case e prune_def
    by (simp add: cp f)
  have "grid_cells (maze_of s') = grid_cells (maze_of s)
     \<and> (c_path s' = rest
        \<or> (\<exists>w q. w \<in> {1, 2, 4, 8} \<and> num_walls (q AND (15 - w)) < num_walls q0
              \<and> dir_nb w (x, y) \<in> grid_cells (maze_of s)
              \<and> dir_nb w (x, y) \<notin> frame_xy ` set (c_path s)
              \<and> c_path s' = (fst (dir_nb w (x, y)), snd (dir_nb w (x, y)), 0xf)
                               # (x, y, q AND (15 - w)) # rest))"
  proof (cases prune)
    case True
    with assms b have "s' = dfs_pop s" by simp
    then show ?thesis by (simp add: dfs_pop_def cp)
  next
    case np: False
    show ?thesis
    proof (cases "x = ox \<and> oy = y")
      case True
      with assms b np have "s' = dfs_found s" by simp
      then show ?thesis by (simp add: dfs_found_shape cp)
    next
      case ne: False
      from assms b np ne obtain s1 stop where
        st: "dfs_stamp s x y q0 (length (c_path s) - 1) = Some (s1, stop)"
        and r: "(if stop then Some s1
             else Option.bind (find_path_DFS_walls (maze_of s1) p (c_path_cells (c_path s1)) x y q0)
               (\<lambda>q. if q = 0 then Some (dfs_pop s1)
                     else Some (s1\<lparr>c_path := dfs_push x y q rest (dfs_choose ox oy x y q)\<rparr>))) = Some s'"
        by (auto simp add: bind_eq_Some_conv)
      note sh = dfs_stamp_shape[OF st]
      show ?thesis
      proof (cases stop)
        case True
        with r sh show ?thesis by (simp add: cp)
      next
        case ns: False
        with sh have c1: "c_path s1 = (x, y, q0) # rest" by (simp add: cp f)
        from r ns obtain q where
          q: "find_path_DFS_walls (maze_of s1) p (c_path_cells (c_path s1)) x y q0 = Some q"
          and r2: "(if q = 0 then Some (dfs_pop s1)
                     else Some (s1\<lparr>c_path := dfs_push x y q rest (dfs_choose ox oy x y q)\<rparr>)) = Some s'"
          by (auto simp add: bind_eq_Some_conv)
        note ws = find_path_DFS_walls_sound[OF q]
        show ?thesis
        proof (cases "q = 0")
          case True
          with r2 have "s' = dfs_pop s1" by simp
          then show ?thesis using sh(1) c1 by (simp add: dfs_pop_def)
        next
          case q0: False
          define w where "w = dfs_choose ox oy x y q"
          from r2 q0 have s': "s' = s1\<lparr>c_path := dfs_push x y q rest w\<rparr>" by (simp add: w_def)
          from dfs_choose_cases[of ox oy x y q] consider "w = 0"
            | "w = 1" "bit q 0" | "w = 2" "bit q 1" | "w = 4" "bit q 2" | "w = 8" "bit q 3"
            unfolding w_def by blast
          then show ?thesis
          proof cases
            case 1
            then have "dfs_push x y q rest w = rest" by (simp add: dfs_push_def)
            with s' sh(1) show ?thesis by simp
          next
            case 2
            from ws(2)[OF 2(2)] obtain a where a: "mget (maze_of s1) (x) (y - 1) = Some a"
              and n: "(x, y - 1) \<notin> set (c_path_cells (c_path s1))" by blast
            have g: "(x, y - 1) \<in> grid_cells (maze_of s)" "(x, y - 1) \<notin> frame_xy ` set (c_path s)"
              using in_grid_cells[OF a, unfolded sh(1)] n c1 cp f
              by (simp_all add: c_path_cells_def)
            have "num_walls (q AND (15 - w)) < num_walls q0"
              by (rule num_walls_clear) (use 2 ws(1) in \<open>simp_all add: dir_idx_def\<close>)
            with g s' sh(1) 2(1) dfs_push_dir[of w x y q rest] show ?thesis
              by (intro conjI disjI2 exI[of _ w] exI[of _ q]) (simp_all add: dir_nb_def)
          next
            case 3
            from ws(3)[OF 3(2)] obtain a where a: "mget (maze_of s1) (x + 1) (y) = Some a"
              and n: "(x + 1, y) \<notin> set (c_path_cells (c_path s1))" by blast
            have g: "(x + 1, y) \<in> grid_cells (maze_of s)" "(x + 1, y) \<notin> frame_xy ` set (c_path s)"
              using in_grid_cells[OF a, unfolded sh(1)] n c1 cp f
              by (simp_all add: c_path_cells_def)
            have "num_walls (q AND (15 - w)) < num_walls q0"
              by (rule num_walls_clear) (use 3 ws(1) in \<open>simp_all add: dir_idx_def\<close>)
            with g s' sh(1) 3(1) dfs_push_dir[of w x y q rest] show ?thesis
              by (intro conjI disjI2 exI[of _ w] exI[of _ q]) (simp_all add: dir_nb_def)
          next
            case 4
            from ws(4)[OF 4(2)] obtain a where a: "mget (maze_of s1) (x) (y + 1) = Some a"
              and n: "(x, y + 1) \<notin> set (c_path_cells (c_path s1))" by blast
            have g: "(x, y + 1) \<in> grid_cells (maze_of s)" "(x, y + 1) \<notin> frame_xy ` set (c_path s)"
              using in_grid_cells[OF a, unfolded sh(1)] n c1 cp f
              by (simp_all add: c_path_cells_def)
            have "num_walls (q AND (15 - w)) < num_walls q0"
              by (rule num_walls_clear) (use 4 ws(1) in \<open>simp_all add: dir_idx_def\<close>)
            with g s' sh(1) 4(1) dfs_push_dir[of w x y q rest] show ?thesis
              by (intro conjI disjI2 exI[of _ w] exI[of _ q]) (simp_all add: dir_nb_def)
          next
            case 5
            from ws(5)[OF 5(2)] obtain a where a: "mget (maze_of s1) (x - 1) (y) = Some a"
              and n: "(x - 1, y) \<notin> set (c_path_cells (c_path s1))" by blast
            have g: "(x - 1, y) \<in> grid_cells (maze_of s)" "(x - 1, y) \<notin> frame_xy ` set (c_path s)"
              using in_grid_cells[OF a, unfolded sh(1)] n c1 cp f
              by (simp_all add: c_path_cells_def)
            have "num_walls (q AND (15 - w)) < num_walls q0"
              by (rule num_walls_clear) (use 5 ws(1) in \<open>simp_all add: dir_idx_def\<close>)
            with g s' sh(1) 5(1) dfs_push_dir[of w x y q rest] show ?thesis
              by (intro conjI disjI2 exI[of _ w] exI[of _ q]) (simp_all add: dir_nb_def)
          qed
        qed
      qed
    qed
  qed
  with cp f show ?thesis by blast
qed

lemma find_path_DFS_body_measure:
  assumes "find_path_DFS_body p s = Some s'"
  shows "dfs_measure s' < dfs_measure s"
proof -
  from find_path_DFS_body_cases[OF assms] obtain x y q0 rest where
    cp: "c_path s = (x, y, q0) # rest"
    and g: "grid_cells (maze_of s') = grid_cells (maze_of s)"
    and d: "c_path s' = rest
        \<or> (\<exists>w q. w \<in> {1, 2, 4, 8} \<and> num_walls (q AND (15 - w)) < num_walls q0
              \<and> dir_nb w (x, y) \<in> grid_cells (maze_of s)
              \<and> dir_nb w (x, y) \<notin> frame_xy ` set (c_path s)
              \<and> c_path s' = (fst (dir_nb w (x, y)), snd (dir_nb w (x, y)), 0xf)
                               # (x, y, q AND (15 - w)) # rest)"
    by blast
  from d show ?thesis
  proof
    assume "c_path s' = rest"
    then show ?thesis unfolding dfs_measure_def g cp by (simp only: dfs_weight_pop)
  next
    assume "\<exists>w q. w \<in> {1, 2, 4, 8} \<and> num_walls (q AND (15 - w)) < num_walls q0
              \<and> dir_nb w (x, y) \<in> grid_cells (maze_of s)
              \<and> dir_nb w (x, y) \<notin> frame_xy ` set (c_path s)
              \<and> c_path s' = (fst (dir_nb w (x, y)), snd (dir_nb w (x, y)), 0xf)
                               # (x, y, q AND (15 - w)) # rest"
    then obtain w q where n: "num_walls (q AND (15 - w)) < num_walls q0"
      and nb: "dir_nb w (x, y) \<in> grid_cells (maze_of s)"
        "dir_nb w (x, y) \<notin> frame_xy ` set ((x, y, q0) # rest)"
      and c': "c_path s' = (fst (dir_nb w (x, y)), snd (dir_nb w (x, y)), 0xf)
                               # (x, y, q AND (15 - w)) # rest"
      unfolding cp by blast
    show ?thesis unfolding dfs_measure_def g cp c'
      by (rule dfs_weight_push[OF finite_grid_cells nb n])
  qed
qed

text \<open>
  The loop; the clock is read in its condition only when \<open>c_path\<close> and \<open>best_path\<close> are
  not empty.  The result is \<open>best_path\<close> and the grid as the call leaves it.
\<close>

function find_path_DFS_loop :: "CMazeParams \<Rightarrow> dfs_state \<Rightarrow> (coord list \<times> maze) option" where
  "find_path_DFS_loop p s =
     (if c_path s = [] then Some (best_path s, maze_of s)
      else if best_path s = [] then
        (case find_path_DFS_body p s of None \<Rightarrow> None | Some s' \<Rightarrow> find_path_DFS_loop p s')
      else
        (case time_monotonic (clock_of s) of (t, ck) \<Rightarrow>
           if t - start s < 20 then
             (case find_path_DFS_body p (s\<lparr>clock_of := ck\<rparr>) of
                None \<Rightarrow> None | Some s' \<Rightarrow> find_path_DFS_loop p s')
           else Some (best_path s, maze_of s)))"
  by pat_completeness auto
termination
proof (relation "measure (\<lambda>(p, s). dfs_measure s)")
  show "wf (measure (\<lambda>(p, s). dfs_measure s))" by simp
next
  fix p s s'
  assume "find_path_DFS_body p s = Some s'"
  then show "((p, s'), (p, s)) \<in> measure (\<lambda>(p, s). dfs_measure s)"
    by (simp add: find_path_DFS_body_measure)
next
  fix p s x t ck s'
  assume "find_path_DFS_body p (s\<lparr>clock_of := ck\<rparr>) = Some s'"
  from find_path_DFS_body_measure[OF this]
  show "((p, s'), (p, s)) \<in> measure (\<lambda>(p, s). dfs_measure s)"
    by (simp add: dfs_measure_def)
qed

declare find_path_DFS_loop.simps [simp del]

text \<open>
  \<open>find_path_DFS\<close>, with the argument \<open>best_path\<close> (\<open>[]\<close> by default) as a list of
  coordinates.  The message printed when the time has run out is left out.
\<close>

definition find_path_DFS ::
  "maze \<Rightarrow> CMazeParams \<Rightarrow> coord list \<Rightarrow> clock \<Rightarrow> (coord list \<times> maze) option" where
  "find_path_DFS maze p best ck =
     (case entry p of (x, y) \<Rightarrow>
        (case time_monotonic ck of (t0, ck') \<Rightarrow>
           find_path_DFS_loop p
             \<lparr>maze_of = maze,
              c_path = (if length best > 1 then rev (map (\<lambda>c. (fst c, snd c, 0xf)) best)
                        else [(x, y, 0xf)]),
              best_path = best, paths_q = 0, start = t0, clock_of = ck'\<rparr>))"


subsection \<open>The path of the depth-first search\<close>

text \<open>
  The search changes only the bits 8 and above of a cell.  Throughout, \<open>c_path\<close> runs from
  the entry through open connections of the grid it was given, and \<open>best_path\<close> is empty
  or such a path from the entry to the exit.
\<close>

definition same_walls :: "maze \<Rightarrow> maze \<Rightarrow> bool" where
  "same_walls m0 m \<longleftrightarrow>
     rectangular m \<and> maze_width m = maze_width m0 \<and> maze_height m = maze_height m0
     \<and> (\<forall>c. in_grid m0 c \<longrightarrow> cell_at m c AND 0xff = cell_at m0 c AND 0xff)"

definition dfs_inv :: "maze \<Rightarrow> CMazeParams \<Rightarrow> dfs_state \<Rightarrow> bool" where
  "dfs_inv m0 p s \<longleftrightarrow>
     same_walls m0 (maze_of s)
     \<and> (\<forall>c \<in> set (c_path_cells (c_path s)). in_grid m0 c)
     \<and> open_path m0 (c_path_cells (c_path s))
     \<and> (c_path s \<noteq> [] \<longrightarrow> hd (c_path_cells (c_path s)) = entry p)
     \<and> (\<forall>c \<in> set (best_path s). in_grid m0 c)
     \<and> (best_path s = [] \<or> valid_path m0 p (best_path s))"

lemma same_walls_refl: "rectangular m \<Longrightarrow> same_walls m m"
  by (simp add: same_walls_def)

lemma same_walls_in_grid: "same_walls m0 m \<Longrightarrow> in_grid m c = in_grid m0 c"
  by (simp add: same_walls_def in_grid_def)

lemma low_byte_bit:
  assumes "(a::int) AND 0xff = b AND 0xff" "k < 8"
  shows "bit a k = bit b k"
proof -
  have e: "(0xff::int) = mask 8" by (simp add: mask_eq_exp_minus_1)
  have "bit (a AND 0xff) k = bit a k" "bit (b AND 0xff) k = bit b k"
    unfolding e using assms(2) by (simp_all add: bit_and_iff bit_mask_iff)
  with assms(1) show ?thesis by simp
qed

lemma low_byte_stamp: "(((c::int) AND 0xff) OR push_bit 8 j) AND 0xff = c AND 0xff"
proof -
  have e: "(0xff::int) = mask 8" by (simp add: mask_eq_exp_minus_1)
  show ?thesis unfolding e
    by (rule bit_eqI) (auto simp add: bit_and_iff bit_or_iff bit_mask_iff bit_push_bit_iff)
qed

lemma same_walls_put:
  assumes s: "same_walls m0 m" and g: "in_grid m0 a" and v: "v AND 0xff = cell_at m a AND 0xff"
  shows "same_walls m0 (put m a v)"
proof -
  from s have r: "rectangular m" by (simp add: same_walls_def)
  note ig = same_walls_in_grid[OF s]
  from s have w: "\<And>c. in_grid m0 c \<Longrightarrow> cell_at m c AND 0xff = cell_at m0 c AND 0xff"
    unfolding same_walls_def by blast
  have "cell_at (put m a v) c AND 0xff = cell_at m0 c AND 0xff" if "in_grid m0 c" for c
  proof (cases "c = a")
    case True
    then have "cell_at (put m a v) c = v" using cell_at_put[OF r, of a c v] g ig by simp
    with v w[OF g] True show ?thesis by simp
  next
    case False
    then have "cell_at (put m a v) c = cell_at m c"
      using cell_at_put[OF r, of a c v] g that ig by simp
    with w[OF that] show ?thesis by simp
  qed
  with s show ?thesis by (simp add: same_walls_def)
qed

lemma same_walls_stamp:
  assumes s: "same_walls m0 m" and g: "in_grid m0 (x, y)"
    and c: "mget m x y = Some c" and u: "mset m x y ((c AND 0xff) OR push_bit 8 j) = Some m1"
  shows "same_walls m0 m1"
proof -
  from s have r: "rectangular m" by (simp add: same_walls_def)
  from g have g': "in_grid m (x, y)" by (simp add: same_walls_in_grid[OF s])
  from c mget_in_grid[OF r g'] have c': "c = cell_at m (x, y)" by simp
  from u mset_grid[OF r g', of "(c AND 0xff) OR push_bit 8 j"]
  have "m1 = put m (x, y) ((c AND 0xff) OR push_bit 8 j)" by simp
  then show ?thesis using same_walls_put[OF s g, of "(c AND 0xff) OR push_bit 8 j"]
    by (simp add: low_byte_stamp c')
qed

lemma stamp_best_same_walls:
  "same_walls m0 m \<Longrightarrow> \<forall>j \<in> set js. in_grid m0 (best ! j) \<Longrightarrow>
   stamp_best m best js = Some m' \<Longrightarrow> same_walls m0 m'"
proof (induction js arbitrary: m)
  case Nil
  then show ?case by simp
next
  case (Cons j js)
  obtain x y where b: "best ! j = (x, y)" by (cases "best ! j")
  from Cons.prems(3) b obtain c m1 where
    c: "mget m x y = Some c" and u: "mset m x y ((c AND 0xff) OR push_bit 8 (int j)) = Some m1"
    and r: "stamp_best m1 best js = Some m'"
    by (auto simp add: bind_eq_Some_conv)
  from Cons.prems(2) b have "in_grid m0 (x, y)" by auto
  from same_walls_stamp[OF Cons.prems(1) this c u] have "same_walls m0 m1" .
  from Cons.IH[OF this _ r] Cons.prems(2) show ?case by simp
qed

lemma open_path_butlast: "open_path m cs \<Longrightarrow> open_path m (butlast cs)"
proof (cases "cs = []")
  case False
  assume o: "open_path m cs"
  have "cs = butlast cs @ [last cs]" using False by simp
  with o have "open_path m (butlast cs @ [last cs])" by simp
  then show ?thesis
  proof (cases "butlast cs" rule: rev_cases)
    case Nil
    then show ?thesis by simp
  next
    case (snoc ys y)
    with \<open>open_path m (butlast cs @ [last cs])\<close> have "open_path m (ys @ [y, last cs])" by simp
    then show ?thesis unfolding snoc open_path_snoc by simp
  qed
qed simp

lemma c_path_cells_tl: "c_path_cells (tl st) = butlast (c_path_cells st)"
  by (cases st) (simp_all add: c_path_cells_def)

lemma c_path_cells_Cons: "c_path_cells (f # st) = c_path_cells st @ [frame_xy f]"
  by (simp add: c_path_cells_def)

lemma hd_butlast: "butlast cs \<noteq> [] \<Longrightarrow> hd (butlast cs) = hd cs"
  by (cases cs) (auto split: if_splits)

lemma dfs_inv_pop:
  assumes "dfs_inv m0 p s"
  shows "dfs_inv m0 p (dfs_pop s)"
proof -
  have "tl (c_path s) \<noteq> [] \<Longrightarrow> c_path s \<noteq> []" by auto
  moreover have "set (butlast (c_path_cells (c_path s))) \<subseteq> set (c_path_cells (c_path s))"
    by (auto dest: in_set_butlastD)
  moreover have "tl (c_path s) \<noteq> [] \<Longrightarrow> butlast (c_path_cells (c_path s)) \<noteq> []"
    unfolding c_path_cells_tl[symmetric] by (simp add: c_path_cells_def)
  ultimately show ?thesis
    using assms unfolding dfs_inv_def dfs_pop_def
    by (auto simp add: c_path_cells_tl open_path_butlast hd_butlast)
qed

lemma check_point_in_path_nth:
  "check_point_in_path cs x y = Suc k \<Longrightarrow> k < length cs \<and> cs ! k = (x, y)"
proof (induction cs arbitrary: k)
  case Nil
  then show ?case by simp
next
  case (Cons c cs)
  show ?case
  proof (cases "x = fst c \<and> y = snd c")
    case True
    with Cons.prems show ?thesis by (auto simp add: prod_eq_iff)
  next
    case False
    with Cons.prems obtain k' where "check_point_in_path cs x y = Suc k'" "k = Suc k'"
      by (cases "check_point_in_path cs x y") auto
    with Cons.IH[of k'] show ?thesis by simp
  qed
qed


lemma open_path_appendD: "open_path m (xs @ a # ys) \<Longrightarrow> open_path m (a # ys)"
  using open_path_append[of m xs a ys] by blast

lemma open_path_appendI:
  "open_path m (xs @ [a]) \<Longrightarrow> open_path m (a # ys) \<Longrightarrow> open_path m (xs @ a # ys)"
  using open_path_append[of m xs a ys] by blast

lemma dfs_inv_cong:
  "maze_of s' = maze_of s \<Longrightarrow> c_path s' = c_path s \<Longrightarrow> best_path s' = best_path s \<Longrightarrow>
   dfs_inv m0 p s' = dfs_inv m0 p s"
  by (simp add: dfs_inv_def)

lemma dfs_found_best:
  "best_path (dfs_found s) =
     (if best_path s = [] \<or> length (best_path s) > length (c_path s)
      then c_path_cells (c_path s) else best_path s)"
  by (simp add: dfs_found_def Let_def split: prod.splits)

lemma dfs_inv_best:
  assumes i: "dfs_inv m0 p s" and v: "valid_path m0 p best" and g: "\<forall>c \<in> set best. in_grid m0 c"
    and m: "same_walls m0 m"
  shows "dfs_inv m0 p (s\<lparr>maze_of := m, best_path := best\<rparr>)"
  using assms by (simp add: dfs_inv_def)

lemma dfs_inv_found:
  assumes i: "dfs_inv m0 p s" and cp: "c_path s = (x, y, q) # rest" and e: "(x, y) = exit p"
  shows "dfs_inv m0 p (dfs_found s)"
proof -
  from i cp have a: "\<forall>c \<in> set (c_path_cells (c_path s)). in_grid m0 c"
    "open_path m0 (c_path_cells (c_path s))" "hd (c_path_cells (c_path s)) = entry p"
    and sw: "same_walls m0 (maze_of s)"
    and b: "\<forall>c \<in> set (best_path s). in_grid m0 c" "best_path s = [] \<or> valid_path m0 p (best_path s)"
    by (simp_all add: dfs_inv_def)
  have "last (c_path_cells (c_path s)) = exit p" "c_path_cells (c_path s) \<noteq> []"
    using cp e by (simp_all add: c_path_cells_def frame_xy_def)
  with a have v: "valid_path m0 p (c_path_cells (c_path s))" by (simp add: valid_path_def)
  define best where "best = best_path (dfs_found s)"
  have bv: "valid_path m0 p best" "\<forall>c \<in> set best. in_grid m0 c"
    using v a(1) b unfolding best_def dfs_found_best by (auto split: if_splits)
  have "dfs_inv m0 p (s\<lparr>maze_of := maze_of s, best_path := best\<rparr>)"
    by (rule dfs_inv_best[OF i bv sw])
  from dfs_inv_pop[OF this]
  have "dfs_inv m0 p (dfs_pop (s\<lparr>maze_of := maze_of s, best_path := best\<rparr>))" .
  moreover have "dfs_inv m0 p (dfs_found s)
      = dfs_inv m0 p (dfs_pop (s\<lparr>maze_of := maze_of s, best_path := best\<rparr>))"
    by (rule dfs_inv_cong) (simp_all add: dfs_found_shape dfs_pop_def best_def)
  ultimately show ?thesis by simp
qed

lemma valid_path_stitched:
  assumes v: "valid_path m0 p best" and k: "check_point_in_path best x y = Suc k"
    and o: "open_path m0 cs" and c: "cs \<noteq> []" "hd cs = entry p" "last cs = (x, y)"
  shows "valid_path m0 p (cs @ drop (Suc k) best)"
proof -
  from check_point_in_path_nth[OF k] have kl: "k < length best" and bk: "best ! k = (x, y)"
    by simp_all
  from id_take_nth_drop[OF kl] bk have sp: "best = take k best @ (x, y) # drop (Suc k) best"
    by simp
  from v have ov: "open_path m0 best" and lv: "last best = exit p" by (simp_all add: valid_path_def)
  from ov sp have "open_path m0 (take k best @ (x, y) # drop (Suc k) best)" by simp
  then have t: "open_path m0 ((x, y) # drop (Suc k) best)"
    by (rule open_path_appendD)
  have cs: "cs = butlast cs @ [(x, y)]" using c(1,3) by (metis append_butlast_last_id)
  from o cs have "open_path m0 (butlast cs @ [(x, y)])" by simp
  from open_path_appendI[OF this t]
  have "open_path m0 ((butlast cs @ [(x, y)]) @ drop (Suc k) best)" by simp
  then have op: "open_path m0 (cs @ drop (Suc k) best)" using cs by simp
  have "last (cs @ drop (Suc k) best) = exit p"
  proof (cases "drop (Suc k) best = []")
    case True
    with sp have "last best = (x, y)" by (metis last_snoc)
    with lv c(3) True show ?thesis by simp
  next
    case False
    then have "last (drop (Suc k) best) = last best" by (simp add: last_drop)
    with False lv show ?thesis by simp
  qed
  with op c show ?thesis by (simp add: valid_path_def)
qed

lemma dfs_inv_stamp:
  assumes i: "dfs_inv m0 p s" and cp: "c_path s = (x, y, q0) # rest"
    and st: "dfs_stamp s x y q0 n = Some (s1, stop)"
  shows "dfs_inv m0 p s1"
proof -
  from i cp have a: "\<forall>c \<in> set (c_path_cells (c_path s)). in_grid m0 c"
    "open_path m0 (c_path_cells (c_path s))" "hd (c_path_cells (c_path s)) = entry p"
    and sw: "same_walls m0 (maze_of s)"
    and b: "\<forall>c \<in> set (best_path s). in_grid m0 c" "best_path s = [] \<or> valid_path m0 p (best_path s)"
    by (simp_all add: dfs_inv_def)
  have l: "last (c_path_cells (c_path s)) = (x, y)" "c_path_cells (c_path s) \<noteq> []"
    using cp by (simp_all add: c_path_cells_def frame_xy_def)
  then have g: "in_grid m0 (x, y)" using a(1) last_in_set by metis
  from dfs_stamp_cases[OF st] consider
    "s1 = s" | "s1 = dfs_pop s"
    | c m1 where "mget (maze_of s) x y = Some c"
        "mset (maze_of s) x y ((c AND 0xff) OR push_bit 8 (int n)) = Some m1"
        "s1 = s\<lparr>maze_of := m1\<rparr>"
    | c m1 m2 where "mget (maze_of s) x y = Some c"
        "mset (maze_of s) x y ((c AND 0xff) OR push_bit 8 (int n)) = Some m1"
        "0 < check_point_in_path (best_path s) x y"
        "stamp_best m1 (stitched s x y) [n + 1 ..< length (stitched s x y)] = Some m2"
        "s1 = s\<lparr>maze_of := m2, best_path := stitched s x y, c_path := tl (c_path s)\<rparr>"
    by blast
  then show ?thesis
  proof cases
    case 1
    with i show ?thesis by simp
  next
    case 2
    with dfs_inv_pop[OF i] show ?thesis by simp
  next
    case 3
    from same_walls_stamp[OF sw g 3(1,2)] i show ?thesis unfolding 3(3) by (simp add: dfs_inv_def)
  next
    case 4
    note s1 = same_walls_stamp[OF sw g 4(1,2)]
    from 4(3) obtain k where k: "check_point_in_path (best_path s) x y = Suc k"
      by (cases "check_point_in_path (best_path s) x y") auto
    then have "best_path s \<noteq> []" by auto
    with b(2) have v: "valid_path m0 p (best_path s)" by simp
    have se: "stitched s x y = c_path_cells (c_path s) @ drop (Suc k) (best_path s)"
      by (simp add: stitched_def k)
    have sv: "valid_path m0 p (stitched s x y)"
      unfolding se by (rule valid_path_stitched[OF v k a(2) l(2) a(3) l(1)])
    have sg: "\<forall>c \<in> set (stitched s x y). in_grid m0 c"
      unfolding se using a(1) b(1) by (auto dest: in_set_dropD)
    then have "\<forall>j \<in> set [n + 1 ..< length (stitched s x y)]. in_grid m0 (stitched s x y ! j)"
      by simp
    from stamp_best_same_walls[OF s1 this 4(4)] have s2: "same_walls m0 m2" .
    have "dfs_inv m0 p (s\<lparr>maze_of := m2, best_path := stitched s x y\<rparr>)"
      by (rule dfs_inv_best[OF i sv sg s2])
    from dfs_inv_pop[OF this] show ?thesis unfolding 4(5) by (simp add: dfs_pop_def)
  qed
qed

lemma dfs_walls_open:
  assumes sw: "same_walls m0 m" and g: "in_grid m0 (x, y)"
    and d: "maze_width m0 = width p" "maze_height m0 = height p"
    and ws: "find_path_DFS_walls m p cp x y q0 = Some q"
    and w: "w \<in> {1, 2, 4, 8}" and b: "bit q (dir_idx w)"
  shows "open_between m0 (x, y) (dir_nb w (x, y))"
proof -
  from sw have r: "rectangular m" by (simp add: same_walls_def)
  note ig = same_walls_in_grid[OF sw]
  note gd = in_grid_dir[OF g d]
  from sw have lb: "\<And>c. in_grid m0 c \<Longrightarrow> cell_at m c AND 0xff = cell_at m0 c AND 0xff"
    unfolding same_walls_def by blast
  have cb: "bit (cell_at m0 c) k = bit v k" if "in_grid m0 c" "mget m (fst c) (snd c) = Some v" "k < 8"
    for c k v
  proof -
    from that(1) have "in_grid m c" by (simp add: ig)
    from mget_grid[OF r this] that(2) have "v = cell_at m c" by simp
    with low_byte_bit[OF lb[OF that(1)] that(3)] show ?thesis by simp
  qed
  note so = find_path_DFS_walls_sound[OF ws]
  from w consider "w = 1" | "w = 2" | "w = 4" | "w = 8" by auto
  then show ?thesis
  proof cases
    case 1
    with b have "bit q 0" by (simp add: dir_idx_def)
    from so(2)[OF this] obtain c where y: "y \<noteq> 0" and c: "mget m x y = Some c" "\<not> bit c 0"
      by blast
    have n: "in_grid m0 (dir_nb 1 (x, y))" using gd(1) y by simp
    have "\<not> bit (cell_at m0 (x, y)) 0" using cb[OF g, of c 0] c by simp
    with g n show ?thesis unfolding 1 open_between_def
      by (simp add: wall_of_dir dir_owner_def dir_bit_def)
  next
    case 2
    with b have "bit q 1" by (simp add: dir_idx_def)
    from so(3)[OF this] obtain c where y: "x \<noteq> width p - 1" and c: "mget m x y = Some c" "\<not> bit c 1"
      by blast
    have n: "in_grid m0 (dir_nb 2 (x, y))" using gd(2) y by simp
    have "\<not> bit (cell_at m0 (x, y)) 1" using cb[OF g, of c 1] c by simp
    with g n show ?thesis unfolding 2 open_between_def
      by (simp add: wall_of_dir dir_owner_def dir_bit_def)
  next
    case 3
    with b have "bit q 2" by (simp add: dir_idx_def)
    from so(4)[OF this] obtain a where y: "y \<noteq> height p - 1"
      and c: "mget m x (y + 1) = Some a" "\<not> bit a 0"
      by blast
    have n: "in_grid m0 (dir_nb 4 (x, y))" using gd(3) y by simp
    have "\<not> bit (cell_at m0 (dir_nb 4 (x, y))) 0"
      using cb[OF n, of a 0] c by (simp add: dir_nb_simps)
    with g n show ?thesis unfolding 3 open_between_def
      by (simp add: wall_of_dir dir_owner_def dir_bit_def)
  next
    case 4
    with b have "bit q 3" by (simp add: dir_idx_def)
    from so(5)[OF this] obtain a where y: "x \<noteq> 0"
      and c: "mget m (x - 1) y = Some a" "\<not> bit a 1"
      by blast
    have n: "in_grid m0 (dir_nb 8 (x, y))" using gd(4) y by simp
    have "\<not> bit (cell_at m0 (dir_nb 8 (x, y))) 1"
      using cb[OF n, of a 1] c by (simp add: dir_nb_simps)
    with g n show ?thesis unfolding 4 open_between_def
      by (simp add: wall_of_dir dir_owner_def dir_bit_def)
  qed
qed

lemma dfs_inv_push:
  assumes i: "dfs_inv m0 p s" and cp: "c_path s = (x, y, q0) # rest"
    and d: "maze_width m0 = width p" "maze_height m0 = height p"
    and ws: "find_path_DFS_walls (maze_of s) p cp' x y q0 = Some q"
    and w: "w \<in> {1, 2, 4, 8}" and b: "bit q (dir_idx w)"
  shows "dfs_inv m0 p (s\<lparr>c_path := dfs_push x y q rest w\<rparr>)"
proof -
  from i cp have a: "\<forall>c \<in> set (c_path_cells (c_path s)). in_grid m0 c"
    "open_path m0 (c_path_cells (c_path s))" "hd (c_path_cells (c_path s)) = entry p"
    and sw: "same_walls m0 (maze_of s)"
    and bp: "\<forall>c \<in> set (best_path s). in_grid m0 c" "best_path s = [] \<or> valid_path m0 p (best_path s)"
    by (simp_all add: dfs_inv_def)
  have l: "c_path_cells (c_path s) = c_path_cells rest @ [(x, y)]"
    using cp by (simp add: c_path_cells_def frame_xy_def)
  then have g: "in_grid m0 (x, y)" using a(1) by simp
  note ob = dfs_walls_open[OF sw g d ws w b]
  define nb where "nb = dir_nb w (x, y)"
  have ng: "in_grid m0 nb" using ob by (simp add: open_between_def nb_def)
  have e: "c_path_cells (dfs_push x y q rest w) = c_path_cells (c_path s) @ [nb]"
    unfolding dfs_push_dir[OF w] l by (simp add: c_path_cells_def frame_xy_def nb_def)
  have o: "open_path m0 (c_path_cells (c_path s) @ [nb])"
    unfolding l using a(2) ob open_between_adjacent[OF ob]
    by (simp add: open_path_snoc l nb_def)
  have h: "hd (c_path_cells (c_path s) @ [nb]) = entry p" using a(3) l
    by (cases "c_path_cells rest") simp_all
  show ?thesis
    unfolding dfs_inv_def using sw a(1) ng o h bp by (simp add: e)
qed

lemma find_path_DFS_body_inv:
  assumes i: "dfs_inv m0 p s" and d: "maze_width m0 = width p" "maze_height m0 = height p"
    and b: "find_path_DFS_body p s = Some s'"
  shows "dfs_inv m0 p s'"
proof -
  from b obtain f rest where cp: "c_path s = f # rest"
    by (cases "c_path s") (simp_all add: find_path_DFS_body_def)
  obtain x y q0 where f: "f = (x, y, q0)" by (cases f)
  obtain ox oy where e: "exit p = (ox, oy)" by (cases "exit p")
  define prune where "prune \<longleftrightarrow> best_path s \<noteq> [] \<and>
     (int (length (c_path s)) + (\<bar>ox - x\<bar> + \<bar>oy - y\<bar>) > int (length (best_path s))
      \<or> length (c_path s) \<ge> length (best_path s))"
  have bd: "find_path_DFS_body p s =
     (if prune then Some (dfs_pop s)
      else if x = ox \<and> oy = y then Some (dfs_found s)
      else Option.bind (dfs_stamp s x y q0 (length (c_path s) - 1)) (\<lambda>(s1, stop).
             if stop then Some s1
             else Option.bind (find_path_DFS_walls (maze_of s1) p (c_path_cells (c_path s1)) x y q0)
               (\<lambda>q. if q = 0 then Some (dfs_pop s1)
                     else Some (s1\<lparr>c_path := dfs_push x y q rest (dfs_choose ox oy x y q)\<rparr>))))"
    unfolding find_path_DFS_body_def cp list.case f prod.case e prune_def
    by (simp add: cp f)
  show ?thesis
  proof (cases prune)
    case True
    with b bd have "s' = dfs_pop s" by simp
    with dfs_inv_pop[OF i] show ?thesis by simp
  next
    case np: False
    show ?thesis
    proof (cases "x = ox \<and> oy = y")
      case True
      with b bd np have "s' = dfs_found s" by simp
      moreover have "(x, y) = exit p" using True e by simp
      ultimately show ?thesis using dfs_inv_found[OF i cp[unfolded f]] by simp
    next
      case ne: False
      from b bd np ne obtain s1 stop where
        st: "dfs_stamp s x y q0 (length (c_path s) - 1) = Some (s1, stop)"
        and r: "(if stop then Some s1
             else Option.bind (find_path_DFS_walls (maze_of s1) p (c_path_cells (c_path s1)) x y q0)
               (\<lambda>q. if q = 0 then Some (dfs_pop s1)
                     else Some (s1\<lparr>c_path := dfs_push x y q rest (dfs_choose ox oy x y q)\<rparr>))) = Some s'"
        by (auto simp add: bind_eq_Some_conv)
      note i1 = dfs_inv_stamp[OF i cp[unfolded f] st]
      note sh = dfs_stamp_shape[OF st]
      show ?thesis
      proof (cases stop)
        case True
        with r i1 show ?thesis by simp
      next
        case ns: False
        with sh have c1: "c_path s1 = (x, y, q0) # rest" by (simp add: cp f)
        from r ns obtain q where
          q: "find_path_DFS_walls (maze_of s1) p (c_path_cells (c_path s1)) x y q0 = Some q"
          and r2: "(if q = 0 then Some (dfs_pop s1)
                     else Some (s1\<lparr>c_path := dfs_push x y q rest (dfs_choose ox oy x y q)\<rparr>)) = Some s'"
          by (auto simp add: bind_eq_Some_conv)
        show ?thesis
        proof (cases "q = 0")
          case True
          with r2 have "s' = dfs_pop s1" by simp
          with dfs_inv_pop[OF i1] show ?thesis by simp
        next
          case q0: False
          define w where "w = dfs_choose ox oy x y q"
          from r2 q0 have s': "s' = s1\<lparr>c_path := dfs_push x y q rest w\<rparr>" by (simp add: w_def)
          from dfs_choose_cases[of ox oy x y q] consider "w = 0"
            | "w \<in> {1, 2, 4, 8}" "bit q (dir_idx w)"
            unfolding w_def by (auto simp add: dir_idx_def)
          then show ?thesis
          proof cases
            case 1
            then have "dfs_push x y q rest w = rest" by (simp add: dfs_push_def)
            then have "s' = dfs_pop s1" using s' c1 by (simp add: dfs_pop_def)
            with dfs_inv_pop[OF i1] show ?thesis by simp
          next
            case 2
            from dfs_inv_push[OF i1 c1 d q 2] s' show ?thesis by simp
          qed
        qed
      qed
    qed
  qed
qed

lemma find_path_DFS_loop_inv:
  assumes d: "maze_width m0 = width p" "maze_height m0 = height p"
  shows "dfs_inv m0 p s \<Longrightarrow> find_path_DFS_loop p s = Some (path, m') \<Longrightarrow>
     (path = [] \<or> valid_path m0 p path) \<and> same_walls m0 m'"
proof (induction s rule: measure_induct_rule[of dfs_measure])
  case (less s)
  note i = less.prems(1) and l = less.prems(2)
  have fin: "(best_path s = [] \<or> valid_path m0 p (best_path s)) \<and> same_walls m0 (maze_of s)"
    using i by (simp add: dfs_inv_def)
  show ?case
  proof (cases "c_path s = []")
    case True
    with l have "path = best_path s" "m' = maze_of s"
      by (simp_all add: find_path_DFS_loop.simps[of p s])
    with fin show ?thesis by simp
  next
    case ne: False
    show ?thesis
    proof (cases "best_path s = []")
      case True
      with l ne obtain s' where b: "find_path_DFS_body p s = Some s'"
        and l': "find_path_DFS_loop p s' = Some (path, m')"
        by (auto simp add: find_path_DFS_loop.simps[of p s] split: option.splits)
      from less.IH[OF find_path_DFS_body_measure[OF b] find_path_DFS_body_inv[OF i d b] l']
      show ?thesis .
    next
      case nb: False
      obtain t ck where tm: "time_monotonic (clock_of s) = (t, ck)"
        by (cases "time_monotonic (clock_of s)")
      show ?thesis
      proof (cases "t - start s < 20")
        case False
        with l ne nb tm have "path = best_path s" "m' = maze_of s"
          by (simp_all add: find_path_DFS_loop.simps[of p s])
        with fin show ?thesis by simp
      next
        case True
        with l ne nb tm obtain s' where b: "find_path_DFS_body p (s\<lparr>clock_of := ck\<rparr>) = Some s'"
          and l': "find_path_DFS_loop p s' = Some (path, m')"
          by (auto simp add: find_path_DFS_loop.simps[of p s] split: option.splits)
        have i': "dfs_inv m0 p (s\<lparr>clock_of := ck\<rparr>)"
          using i dfs_inv_cong[of "s\<lparr>clock_of := ck\<rparr>" s m0 p] by simp
        have "dfs_measure s' < dfs_measure s"
          using find_path_DFS_body_measure[OF b] by (simp add: dfs_measure_def)
        from less.IH[OF this find_path_DFS_body_inv[OF i' d b] l'] show ?thesis .
      qed
    qed
  qed
qed

lemma open_path_in_grid:
  "open_path m cs \<Longrightarrow> 1 < length cs \<Longrightarrow> \<forall>c \<in> set cs. in_grid m c"
proof (induction m cs rule: open_path.induct)
  case (1 m a b rest)
  then have ab: "in_grid m a" "in_grid m b" by (simp_all add: open_between_def)
  show ?case
  proof (cases rest)
    case Nil
    with ab show ?thesis by simp
  next
    case (Cons c cs)
    with 1 ab show ?thesis by simp
  qed
qed simp_all

lemma find_path_DFS_valid:
  assumes r: "rectangular maze" and d: "maze_width maze = width p" "maze_height maze = height p"
    and g: "in_grid maze (entry p)"
    and b: "best = [] \<or> valid_path maze p best"
    and f: "find_path_DFS maze p best ck = Some (path, maze')"
  shows "(path = [] \<or> valid_path maze p path) \<and> same_walls maze maze'"
proof -
  obtain x y where e: "entry p = (x, y)" by (cases "entry p")
  obtain t0 ck' where tm: "time_monotonic ck = (t0, ck')" by (cases "time_monotonic ck")
  define cp :: "frame list" where
    "cp = (if length best > 1 then rev (map (\<lambda>c. (fst c, snd c, 0xf)) best)
           else [(x, y, 0xf)])"
  define s where "s = \<lparr>maze_of = maze, c_path = cp, best_path = best, paths_q = 0,
                        start = t0, clock_of = ck'\<rparr>"
  from f have l: "find_path_DFS_loop p s = Some (path, maze')"
    by (simp add: find_path_DFS_def e tm s_def cp_def)
  have bg: "\<forall>c \<in> set best. in_grid maze c"
  proof (cases "1 < length best")
    case True
    with b have "open_path maze best" by (auto simp add: valid_path_def)
    from open_path_in_grid[OF this True] show ?thesis .
  next
    case False
    show ?thesis
    proof (cases best)
      case Nil
      then show ?thesis by simp
    next
      case (Cons c cs)
      with False have "best = [c]" by simp
      with b g show ?thesis by (simp add: valid_path_def)
    qed
  qed
  have cc: "c_path_cells cp = (if length best > 1 then best else [(x, y)])"
    by (simp add: cp_def c_path_cells_def rev_map frame_xy_def comp_def)
  have "dfs_inv maze p s"
  proof (cases "1 < length best")
    case True
    with b have v: "valid_path maze p best" by auto
    with True bg show ?thesis
      unfolding dfs_inv_def s_def using r
      by (simp add: cc same_walls_refl valid_path_def)
  next
    case False
    with b bg g show ?thesis
      unfolding dfs_inv_def s_def using r
      by (simp add: cc same_walls_refl e cp_def c_path_cells_def frame_xy_def)
  qed
  from find_path_DFS_loop_inv[OF d this l] show ?thesis .
qed

lemma find_path_BFS_valid:
  assumes r: "rectangular maze" and g: "in_grid maze (entry p)"
    and f: "find_path_BFS maze p = Some (path, maze')" and n: "path \<noteq> []"
  shows "valid_path maze p (map frame_xy path)"
proof -
  note p0 = py_get_row0[OF g]
  from f have l: "bfs_loop maze (maze_height maze) (maze_width maze) (entry p) (exit p)
       ([entry p], {entry p}, Map.empty) = Some (path, maze')"
    by (simp add: find_path_BFS_def p0)
  have "bfs_inv maze ([entry p], {entry p}, Map.empty)" using g by (simp add: bfs_inv_def)
  from bfs_loop_valid[OF r this l n] n show ?thesis by (simp add: valid_path_def)
qed

text \<open>
  Claim C2. On a rectangular grid of the dimensions of the parameters, with the entry in
  the grid: a non-empty path returned by \<open>find_path_BFS\<close>, and a non-empty path returned
  by \<open>find_path_DFS\<close> (called with no \<open>best_path\<close>, or with one that is such a path
  already, and whatever the clock reads), starts at the entry, ends at the exit, and every
  cell of it is a neighbour of the cell before it (exactly one coordinate differs, by
  exactly 1) with no wall between the two.
\<close>

theorem find_path_valid:
  assumes "rectangular maze" "maze_width maze = width p" "maze_height maze = height p"
    and "in_grid maze (entry p)"
  shows "(\<forall>path maze'. find_path_BFS maze p = Some (path, maze') \<and> path \<noteq> []
            \<longrightarrow> valid_path maze p (map frame_xy path))
     \<and> (\<forall>best ck path maze'. (best = [] \<or> valid_path maze p best)
            \<and> find_path_DFS maze p best ck = Some (path, maze') \<and> path \<noteq> []
            \<longrightarrow> valid_path maze p path)"
  using find_path_BFS_valid[OF assms(1,4)] find_path_DFS_valid[OF assms]
  by blast

theorem find_path_valid_witness:
  "find_path_BFS [[25, 19], [17, 22]] (mk_params 2 2 (1, 1) (0, 0))
     = Some ([(1, 1, 0), (1, 0, 0), (0, 0, 0)], [[25, 19], [17, 22]])
   \<and> find_path_DFS [[25, 19], [17, 22]] (mk_params 2 2 (1, 1) (0, 0)) [] (\<lambda>n. 0)
     = Some ([(1, 1), (1, 0), (0, 0)], [[25, 275], [273, 22]])
   \<and> valid_path [[25, 19], [17, 22]] (mk_params 2 2 (1, 1) (0, 0)) [(1, 1), (1, 0), (0, 0)]"
proof -
  have h: "rectangular [[25, 19], [17, 22]]"
    "maze_width [[25, 19], [17, 22]] = width (mk_params 2 2 (1, 1) (0, 0))"
    "maze_height [[25, 19], [17, 22]] = height (mk_params 2 2 (1, 1) (0, 0))"
    "in_grid [[25, 19], [17, 22]] (entry (mk_params 2 2 (1, 1) (0, 0)))"
    by code_simp+
  have b: "find_path_BFS [[25, 19], [17, 22]] (mk_params 2 2 (1, 1) (0, 0))
     = Some ([(1, 1, 0), (1, 0, 0), (0, 0, 0)], [[25, 19], [17, 22]])" by code_simp
  have d: "find_path_DFS [[25, 19], [17, 22]] (mk_params 2 2 (1, 1) (0, 0)) [] (\<lambda>n. 0)
     = Some ([(1, 1), (1, 0), (0, 0)], [[25, 275], [273, 22]])" by code_simp
  have m: "map frame_xy [(1, 1, 0), (1, 0, 0), (0, 0, 0)] = [(1, 1), (1, 0), (0, 0)]"
    by (simp add: frame_xy_def)
  from find_path_valid[OF h] b have
    "valid_path [[25, 19], [17, 22]] (mk_params 2 2 (1, 1) (0, 0))
       (map frame_xy [(1, 1, 0), (1, 0, 0), (0, 0, 0)])" by blast
  moreover from find_path_valid[OF h] d have
    "valid_path [[25, 19], [17, 22]] (mk_params 2 2 (1, 1) (0, 0)) [(1, 1), (1, 0), (0, 0)]"
    by blast
  ultimately show ?thesis using b d by simp
qed

text \<open>
  The claim as stated speaks of every path \<open>find_path_DFS\<close> returns.  The function starts
  from its argument \<open>best_path\<close> and never checks it: called with a path that crosses the
  wall between \<open>(0, 1)\<close> and \<open>(0, 0)\<close>, it prunes every frame (no path shorter than three
  cells exists) and returns that path.
\<close>

theorem find_path_DFS_keeps_best_path_counterexample:
  "find_path_DFS [[25, 19], [17, 22]] (mk_params 2 2 (1, 1) (0, 0)) [(1, 1), (0, 1), (0, 0)] (\<lambda>n. 0)
     = Some ([(1, 1), (0, 1), (0, 0)], [[25, 275], [273, 22]])
   \<and> \<not> open_between [[25, 19], [17, 22]] (0, 1) (0, 0)
   \<and> \<not> valid_path [[25, 19], [17, 22]] (mk_params 2 2 (1, 1) (0, 0)) [(1, 1), (0, 1), (0, 0)]"
  by code_simp


section \<open>Transient bits\<close>

text \<open>
  Every cell of the grid fits in the low nibble; and what the body of the loops of
  \<open>clear_tmp_data\<close> makes of a cell.
\<close>

definition low_nibble :: "maze \<Rightarrow> bool" where
  "low_nibble maze = list_all (list_all (\<lambda>c. c \<le> 0xf)) maze"

definition cleared :: "int \<Rightarrow> int" where
  "cleared c = (if c > 0xf then c AND 0xf else c)"

lemma cleared_le: "cleared c \<le> 0xf"
proof -
  have "c AND 0xf \<le> 0xf" by (rule AND_upper2) simp
  then show ?thesis by (simp add: cleared_def)
qed

lemma cleared_idem: "cleared (cleared c) = cleared c"
  using cleared_le[of c] by (simp add: cleared_def[of "cleared c"])

lemma cleared_and: "cleared c AND 0xf = c AND 0xf"
  by (simp add: cleared_def and.assoc)

lemma mset_shape: "mset m x y v = Some m' \<Longrightarrow> map length m' = map length m"
  by (auto simp add: mset_midx map_length_mupd)

lemma shape_rect:
  assumes "map length m' = map length m"
  shows "rectangular m' = rectangular m" "maze_width m' = maze_width m"
    "maze_height m' = maze_height m" "in_grid m' c = in_grid m c"
proof -
  show w: "maze_width m' = maze_width m" by (simp add: maze_width_length assms)
  show "rectangular m' = rectangular m" by (simp add: rectangular_length assms w)
  have "length (map length m') = length (map length m)" by (simp only: assms)
  then show h: "maze_height m' = maze_height m" by (simp add: maze_height_def)
  show "in_grid m' c = in_grid m c" by (simp add: in_grid_def w h)
qed

lemma clear_tmp_row_grid:
  assumes "rectangular m" "\<forall>x \<in> set xs. in_grid m (x, y)"
  shows "\<exists>m'. clear_tmp_row y xs m = Some m' \<and> map length m' = map length m
     \<and> (\<forall>c. in_grid m c \<longrightarrow> cell_at m' c
           = (if snd c = y \<and> fst c \<in> set xs then cleared (cell_at m c) else cell_at m c))"
  using assms
proof (induction xs arbitrary: m)
  case Nil
  then show ?case by simp
next
  case (Cons x xs)
  note r = Cons.prems(1)
  from Cons.prems(2) have g: "in_grid m (x, y)" by simp
  define m1 where "m1 = put m (x, y) (cleared (cell_at m (x, y)))"
  have g1: "mget m x y = Some (cell_at m (x, y))" using mget_grid[OF r g] by simp
  have s1: "map length m1 = map length m" by (simp add: m1_def put_def map_length_mupd)
  have c1: "cell_at m1 c = (if c = (x, y) then cleared (cell_at m c) else cell_at m c)"
    if "in_grid m c" for c
    unfolding m1_def using cell_at_put[OF r g that] by simp
  have st: "clear_tmp_row y (x # xs) m = clear_tmp_row y xs m1"
  proof (cases "cell_at m (x, y) > 0xf")
    case True
    then have "mset m x y (cell_at m (x, y) AND 0xf) = Some m1"
      using mset_grid[OF r g] by (simp add: m1_def cleared_def)
    with True g1 show ?thesis by simp
  next
    case False
    then have "cleared (cell_at m (x, y)) = cell_at m (x, y)" by (simp add: cleared_def)
    then have "m1 = m" unfolding m1_def put_def mupd_def
      by (simp add: cell_at_def)
    with False g1 show ?thesis by simp
  qed
  have r1: "rectangular m1" using shape_rect(1)[OF s1] r by simp
  have "\<forall>x \<in> set xs. in_grid m1 (x, y)" using Cons.prems(2) shape_rect(4)[OF s1] by simp
  from Cons.IH[OF r1 this] obtain m' where
    e: "clear_tmp_row y xs m1 = Some m'" and s: "map length m' = map length m1"
    and c: "\<And>c. in_grid m1 c \<Longrightarrow> cell_at m' c
           = (if snd c = y \<and> fst c \<in> set xs then cleared (cell_at m1 c) else cell_at m1 c)"
    by blast
  have "cell_at m' c
           = (if snd c = y \<and> fst c \<in> set (x # xs) then cleared (cell_at m c) else cell_at m c)"
    if "in_grid m c" for c
  proof -
    from that have "in_grid m1 c" by (simp add: shape_rect(4)[OF s1])
    from c[OF this] c1[OF that] show ?thesis
      by (cases c) (auto simp add: cleared_idem)
  qed
  with e s s1 st show ?case by simp
qed

lemma clear_tmp_rows_grid:
  assumes "rectangular m" "\<forall>y \<in> set ys. 0 \<le> y \<and> y < maze_height m"
  shows "\<exists>m'. clear_tmp_rows ys m = Some m' \<and> map length m' = map length m
     \<and> (\<forall>c. in_grid m c \<longrightarrow> cell_at m' c
           = (if snd c \<in> set ys then cleared (cell_at m c) else cell_at m c))"
  using assms
proof (induction ys arbitrary: m)
  case Nil
  then show ?case by simp
next
  case (Cons y ys)
  note r = Cons.prems(1)
  from Cons.prems(2) have y: "0 \<le> y" "y < maze_height m" by simp_all
  then have "m \<noteq> []" by (auto simp add: maze_height_def)
  then obtain r0 rs where m: "m = r0 # rs" by (cases m) auto
  have p0: "py_get m 0 = Some r0" by (simp add: m py_get_def py_index_def)
  have w: "int (length r0) = maze_width m" by (simp add: m maze_width_def)
  have "\<forall>x \<in> set (py_range 0 (int (length r0))). in_grid m (x, y)"
    using y w by (simp add: py_range_set in_grid_def)
  from clear_tmp_row_grid[OF r this] obtain m1 where
    e1: "clear_tmp_row y (py_range 0 (int (length r0))) m = Some m1"
    and s1: "map length m1 = map length m"
    and c1: "\<And>c. in_grid m c \<Longrightarrow> cell_at m1 c
           = (if snd c = y \<and> fst c \<in> set (py_range 0 (int (length r0)))
              then cleared (cell_at m c) else cell_at m c)"
    by blast
  have r1: "rectangular m1" using shape_rect(1)[OF s1] r by simp
  have "\<forall>y \<in> set ys. 0 \<le> y \<and> y < maze_height m1"
    using Cons.prems(2) shape_rect(3)[OF s1] by simp
  from Cons.IH[OF r1 this] obtain m' where
    e: "clear_tmp_rows ys m1 = Some m'" and s: "map length m' = map length m1"
    and c: "\<And>c. in_grid m1 c \<Longrightarrow> cell_at m' c
           = (if snd c \<in> set ys then cleared (cell_at m1 c) else cell_at m1 c)"
    by blast
  have "cell_at m' c = (if snd c \<in> set (y # ys) then cleared (cell_at m c) else cell_at m c)"
    if "in_grid m c" for c
  proof -
    from that have g1: "in_grid m1 c" by (simp add: shape_rect(4)[OF s1])
    have "fst c \<in> set (py_range 0 (int (length r0)))"
      using that w by (simp add: py_range_set in_grid_def)
    with c[OF g1] c1[OF that] show ?thesis by (auto simp add: cleared_idem)
  qed
  with e s s1 e1 p0 show ?case by simp
qed

lemma clear_tmp_data_grid:
  assumes "rectangular m"
  shows "\<exists>m'. clear_tmp_data m = Some m' \<and> map length m' = map length m
     \<and> (\<forall>c. in_grid m c \<longrightarrow> cell_at m' c = cleared (cell_at m c))"
proof -
  have a: "\<forall>y \<in> set (py_range 0 (int (length m))). 0 \<le> y \<and> y < maze_height m"
    by (simp add: py_range_set maze_height_def)
  from clear_tmp_rows_grid[OF assms a] obtain m' where
    e: "clear_tmp_rows (py_range 0 (int (length m))) m = Some m'"
    and s: "map length m' = map length m"
    and c: "\<And>c. in_grid m c \<Longrightarrow> cell_at m' c
        = (if snd c \<in> set (py_range 0 (int (length m))) then cleared (cell_at m c) else cell_at m c)"
    by blast
  have "cell_at m' c = cleared (cell_at m c)" if "in_grid m c" for c
    using c[OF that] that by (simp add: py_range_set in_grid_def maze_height_def)
  with e s show ?thesis by (simp add: clear_tmp_data_def)
qed

lemma low_nibble_grid:
  assumes "rectangular m"
  shows "low_nibble m \<longleftrightarrow> (\<forall>c. in_grid m c \<longrightarrow> cell_at m c \<le> 0xf)"
proof
  assume l: "low_nibble m"
  show "\<forall>c. in_grid m c \<longrightarrow> cell_at m c \<le> 0xf"
  proof (intro allI impI)
    fix c assume g: "in_grid m c"
    then have y: "nat (snd c) < length m" by (auto simp add: in_grid_def maze_height_def)
    then have "m ! nat (snd c) \<in> set m" by simp
    with assms have "int (length (m ! nat (snd c))) = maze_width m"
      by (simp add: rectangular_def list_all_iff)
    with g have x: "nat (fst c) < length (m ! nat (snd c))" by (auto simp add: in_grid_def)
    from l y x show "cell_at m c \<le> 0xf"
      by (simp add: low_nibble_def list_all_length cell_at_def)
  qed
next
  assume a: "\<forall>c. in_grid m c \<longrightarrow> cell_at m c \<le> 0xf"
  show "low_nibble m"
    unfolding low_nibble_def list_all_length
  proof (intro allI impI)
    fix i j assume i: "i < length m" and j: "j < length (m ! i)"
    from i have "m ! i \<in> set m" by simp
    with assms have "int (length (m ! i)) = maze_width m"
      by (simp add: rectangular_def list_all_iff)
    with i j have "in_grid m (int j, int i)" by (simp add: in_grid_def maze_height_def)
    with a have "cell_at m (int j, int i) \<le> 0xf" by blast
    then show "m ! i ! j \<le> 0xf" by (simp add: cell_at_def)
  qed
qed

lemma clear_tmp_data_low_nibble:
  assumes "rectangular m"
  shows "\<exists>m'. clear_tmp_data m = Some m' \<and> low_nibble m' \<and> rectangular m'
     \<and> maze_width m' = maze_width m \<and> maze_height m' = maze_height m
     \<and> (\<forall>c. in_grid m c \<longrightarrow> cell_at m' c AND 0xf = cell_at m c AND 0xf)"
proof -
  from clear_tmp_data_grid[OF assms] obtain m' where
    e: "clear_tmp_data m = Some m'" and s: "map length m' = map length m"
    and c: "\<And>c. in_grid m c \<Longrightarrow> cell_at m' c = cleared (cell_at m c)"
    by blast
  note sh = shape_rect[OF s]
  have r': "rectangular m'" using sh(1) assms by simp
  have "low_nibble m'"
    unfolding low_nibble_grid[OF r'] using c by (simp add: sh(4) cleared_le)
  with e r' sh c show ?thesis by (simp add: cleared_and)
qed


subsection \<open>The shape of the generated grid\<close>

text \<open>
  Every write to the grid is an assignment \<open>maze[y][x] = v\<close>, which keeps the lengths of
  the rows; so \<open>generate\<close> returns a grid of \<open>height\<close> rows of \<open>width\<close> cells.
\<close>

lemma stamp_row_shape:
  "stamp_row px py y xs m = Some m' \<Longrightarrow> map length m' = map length m"
proof (induction xs arbitrary: m)
  case Nil
  then show ?case by simp
next
  case (Cons x xs)
  from Cons.prems obtain v where v: "Option.bind (py_get p_42 y) (\<lambda>row. py_get row x) = Some v"
    by (auto split: option.splits)
  show ?case
  proof (cases "v = 15")
    case True
    with Cons.prems v obtain m1 where m1: "mset m (x + px) (y + py) 15 = Some m1"
      and r: "stamp_row px py y xs m1 = Some m'"
      by (auto split: option.splits)
    from Cons.IH[OF r] mset_shape[OF m1] show ?thesis by simp
  next
    case False
    with Cons.prems v have "stamp_row px py y xs m = Some m'" by simp
    from Cons.IH[OF this] show ?thesis .
  qed
qed

lemma stamp_rows_shape:
  "stamp_rows px py ys xs m = Some m' \<Longrightarrow> map length m' = map length m"
proof (induction ys arbitrary: m)
  case Nil
  then show ?case by simp
next
  case (Cons y ys)
  from Cons.prems obtain m1 where m1: "stamp_row px py y xs m = Some m1"
    and r: "stamp_rows px py ys xs m1 = Some m'"
    by (auto split: option.splits)
  from Cons.IH[OF r] stamp_row_shape[OF m1] show ?case by simp
qed

lemma place_42_shape:
  assumes "place_42 m a b = Some (ok, m')"
  shows "map length m' = map length m"
proof -
  have "m' = m \<or> (\<exists>px py ys xs. stamp_rows px py ys xs m = Some m')"
    using assms unfolding place_42_def Let_def
    by (auto split: if_splits option.splits)
  then show ?thesis using stamp_rows_shape by blast
qed

lemma gen_DFS_carve_shape:
  assumes "gen_DFS_carve m x y q rest w = Some (m', st')"
  shows "map length m' = map length m"
proof -
  have "m' = m \<or> (\<exists>a b c d e f m1. mset m a b c = Some m1 \<and> mset m1 d e f = Some m')"
    using assms unfolding gen_DFS_carve_def
    by (auto simp add: bind_eq_Some_conv split: if_splits)
  then show ?thesis using mset_shape by metis
qed

lemma gen_DFS_body_shape:
  assumes "gen_DFS_body p (m, st, g) = Some (m', st', g')"
  shows "map length m' = map length m"
proof -
  have "m' = m \<or> (\<exists>x y q rest w st2. gen_DFS_carve m x y q rest w = Some (m', st2))"
    using assms unfolding gen_DFS_body_def
    by (auto simp add: bind_eq_Some_conv split: list.splits if_splits)
  then show ?thesis using gen_DFS_carve_shape by blast
qed

lemma gen_DFS_loop_shape:
  "gen_DFS_loop p s = Some (m', g') \<Longrightarrow> map length m' = map length (fst s)"
proof (induction s rule: measure_induct_rule[of gen_DFS_measure])
  case (less s)
  obtain m st g where s: "s = (m, st, g)" by (cases s)
  show ?case
  proof (cases "st = []")
    case True
    with less.prems show ?thesis by (simp add: s gen_DFS_loop.simps[of p "(m, [], g)"])
  next
    case False
    with less.prems obtain s1 where b: "gen_DFS_body p (m, st, g) = Some s1"
      and l: "gen_DFS_loop p s1 = Some (m', g')"
      by (auto simp add: s gen_DFS_loop.simps[of p "(m, st, g)"] split: option.splits)
    obtain m1 st1 g1 where s1: "s1 = (m1, st1, g1)" by (cases s1)
    from gen_DFS_body_measure[OF b] have "gen_DFS_measure s1 < gen_DFS_measure s" by (simp add: s)
    from less.IH[OF this l] gen_DFS_body_shape[OF b[unfolded s1]] show ?thesis
      by (simp add: s s1)
  qed
qed

lemma gen_DFS_shape:
  assumes "gen_DFS m p g = Some (m', g')"
  shows "map length m' = map length m"
proof -
  obtain x y where e: "exit p = (x, y)" by (cases "exit p")
  from assms obtain c m1 where m1: "mset m x y (c OR 0x10) = Some m1"
    and l: "gen_DFS_loop p (m1, [(x, y, 0xf)], g) = Some (m', g')"
    by (auto simp add: gen_DFS_def e bind_eq_Some_conv)
  from gen_DFS_loop_shape[OF l] mset_shape[OF m1] show ?thesis by simp
qed

lemma remove_wall_shape:
  assumes "remove_wall m x y w = Some m'"
  shows "map length m' = map length m"
proof -
  have "m' = m \<or> (\<exists>a b c. mset m a b c = Some m')"
    using assms unfolding remove_wall_def
    by (auto simp add: bind_eq_Some_conv split: if_splits)
  then show ?thesis using mset_shape by blast
qed

lemma do_not_prefect_cell_shape:
  assumes "do_not_prefect_cell m pr x y g = Some (m', g', rc)"
  shows "map length m' = map length m"
proof -
  obtain go g1 where dd: "dead_end_draw pr g = (go, g1)" by (cases "dead_end_draw pr g")
  have "m' = m \<or> (\<exists>w. remove_wall m x y w = Some m')"
    using assms unfolding do_not_prefect_cell_def
    by (auto simp add: dd bind_eq_Some_conv split: if_splits)
  then show ?thesis using remove_wall_shape by blast
qed

lemma do_not_prefect_row_shape:
  "do_not_prefect_row pr y xs m g = Some (m', g') \<Longrightarrow> map length m' = map length m"
proof (induction xs arbitrary: m g)
  case Nil
  then show ?case by simp
next
  case (Cons x xs)
  from Cons.prems obtain m1 g1 rc where c: "do_not_prefect_cell m pr x y g = Some (m1, g1, rc)"
    and r: "do_not_prefect_row pr y xs m1 g1 = Some (m', g')"
    by (auto split: option.splits)
  from Cons.IH[OF r] do_not_prefect_cell_shape[OF c] show ?case by simp
qed

lemma do_not_prefect_rows_shape:
  "do_not_prefect_rows pr ys m g = Some (m', g') \<Longrightarrow> map length m' = map length m"
proof (induction ys arbitrary: m g)
  case Nil
  then show ?case by simp
next
  case (Cons y ys)
  from Cons.prems obtain r0 :: "int list" and m1 g1 where
    c: "do_not_prefect_row pr y (py_range 0 (int (length r0))) m g = Some (m1, g1)"
    and r: "do_not_prefect_rows pr ys m1 g1 = Some (m', g')"
    by (auto split: option.splits)
  from Cons.IH[OF r] do_not_prefect_row_shape[OF c] show ?case by simp
qed

lemma do_not_prefect_shape:
  assumes "do_not_prefect m p g = Some (m', g')"
  shows "map length m' = map length m"
  using assms do_not_prefect_rows_shape
  by (auto simp add: do_not_prefect_def Let_def split: if_splits)

lemma generate_shape:
  assumes "generate random_seed p g = Some (m, g')"
  shows "map length m = replicate (nat (height p)) (nat (width p))"
proof -
  define m0 where "m0 = replicate (nat (height p)) (replicate (nat (width p)) (3::int))"
  from assms obtain m1 m2 m3 m4 g0 g1 where
    a: "mset m0 (fst (entry p)) (snd (entry p)) 7 = Some m1"
       "mset m1 (fst (exit p)) (snd (exit p)) 11 = Some m2"
       "(if insert_42 p then map_option snd (place_42 m2 (entry p) (exit p)) else Some m2) = Some m3"
       "gen_DFS m3 p g0 = Some (m4, g1)"
       "(if \<not> perfect p then do_not_prefect m4 p g1 else Some (m4, g1)) = Some (m, g')"
    unfolding generate_def Let_def m0_def[symmetric]
    by (auto simp add: bind_eq_Some_conv)
  have s3: "map length m3 = map length m2"
  proof (cases "insert_42 p")
    case True
    with a(3) obtain ok where "place_42 m2 (entry p) (exit p) = Some (ok, m3)" by auto
    then show ?thesis by (rule place_42_shape)
  next
    case False
    with a(3) show ?thesis by simp
  qed
  have s5: "map length m = map length m4"
  proof (cases "perfect p")
    case False
    with a(5) have "do_not_prefect m4 p g1 = Some (m, g')" by simp
    then show ?thesis by (rule do_not_prefect_shape)
  next
    case True
    with a(5) show ?thesis by simp
  qed
  have "map length m0 = replicate (nat (height p)) (nat (width p))"
    by (simp add: m0_def)
  with mset_shape[OF a(1)] mset_shape[OF a(2)] s3 gen_DFS_shape[OF a(4)] s5
  show ?thesis by simp
qed

lemma generate_rectangular:
  assumes "generate random_seed p g = Some (m, g')"
  shows "rectangular m"
proof -
  note s = generate_shape[OF assms]
  show ?thesis
    unfolding rectangular_length maze_width_length s
    by (cases "nat (height p)") (simp_all add: list_all_iff)
qed


subsection \<open>What restores the low nibble\<close>

lemma low_byte_nibble:
  assumes "(a::int) AND 0xff = b AND 0xff"
  shows "a AND 0xf = b AND 0xf"
proof -
  have "x AND 0xf = (x AND 0xff) AND 0xf" for x :: int by (simp add: and.assoc)
  from this[of a] this[of b] assms show ?thesis by simp
qed

text \<open>
  Claim C6. \<open>clear_tmp_data\<close> returns on every rectangular grid, and leaves a grid of the
  same shape in which every cell is at most \<open>0xF\<close> and has kept its four low bits. It
  does so on every grid \<open>generate\<close> returns. \<open>find_path_DFS\<close> (on a rectangular grid of the
  dimensions of the parameters, with the entry in the grid) changes only the bits 8 and
  above of a cell, and \<open>clear_tmp_data\<close> after it leaves every cell at most \<open>0xF\<close> with the
  four low bits the cell had before the search.
\<close>

theorem clear_tmp_data_restores:
  "(rectangular maze \<longrightarrow>
      (\<exists>maze'. clear_tmp_data maze = Some maze' \<and> low_nibble maze' \<and> rectangular maze'
         \<and> maze_width maze' = maze_width maze \<and> maze_height maze' = maze_height maze
         \<and> (\<forall>c. in_grid maze c \<longrightarrow> cell_at maze' c AND 0xf = cell_at maze c AND 0xf)))
   \<and> (generate random_seed p g = Some (m, g') \<longrightarrow>
      (\<exists>m'. clear_tmp_data m = Some m' \<and> low_nibble m'
         \<and> (\<forall>c. in_grid m c \<longrightarrow> cell_at m' c AND 0xf = cell_at m c AND 0xf)))
   \<and> (rectangular maze \<and> maze_width maze = width p \<and> maze_height maze = height p
        \<and> in_grid maze (entry p) \<and> find_path_DFS maze p [] ck = Some (path, m1) \<longrightarrow>
      (\<forall>c. in_grid maze c \<longrightarrow> cell_at m1 c AND 0xff = cell_at maze c AND 0xff)
      \<and> (\<exists>m2. clear_tmp_data m1 = Some m2 \<and> low_nibble m2
         \<and> (\<forall>c. in_grid maze c \<longrightarrow> cell_at m2 c AND 0xf = cell_at maze c AND 0xf)))"
proof (intro conjI impI)
  assume "rectangular maze"
  from clear_tmp_data_low_nibble[OF this]
  show "\<exists>maze'. clear_tmp_data maze = Some maze' \<and> low_nibble maze' \<and> rectangular maze'
         \<and> maze_width maze' = maze_width maze \<and> maze_height maze' = maze_height maze
         \<and> (\<forall>c. in_grid maze c \<longrightarrow> cell_at maze' c AND 0xf = cell_at maze c AND 0xf)" .
next
  assume "generate random_seed p g = Some (m, g')"
  from clear_tmp_data_low_nibble[OF generate_rectangular[OF this]]
  show "\<exists>m'. clear_tmp_data m = Some m' \<and> low_nibble m'
         \<and> (\<forall>c. in_grid m c \<longrightarrow> cell_at m' c AND 0xf = cell_at m c AND 0xf)" by blast
next
  assume a: "rectangular maze \<and> maze_width maze = width p \<and> maze_height maze = height p
        \<and> in_grid maze (entry p) \<and> find_path_DFS maze p [] ck = Some (path, m1)"
  then have "same_walls maze m1"
    using find_path_DFS_valid[of maze p "[]" ck path m1] by simp
  then have sw: "same_walls maze m1" .
  from sw have r1: "rectangular m1" by (simp add: same_walls_def)
  note ig = same_walls_in_grid[OF sw]
  from sw have lb: "\<And>c. in_grid maze c \<Longrightarrow> cell_at m1 c AND 0xff = cell_at maze c AND 0xff"
    unfolding same_walls_def by blast
  from lb show "\<forall>c. in_grid maze c \<longrightarrow> cell_at m1 c AND 0xff = cell_at maze c AND 0xff" by blast
  from clear_tmp_data_low_nibble[OF r1] obtain m2 where
    e: "clear_tmp_data m1 = Some m2" "low_nibble m2"
    and c: "\<And>c. in_grid m1 c \<Longrightarrow> cell_at m2 c AND 0xf = cell_at m1 c AND 0xf" by blast
  have "cell_at m2 c AND 0xf = cell_at maze c AND 0xf" if "in_grid maze c" for c
    using c[of c] low_byte_nibble[OF lb[OF that]] that ig by simp
  with e show "\<exists>m2. clear_tmp_data m1 = Some m2 \<and> low_nibble m2
         \<and> (\<forall>c. in_grid maze c \<longrightarrow> cell_at m2 c AND 0xf = cell_at maze c AND 0xf)" by blast
qed

theorem clear_tmp_data_restores_witness:
  "clear_tmp_data [[25, 19], [17, 22]] = Some [[9, 3], [1, 6]] \<and> low_nibble [[9, 3], [1, 6]]
   \<and> clear_tmp_data [[1, 257, 3]] = Some [[1, 1, 3]] \<and> low_nibble [[1, 1, 3]]"
proof -
  let ?p = "(mk_params 2 2 (1, 1) (0, 0))\<lparr>insert_42 := False\<rparr>"
  obtain g' where g: "generate (\<lambda>s n. 0) ?p (\<lambda>n. 0) = Some ([[25, 19], [17, 22]], g')"
  proof -
    have "map_option fst (generate (\<lambda>s n. 0) ?p (\<lambda>n. 0)) = Some [[25, 19], [17, 22]]"
      by code_simp
    then show ?thesis using that by (cases "generate (\<lambda>s n. 0) ?p (\<lambda>n. 0)") auto
  qed
  have d: "rectangular [[1, 1, 3]] \<and> maze_width [[1, 1, 3]] = width (mk_params 3 1 (0, 0) (2, 0))
      \<and> maze_height [[1, 1, 3]] = height (mk_params 3 1 (0, 0) (2, 0))
      \<and> in_grid [[1, 1, 3]] (entry (mk_params 3 1 (0, 0) (2, 0)))
      \<and> find_path_DFS [[1, 1, 3]] (mk_params 3 1 (0, 0) (2, 0)) [] (\<lambda>n. 0)
          = Some ([(0, 0), (1, 0), (2, 0)], [[1, 257, 3]])"
    by code_simp
  have e1: "clear_tmp_data [[25, 19], [17, 22]] = Some [[9, 3], [1, 6]]" by code_simp
  have e2: "clear_tmp_data [[1, 257, 3]] = Some [[1, 1, 3]]" by code_simp
  from clear_tmp_data_restores[of "[[1, 1, 3]]" "\<lambda>s n. 0" ?p "\<lambda>n. 0" "[[25, 19], [17, 22]]" g']
    g e1
  have "low_nibble [[9, 3], [1, 6]]" by auto
  moreover
  from clear_tmp_data_restores[of "[[1, 1, 3]]" "\<lambda>s n. 0" "mk_params 3 1 (0, 0) (2, 0)" "\<lambda>n. 0"
      "[[25, 19], [17, 22]]" g' "\<lambda>n. 0" "[(0, 0), (1, 0), (2, 0)]" "[[1, 257, 3]]"] d e2
  have "low_nibble [[1, 1, 3]]" by auto
  ultimately show ?thesis using e1 e2 by simp
qed

text \<open>
  The claim as stated has \<open>generate\<close> and \<open>find_path_DFS\<close> themselves leave every cell at
  most \<open>0xF\<close>. Neither clears what it writes: \<open>generate\<close> returns the cells with the
  visited flag (25 is \<open>0x19\<close>), and \<open>find_path_DFS\<close> leaves the depth stamp of the cell
  \<open>(1, 0)\<close> (257 is \<open>0x101\<close>) in a grid whose cells were all at most \<open>0xF\<close>.
\<close>

theorem transient_bits_left_counterexample:
  "map_option fst (generate (\<lambda>s n. 0) ((mk_params 2 2 (1, 1) (0, 0))\<lparr>insert_42 := False\<rparr>) (\<lambda>n. 0))
     = Some [[25, 19], [17, 22]]
   \<and> \<not> low_nibble [[25, 19], [17, 22]]
   \<and> low_nibble [[1, 1, 3]]
   \<and> find_path_DFS [[1, 1, 3]] (mk_params 3 1 (0, 0) (2, 0)) [] (\<lambda>n. 0)
       = Some ([(0, 0), (1, 0), (2, 0)], [[1, 257, 3]])
   \<and> \<not> low_nibble [[1, 257, 3]]"
  by code_simp

end
